(* ===== verification/Prelude.thy ===== *)
theory Prelude
  imports Main "HOL-Library.Word"
begin

text \<open>
  Shared vocabulary of the development: machine words, the faults a Rust run can end in, the
  operations of the model (state passing with faults), a total-correctness calculus for them, and
  list lemmas about counting slots.
\<close>

unbundle bit_operations_syntax

section \<open>Machine words and thread identifiers\<close>

type_synonym usize = "64 word"
type_synonym tid = nat
type_synonym nid = nat

section \<open>Faults\<close>

text \<open>
  Every way a run of the code can go wrong is a value: a failed \<open>expect\<close>, a failed \<open>assert!\<close>, a
  failed \<open>debug_assert!\<close>, an \<open>unreachable!\<close>, a panic of a closure of the user, and the two kinds
  of undefined behaviour the crate has to exclude, the use of a reference count that is already
  gone and the dereference of a pointer that designates nothing. \<open>Would_Block\<close> is a lock that can
  never be taken, \<open>Out_Of_Fuel\<close> a loop whose bound was too small.
\<close>

datatype fault =
    Expect_Failed
  | Assert_Failed
  | Debug_Assert
  | Unreachable usize
  | User_Panic
  | Use_After_Free usize
  | Bad_Pointer usize
  | Would_Block
  | Out_Of_Fuel

section \<open>Operations\<close>

type_synonym ('w, 'a) op = "'w \<Rightarrow> fault + ('a \<times> 'w)"

definition ret :: "'a \<Rightarrow> ('w, 'a) op" where
  "ret a = (\<lambda>w. Inr (a, w))"

definition raise :: "fault \<Rightarrow> ('w, 'a) op" where
  "raise e = (\<lambda>w. Inl e)"

definition bnd :: "('w, 'a) op \<Rightarrow> ('a \<Rightarrow> ('w, 'b) op) \<Rightarrow> ('w, 'b) op" where
  "bnd m f = (\<lambda>w. case m w of Inl e \<Rightarrow> Inl e | Inr (a, w') \<Rightarrow> f a w')"

definition gets :: "('w \<Rightarrow> 'a) \<Rightarrow> ('w, 'a) op" where
  "gets f = (\<lambda>w. Inr (f w, w))"

definition modify :: "('w \<Rightarrow> 'w) \<Rightarrow> ('w, unit) op" where
  "modify f = (\<lambda>w. Inr ((), f w))"

definition require :: "fault \<Rightarrow> bool \<Rightarrow> ('w, unit) op" where
  "require e b = (if b then ret () else raise e)"

definition unwrap :: "fault \<Rightarrow> 'a option \<Rightarrow> ('w, 'a) op" where
  "unwrap e x = (case x of None \<Rightarrow> raise e | Some a \<Rightarrow> ret a)"

section \<open>Total correctness of operations\<close>

text \<open>
  \<open>wp m Q w\<close>: the operation \<open>m\<close>, started in \<open>w\<close>, returns (it does not fault) and its result and final
  state satisfy \<open>Q\<close>. The rules below compute it along the structure of an operation.
\<close>

named_theorems wp_rules \<open>how the total-correctness transformer passes through an operation\<close>
named_theorems slot_simps \<open>counting the slots of a list or of the nodes\<close>

definition wp :: "('w, 'a) op \<Rightarrow> ('a \<Rightarrow> 'w \<Rightarrow> bool) \<Rightarrow> 'w \<Rightarrow> bool" where
  "wp m Q w \<longleftrightarrow> (case m w of Inl e \<Rightarrow> False | Inr (a, w') \<Rightarrow> Q a w')"

lemma wp_ret [wp_rules, simp]: "wp (ret a) Q w \<longleftrightarrow> Q a w"
  by (simp add: wp_def ret_def)

lemma wp_raise [wp_rules, simp]: "wp (raise e) Q w \<longleftrightarrow> False"
  by (simp add: wp_def raise_def)

lemma wp_bnd [wp_rules, simp]: "wp (bnd m f) Q w \<longleftrightarrow> wp m (\<lambda>a w'. wp (f a) Q w') w"
  by (simp add: wp_def bnd_def split: sum.splits prod.splits)

lemma wp_gets [wp_rules, simp]: "wp (gets f) Q w \<longleftrightarrow> Q (f w) w"
  by (simp add: wp_def gets_def)

lemma wp_modify [wp_rules, simp]: "wp (modify f) Q w \<longleftrightarrow> Q () (f w)"
  by (simp add: wp_def modify_def)

lemma wp_require [wp_rules, simp]: "wp (require e b) Q w \<longleftrightarrow> b \<and> Q () w"
  by (simp add: require_def)

lemma wp_unwrap [wp_rules, simp]:
  "wp (unwrap e x) Q w \<longleftrightarrow> (case x of None \<Rightarrow> False | Some a \<Rightarrow> Q a w)"
  by (simp add: unwrap_def split: option.splits)

lemma wp_mono: "wp m Q w \<Longrightarrow> (\<And>a w'. Q a w' \<Longrightarrow> R a w') \<Longrightarrow> wp m R w"
  by (auto simp: wp_def split: sum.splits)

lemma wp_result: "wp m Q w \<longleftrightarrow> (\<exists>a w'. m w = Inr (a, w') \<and> Q a w')"
  by (auto simp: wp_def split: sum.splits)

lemma wp_conj: "wp m Q w \<Longrightarrow> wp m R w \<Longrightarrow> wp m (\<lambda>a w'. Q a w' \<and> R a w') w"
  by (auto simp: wp_def split: sum.splits)

lemma wp_Inr: "m w = Inr (a, w') \<Longrightarrow> wp m Q w \<longleftrightarrow> Q a w'"
  by (simp add: wp_def)

lemma bnd_assoc: "bnd (bnd m f) g = bnd m (\<lambda>a. bnd (f a) g)"
  by (rule ext) (simp add: bnd_def split: sum.splits prod.splits)

section \<open>Counting\<close>

lemma nth_update: "xs[i := x] ! j = (if i = j \<and> j < length xs then x else xs ! j)"
proof (induction xs arbitrary: i j)
  case Nil
  then show ?case by simp
next
  case (Cons a xs)
  then show ?case by (cases i; cases j) auto
qed

lemma count_list_update [slot_simps]:
  "i < length xs \<Longrightarrow>
   count_list (xs[i := x]) y + (if xs ! i = y then 1 else 0)
     = count_list xs y + (if x = y then 1 else 0)"
proof (induction xs arbitrary: i)
  case Nil
  then show ?case by simp
next
  case (Cons a xs)
  show ?case
  proof (cases i)
    case 0
    then show ?thesis by simp
  next
    case (Suc j)
    with Cons.prems Cons.IH [of j] show ?thesis by (auto split: if_splits)
  qed
qed

lemma count_list_update_int:
  "i < length xs \<Longrightarrow>
   int (count_list (xs[i := x]) y)
     = int (count_list xs y) + (if x = y then 1 else 0) - (if xs ! i = y then 1 else 0)"
  using count_list_update [of i xs x y] by auto

lemma sum_list_update_nat:
  fixes xs :: "nat list"
  shows "i < length xs \<Longrightarrow> sum_list (xs[i := x]) + xs ! i = sum_list xs + x"
proof (induction xs arbitrary: i)
  case Nil
  then show ?case by simp
next
  case (Cons a xs)
  show ?case
  proof (cases i)
    case 0
    then show ?thesis by simp
  next
    case (Suc j)
    with Cons.prems Cons.IH [of j] show ?thesis by simp
  qed
qed

lemma sum_list_map_update:
  fixes f :: "'a \<Rightarrow> nat"
  shows "i < length xs \<Longrightarrow> sum_list (map f (xs[i := x])) + f (xs ! i) = sum_list (map f xs) + f x"
  using sum_list_update_nat [of i "map f xs" "f x"] by (simp add: map_update)

lemma sum_list_map_update_int:
  fixes f :: "'a \<Rightarrow> nat"
  shows "i < length xs \<Longrightarrow>
    int (sum_list (map f (xs[i := x]))) = int (sum_list (map f xs)) + int (f x) - int (f (xs ! i))"
  using sum_list_map_update [of i xs f x] by linarith

lemma member_le_sum_list_map:
  fixes f :: "'a \<Rightarrow> nat"
  shows "i < length xs \<Longrightarrow> f (xs ! i) \<le> sum_list (map f xs)"
  by (simp add: member_le_sum_list)

end
