(* ===== verification/Ref_Cnt.thy ===== *)
theory Ref_Cnt
  imports Prelude
begin

text \<open>
  The trait \<open>RefCnt\<close> (ref_cnt.rs, weak.rs), its implementations and the reference-counted heap of
  the standard library they work on. The types that implement the trait in the crate are the
  values of \<open>kind\<close>, the smart pointers of these types are the values of \<open>smart\<close>.
  The locale \<open>ref_cnt\<close> is the contract of the trait; it is interpreted on every kind of pointer
  the crate supports.
\<close>

section \<open>The heap of reference-counted objects\<close>

text \<open>
  One allocation of \<open>Arc\<close> or \<open>Rc\<close>: the two counts and the value. The count of weak pointers is
  the one \<open>Arc::weak_count\<close> reports. An address without an allocation holds \<open>None\<close>; addresses can be
  allocated again.
\<close>

record 'v arc_inner =
  strong :: nat
  weak :: nat
  pointee :: 'v

type_synonym 'v heap = "usize \<Rightarrow> 'v arc_inner option"

definition settle :: "'v arc_inner \<Rightarrow> 'v arc_inner option" where
  "settle c = (if strong c = 0 \<and> weak c = 0 then None else Some c)"

definition strong_inc :: "usize \<Rightarrow> 'v heap \<Rightarrow> fault + 'v heap" where
  "strong_inc p h = (case h p of
      None \<Rightarrow> Inl (Use_After_Free p)
    | Some c \<Rightarrow> if strong c = 0 then Inl (Use_After_Free p)
                else Inr (h(p := Some (c\<lparr>strong := Suc (strong c)\<rparr>))))"

definition strong_dec :: "usize \<Rightarrow> 'v heap \<Rightarrow> fault + 'v heap" where
  "strong_dec p h = (case h p of
      None \<Rightarrow> Inl (Use_After_Free p)
    | Some c \<Rightarrow> if strong c = 0 then Inl (Use_After_Free p)
                else Inr (h(p := settle (c\<lparr>strong := strong c - 1\<rparr>))))"

definition weak_inc :: "usize \<Rightarrow> 'v heap \<Rightarrow> fault + 'v heap" where
  "weak_inc p h = (case h p of
      None \<Rightarrow> Inl (Use_After_Free p)
    | Some c \<Rightarrow> if weak c = 0 then Inl (Use_After_Free p)
                else Inr (h(p := Some (c\<lparr>weak := Suc (weak c)\<rparr>))))"

definition weak_dec :: "usize \<Rightarrow> 'v heap \<Rightarrow> fault + 'v heap" where
  "weak_dec p h = (case h p of
      None \<Rightarrow> Inl (Use_After_Free p)
    | Some c \<Rightarrow> if weak c = 0 then Inl (Use_After_Free p)
                else Inr (h(p := settle (c\<lparr>weak := weak c - 1\<rparr>))))"

section \<open>The types that implement the trait, and their values\<close>

datatype kind = KArc | KRc | KPinArc | KPinRc | KOption kind | KWeak | KRcWeak

text \<open>A weak pointer made by \<open>Weak::new\<close> designates no allocation: its address is \<open>None\<close>.\<close>

datatype smart =
    ArcP usize
  | RcP usize
  | PinArcP usize
  | PinRcP usize
  | NoneP
  | SomeP smart
  | WeakP "usize option"
  | RcWeakP "usize option"

fun has_kind :: "smart \<Rightarrow> kind \<Rightarrow> bool" where
  "has_kind (ArcP p) KArc = (p \<noteq> 0)"
| "has_kind (RcP p) KRc = (p \<noteq> 0)"
| "has_kind (PinArcP p) KPinArc = (p \<noteq> 0)"
| "has_kind (PinRcP p) KPinRc = (p \<noteq> 0)"
| "has_kind NoneP (KOption k) = True"
| "has_kind (SomeP v) (KOption k) = has_kind v k"
| "has_kind (WeakP q) KWeak = (q \<noteq> Some 0)"
| "has_kind (RcWeakP q) KRcWeak = (q \<noteq> Some 0)"
| "has_kind _ _ = False"

section \<open>The methods of the trait\<close>

fun into_ptr :: "smart \<Rightarrow> usize" where
  "into_ptr (ArcP p) = p"
| "into_ptr (RcP p) = p"
| "into_ptr (PinArcP p) = p"
| "into_ptr (PinRcP p) = p"
| "into_ptr NoneP = 0"
| "into_ptr (SomeP v) = into_ptr v"
| "into_ptr (WeakP q) = (case q of None \<Rightarrow> 0 | Some p \<Rightarrow> p)"
| "into_ptr (RcWeakP q) = (case q of None \<Rightarrow> 0 | Some p \<Rightarrow> p)"

fun as_ptr :: "smart \<Rightarrow> usize" where
  "as_ptr (ArcP p) = p"
| "as_ptr (RcP p) = p"
| "as_ptr (PinArcP p) = p"
| "as_ptr (PinRcP p) = p"
| "as_ptr NoneP = 0"
| "as_ptr (SomeP v) = as_ptr v"
| "as_ptr (WeakP q) = (case q of None \<Rightarrow> 0 | Some p \<Rightarrow> p)"
| "as_ptr (RcWeakP q) = (case q of None \<Rightarrow> 0 | Some p \<Rightarrow> p)"

fun from_ptr :: "kind \<Rightarrow> usize \<Rightarrow> smart" where
  "from_ptr KArc p = ArcP p"
| "from_ptr KRc p = RcP p"
| "from_ptr KPinArc p = PinArcP p"
| "from_ptr KPinRc p = PinRcP p"
| "from_ptr (KOption k) p = (if p = 0 then NoneP else SomeP (from_ptr k p))"
| "from_ptr KWeak p = WeakP (if p = 0 then None else Some p)"
| "from_ptr KRcWeak p = RcWeakP (if p = 0 then None else Some p)"

fun clone_smart :: "smart \<Rightarrow> 'v heap \<Rightarrow> fault + 'v heap" where
  "clone_smart (ArcP p) h = strong_inc p h"
| "clone_smart (RcP p) h = strong_inc p h"
| "clone_smart (PinArcP p) h = strong_inc p h"
| "clone_smart (PinRcP p) h = strong_inc p h"
| "clone_smart NoneP h = Inr h"
| "clone_smart (SomeP v) h = clone_smart v h"
| "clone_smart (WeakP q) h = (case q of None \<Rightarrow> Inr h | Some p \<Rightarrow> weak_inc p h)"
| "clone_smart (RcWeakP q) h = (case q of None \<Rightarrow> Inr h | Some p \<Rightarrow> weak_inc p h)"

fun drop_smart :: "smart \<Rightarrow> 'v heap \<Rightarrow> fault + 'v heap" where
  "drop_smart (ArcP p) h = strong_dec p h"
| "drop_smart (RcP p) h = strong_dec p h"
| "drop_smart (PinArcP p) h = strong_dec p h"
| "drop_smart (PinRcP p) h = strong_dec p h"
| "drop_smart NoneP h = Inr h"
| "drop_smart (SomeP v) h = drop_smart v h"
| "drop_smart (WeakP q) h = (case q of None \<Rightarrow> Inr h | Some p \<Rightarrow> weak_dec p h)"
| "drop_smart (RcWeakP q) h = (case q of None \<Rightarrow> Inr h | Some p \<Rightarrow> weak_dec p h)"

text \<open>The two default methods: \<open>inc\<close> clones and forgets, \<open>dec\<close> makes a pointer and drops it.\<close>

definition rc_inc :: "smart \<Rightarrow> 'v heap \<Rightarrow> fault + (usize \<times> 'v heap)" where
  "rc_inc me h = (case clone_smart me h of Inl e \<Rightarrow> Inl e | Inr h' \<Rightarrow> Inr (into_ptr me, h'))"

definition rc_dec :: "kind \<Rightarrow> usize \<Rightarrow> 'v heap \<Rightarrow> fault + 'v heap" where
  "rc_dec k p h = drop_smart (from_ptr k p) h"

section \<open>Kinds, counts and the null pointer\<close>

fun weak_kind :: "kind \<Rightarrow> bool" where
  "weak_kind KWeak = True"
| "weak_kind KRcWeak = True"
| "weak_kind (KOption k) = weak_kind k"
| "weak_kind _ = False"

fun nullable :: "kind \<Rightarrow> bool" where
  "nullable KWeak = True"
| "nullable KRcWeak = True"
| "nullable (KOption k) = True"
| "nullable _ = False"

text \<open>The kinds the crate supports: an option directly around a pointer that is never null.\<close>

fun supported :: "kind \<Rightarrow> bool" where
  "supported (KOption k) = (\<not> nullable k)"
| "supported _ = True"

definition rc_count :: "kind \<Rightarrow> 'v heap \<Rightarrow> usize \<Rightarrow> nat" where
  "rc_count k h p = (case h p of None \<Rightarrow> 0 | Some c \<Rightarrow> if weak_kind k then weak c else strong c)"

text \<open>Whether a pointer of a kind carries a count at all: null does not where null is a value.\<close>

definition counted :: "kind \<Rightarrow> usize \<Rightarrow> bool" where
  "counted k p \<longleftrightarrow> \<not> (nullable k \<and> p = 0)"

text \<open>A pointer one may clone or drop: null where that is a value, or with a positive count.\<close>

definition live :: "kind \<Rightarrow> 'v heap \<Rightarrow> usize \<Rightarrow> bool" where
  "live k h p \<longleftrightarrow> (counted k p \<longrightarrow> 0 < rc_count k h p)"

lemma as_ptr_from_ptr [simp]: "as_ptr (from_ptr k p) = p"
  by (induction k) auto

lemma into_ptr_from_ptr [simp]: "into_ptr (from_ptr k p) = p"
  by (induction k) auto

lemma as_ptr_into_ptr: "as_ptr v = into_ptr v"
  by (induction v) auto

lemma nullable_ptr: "has_kind v k \<Longrightarrow> \<not> nullable k \<Longrightarrow> into_ptr v \<noteq> 0"
  by (induction v k rule: has_kind.induct) auto

lemma from_ptr_into_ptr: "supported k \<Longrightarrow> has_kind v k \<Longrightarrow> from_ptr k (into_ptr v) = v"
proof (cases k)
  case (KOption k')
  assume "supported k" and "has_kind v k"
  with KOption show ?thesis
    by (cases k'; cases v) (auto elim: has_kind.elims)
qed (cases v; auto split: option.splits)+

lemma has_kind_from_ptr: "supported k \<Longrightarrow> (nullable k \<or> p \<noteq> 0) \<Longrightarrow> has_kind (from_ptr k p) k"
proof (cases k)
  case (KOption k')
  assume "supported k" and "nullable k \<or> p \<noteq> 0"
  with KOption show ?thesis by (cases k') auto
qed auto

section \<open>What the methods do to the counts\<close>

definition inc_at :: "kind \<Rightarrow> usize \<Rightarrow> 'v heap \<Rightarrow> 'v heap" where
  "inc_at k p h = (if counted k p
     then h(p := map_option (\<lambda>c. if weak_kind k then c\<lparr>weak := Suc (weak c)\<rparr>
                                 else c\<lparr>strong := Suc (strong c)\<rparr>) (h p))
     else h)"

definition dec_at :: "kind \<Rightarrow> usize \<Rightarrow> 'v heap \<Rightarrow> 'v heap" where
  "dec_at k p h = (if counted k p
     then h(p := Option.bind (h p)
                   (\<lambda>c. settle (if weak_kind k then c\<lparr>weak := weak c - 1\<rparr>
                               else c\<lparr>strong := strong c - 1\<rparr>)))
     else h)"

lemma clone_from_ptr:
  "clone_smart (from_ptr k p) h
     = (if counted k p then (if weak_kind k then weak_inc p h else strong_inc p h) else Inr h)"
  by (induction k) (auto simp: counted_def)

lemma drop_from_ptr:
  "drop_smart (from_ptr k p) h
     = (if counted k p then (if weak_kind k then weak_dec p h else strong_dec p h) else Inr h)"
  by (induction k) (auto simp: counted_def)

lemma clone_from_ptr_eq:
  "clone_smart (from_ptr k p) h
     = (if live k h p then Inr (inc_at k p h) else Inl (Use_After_Free p))"
  by (auto simp: clone_from_ptr live_def inc_at_def rc_count_def weak_inc_def strong_inc_def
      split: option.splits)

lemma rc_inc_eq:
  "rc_inc (from_ptr k p) h
     = (if live k h p then Inr (p, inc_at k p h) else Inl (Use_After_Free p))"
  by (simp add: rc_inc_def clone_from_ptr_eq)

lemma rc_dec_eq:
  "rc_dec k p h = (if live k h p then Inr (dec_at k p h) else Inl (Use_After_Free p))"
  by (auto simp: rc_dec_def drop_from_ptr live_def dec_at_def rc_count_def weak_dec_def
      strong_dec_def split: option.splits)

lemma rc_count_settle [simp]:
  "rc_count k (h(p := settle c)) q
     = (if p = q then (if weak_kind k then weak c else strong c) else rc_count k h q)"
  by (simp add: rc_count_def settle_def)

lemma rc_count_inc_at:
  "live k h p \<Longrightarrow>
   rc_count k (inc_at k p h) q = rc_count k h q + (if q = p \<and> counted k q then 1 else 0)"
  by (auto simp: inc_at_def rc_count_def live_def split: option.splits)

lemma rc_count_dec_at:
  "live k h p \<Longrightarrow>
   rc_count k (dec_at k p h) q + (if q = p \<and> counted k q then 1 else 0) = rc_count k h q"
  by (auto simp: dec_at_def rc_count_def live_def settle_def split: option.splits if_splits)

lemma rc_count_dec_at_int:
  "live k h p \<Longrightarrow>
   int (rc_count k (dec_at k p h) q) = int (rc_count k h q) - (if q = p \<and> counted k q then 1 else 0)"
  using rc_count_dec_at [of k h p q] by (auto split: if_splits)

text \<open>A value stays what it was as long as its allocation is not given back.\<close>

lemma pointee_inc_at:
  "map_option pointee (inc_at k p h q) = map_option pointee (h q)"
  by (auto simp: inc_at_def option.map_comp comp_def intro: option.map_cong)

lemma pointee_dec_at:
  "dec_at k p h q \<noteq> None \<Longrightarrow> map_option pointee (dec_at k p h q) = map_option pointee (h q)"
  by (auto simp: dec_at_def settle_def split: if_splits bind_splits)

lemma dec_inc_at: "live k h p \<Longrightarrow> dec_at k p (inc_at k p h) = h"
  by (cases "h p") (auto simp: dec_at_def inc_at_def settle_def live_def rc_count_def fun_eq_iff
      split: if_splits)

section \<open>The contract of the trait\<close>

text \<open>
  What the code of the crate relies on (the \<open>Safety\<close> section of the trait): the conversions
  agree and are inverse to each other, cloning adds one to the count of the pointer and dropping takes
  one away, both touch no other count, and neither fails on a pointer that is alive.
\<close>

locale ref_cnt =
  fixes ok :: "'t \<Rightarrow> bool"
    and to_raw :: "'t \<Rightarrow> usize"
    and view_raw :: "'t \<Rightarrow> usize"
    and of_raw :: "usize \<Rightarrow> 't"
    and clone :: "'t \<Rightarrow> 'h \<Rightarrow> fault + 'h"
    and release :: "'t \<Rightarrow> 'h \<Rightarrow> fault + 'h"
    and alive :: "'h \<Rightarrow> usize \<Rightarrow> bool"
    and count :: "'h \<Rightarrow> usize \<Rightarrow> nat"
    and owns :: "usize \<Rightarrow> bool"
  assumes view_to: "view_raw v = to_raw v"
    and of_to: "ok v \<Longrightarrow> of_raw (to_raw v) = v"
    and to_of: "to_raw (of_raw p) = p"
    and clone_ok: "ok v \<Longrightarrow> alive h (to_raw v) \<Longrightarrow> \<exists>h'. clone v h = Inr h' \<and>
          (\<forall>q. count h' q = count h q + (if q = to_raw v \<and> owns q then 1 else 0))"
    and release_ok: "ok v \<Longrightarrow> alive h (to_raw v) \<Longrightarrow> \<exists>h'. release v h = Inr h' \<and>
          (\<forall>q. count h' q + (if q = to_raw v \<and> owns q then 1 else 0) = count h q)"
    and alive_count: "alive h p \<longleftrightarrow> (owns p \<longrightarrow> 0 < count h p)"
begin

lemma to_raw_inj: "ok v \<Longrightarrow> ok u \<Longrightarrow> to_raw v = to_raw u \<Longrightarrow> v = u"
  using of_to by metis

lemma clone_then_release:
  assumes "ok v" and "alive h (to_raw v)"
  shows "\<exists>h1 h2. clone v h = Inr h1 \<and> release v h1 = Inr h2 \<and> count h2 = count h"
proof -
  obtain h1 where h1: "clone v h = Inr h1"
    and c1: "\<forall>q. count h1 q = count h q + (if q = to_raw v \<and> owns q then 1 else 0)"
    using clone_ok [OF assms] by blast
  have "alive h1 (to_raw v)"
    using c1 by (simp add: alive_count)
  then obtain h2 where h2: "release v h1 = Inr h2"
    and c2: "\<forall>q. count h2 q + (if q = to_raw v \<and> owns q then 1 else 0) = count h1 q"
    using release_ok [OF assms(1)] by blast
  have "count h2 = count h"
    using c1 c2 by (auto simp: fun_eq_iff split: if_splits)
  with h1 h2 show ?thesis by blast
qed

end

locale supported_kind =
  fixes k :: kind
  assumes supported: "supported k"

sublocale supported_kind \<subseteq> ref_cnt
  "\<lambda>v. has_kind v k" into_ptr as_ptr "from_ptr k" clone_smart drop_smart
  "live k" "rc_count k" "counted k"
proof
  fix v :: smart and h :: "'a heap" and p :: usize
  show "as_ptr v = into_ptr v" by (rule as_ptr_into_ptr)
  show "into_ptr (from_ptr k p) = p" by simp
  show "live k h p \<longleftrightarrow> (counted k p \<longrightarrow> 0 < rc_count k h p)" by (rule live_def)
  assume ok: "has_kind v k"
  then show v: "from_ptr k (into_ptr v) = v"
    by (rule from_ptr_into_ptr [OF supported])
  assume alive: "live k h (into_ptr v)"
  have "clone_smart v h = Inr (inc_at k (into_ptr v) h)"
    using clone_from_ptr_eq [of k "into_ptr v" h] alive v by simp
  then show "\<exists>h'. clone_smart v h = Inr h' \<and>
      (\<forall>q. rc_count k h' q = rc_count k h q + (if q = into_ptr v \<and> counted k q then 1 else 0))"
    using rc_count_inc_at [OF alive] by blast
  have "drop_smart v h = Inr (dec_at k (into_ptr v) h)"
    using rc_dec_eq [of k "into_ptr v" h] alive v by (simp add: rc_dec_def)
  then show "\<exists>h'. drop_smart v h = Inr h' \<and>
      (\<forall>q. rc_count k h' q + (if q = into_ptr v \<and> counted k q then 1 else 0) = rc_count k h q)"
    using rc_count_dec_at [OF alive] by blast
qed

interpretation arc: supported_kind KArc
  by unfold_locales simp

interpretation rc: supported_kind KRc
  by unfold_locales simp

interpretation pin_arc: supported_kind KPinArc
  by unfold_locales simp

interpretation pin_rc: supported_kind KPinRc
  by unfold_locales simp

interpretation option_arc: supported_kind "KOption KArc"
  by unfold_locales simp

interpretation weak: supported_kind KWeak
  by unfold_locales simp

interpretation rc_weak: supported_kind KRcWeak
  by unfold_locales simp

end
