(* ===== verification/World.thy ===== *)
theory World
  imports Ref_Cnt
begin

text \<open>
  The shared memory the code works on: the structures of the debt module (debt/mod.rs, debt/fast.rs,
  debt/helping.rs, debt/list.rs), the thread-local data, the \<open>AtomicPtr\<close> cells of the storages, and
  the atomic operations on them. A world is what one thread sees when it runs without being
  interrupted; the other threads may be stopped anywhere in their own operations.
\<close>

section \<open>Constants\<close>

definition debt_none :: usize where "debt_none = 3"

definition DEBT_SLOT_CNT :: nat where "DEBT_SLOT_CNT = 8"

definition REPLACEMENT_TAG :: usize where "REPLACEMENT_TAG = 1"

definition GEN_TAG :: usize where "GEN_TAG = 2"

definition TAG_MASK :: usize where "TAG_MASK = 3"

definition IDLE :: usize where "IDLE = 0"

definition NODE_UNUSED :: usize where "NODE_UNUSED = 0"

definition NODE_USED :: usize where "NODE_USED = 1"

definition NODE_COOLDOWN :: usize where "NODE_COOLDOWN = 2"

lemmas tag_defs = REPLACEMENT_TAG_def GEN_TAG_def TAG_MASK_def IDLE_def

lemmas in_use_defs = NODE_UNUSED_def NODE_USED_def NODE_COOLDOWN_def

lemma in_use_distinct [simp]:
  "NODE_UNUSED \<noteq> NODE_USED" "NODE_UNUSED \<noteq> NODE_COOLDOWN" "NODE_USED \<noteq> NODE_COOLDOWN"
  "NODE_USED \<noteq> NODE_UNUSED" "NODE_COOLDOWN \<noteq> NODE_UNUSED" "NODE_COOLDOWN \<noteq> NODE_USED"
  by (simp_all add: in_use_defs)

section \<open>Structures\<close>

text \<open>
  \<open>fast::Slots\<close> is an array of debts, a \<open>Debt\<close> is one word. The envelope \<open>handover\<close> of
  \<open>helping::Slots\<close> lives in the memory \<open>handover\<close> of the world, at the address the allocator gave
  to it, because other nodes point to it.
\<close>

type_synonym fast_slots = "usize list"

record fast_local =
  offset :: nat

record helping_local =
  generation :: usize

record helping_slots =
  control :: usize
  slot :: usize
  active_addr :: usize
  space_offer :: usize

record node =
  fast :: fast_slots
  helping :: helping_slots
  in_use :: usize
  next_node :: "nid option"
  active_writers :: usize

record local_node =
  ln_node :: "nid option"
  ln_fast :: fast_local
  ln_helping :: helping_local

text \<open>A \<open>LocalNode\<close> is the thread-local one of a thread or a temporary one made at its shutdown.\<close>

datatype lid = Thread tid | Temp nat

text \<open>A \<open>&'static Debt\<close>: a fast slot of a node or its helping slot.\<close>

datatype slot_ref = FastSlot nid nat | HelpSlot nid

record rwlock =
  readers :: nat
  writing :: bool

text \<open>
  \<open>nodes\<close> are the leaked boxes in the order of their allocation, \<open>list_head\<close> is \<open>LIST_HEAD\<close>.
  \<open>place\<close> is the address the allocator gives to the envelope of each node and \<open>spurious\<close> the
  outcomes of the coming weak compare-exchanges (\<open>True\<close> is a spurious failure): both are decided
  outside of the program. \<open>tls_gone\<close> tells whether the thread-local storage of a thread is
  already destroyed.
\<close>

record 'v world =
  heap :: "'v heap"
  storage :: "usize \<Rightarrow> usize option"
  nodes :: "node list"
  list_head :: "nid option"
  handover :: "usize \<Rightarrow> usize"
  locals :: "lid \<Rightarrow> local_node"
  tls_gone :: "tid \<Rightarrow> bool"
  temps :: nat
  rwlocks :: "usize \<Rightarrow> rwlock"
  place :: "nid \<Rightarrow> usize"
  spurious :: "bool list"

section \<open>Default values\<close>

definition fast_slots_default :: fast_slots where
  "fast_slots_default = replicate DEBT_SLOT_CNT debt_none"

definition helping_slots_default :: helping_slots where
  "helping_slots_default =
     \<lparr>control = IDLE, slot = debt_none, active_addr = 0, space_offer = 0\<rparr>"

definition node_default :: node where
  "node_default =
     \<lparr>fast = fast_slots_default, helping = helping_slots_default, in_use = NODE_USED,
      next_node = None, active_writers = 0\<rparr>"

definition local_default :: local_node where
  "local_default =
     \<lparr>ln_node = None, ln_fast = \<lparr>offset = 0\<rparr>, ln_helping = \<lparr>generation = 0\<rparr>\<rparr>"

text \<open>The world at program start: nothing allocated, no node, fresh thread-locals.\<close>

definition start_world :: "(nid \<Rightarrow> usize) \<Rightarrow> bool list \<Rightarrow> 'v world" where
  "start_world pl sp =
     \<lparr>heap = (\<lambda>_. None), storage = (\<lambda>_. None), nodes = [], list_head = None,
      handover = (\<lambda>_. 0), locals = (\<lambda>_. local_default), tls_gone = (\<lambda>_. False), temps = 0,
      rwlocks = (\<lambda>_. \<lparr>readers = 0, writing = False\<rparr>), place = pl, spurious = sp\<rparr>"

section \<open>Access to nodes, locals, slots\<close>

definition upd_node :: "nid \<Rightarrow> (node \<Rightarrow> node) \<Rightarrow> 'v world \<Rightarrow> 'v world" where
  "upd_node n f w = w\<lparr>nodes := (nodes w)[n := f (nodes w ! n)]\<rparr>"

definition upd_helping :: "nid \<Rightarrow> (helping_slots \<Rightarrow> helping_slots) \<Rightarrow> 'v world \<Rightarrow> 'v world" where
  "upd_helping n f = upd_node n (\<lambda>nd. nd\<lparr>helping := f (helping nd)\<rparr>)"

definition upd_local :: "lid \<Rightarrow> (local_node \<Rightarrow> local_node) \<Rightarrow> 'v world \<Rightarrow> 'v world" where
  "upd_local l f w = w\<lparr>locals := (locals w)(l := f (locals w l))\<rparr>"

fun read_slot :: "slot_ref \<Rightarrow> 'v world \<Rightarrow> usize" where
  "read_slot (FastSlot n i) w = fast (nodes w ! n) ! i"
| "read_slot (HelpSlot n) w = slot (helping (nodes w ! n))"

fun write_slot :: "slot_ref \<Rightarrow> usize \<Rightarrow> 'v world \<Rightarrow> 'v world" where
  "write_slot (FastSlot n i) x = upd_node n (\<lambda>nd. nd\<lparr>fast := (fast nd)[i := x]\<rparr>)"
| "write_slot (HelpSlot n) x = upd_helping n (\<lambda>hs. hs\<lparr>slot := x\<rparr>)"

definition slot_ok :: "'v world \<Rightarrow> slot_ref \<Rightarrow> bool" where
  "slot_ok w s = (case s of
      FastSlot n i \<Rightarrow> n < length (nodes w) \<and> i < length (fast (nodes w ! n))
    | HelpSlot n \<Rightarrow> n < length (nodes w))"

section \<open>Reference counts as operations on the world\<close>

definition heap_op :: "('v heap \<Rightarrow> fault + 'v heap) \<Rightarrow> ('v world, unit) op" where
  "heap_op f = (\<lambda>w. case f (heap w) of Inl e \<Rightarrow> Inl e | Inr h \<Rightarrow> Inr ((), w\<lparr>heap := h\<rparr>))"

definition t_inc :: "smart \<Rightarrow> ('v world, usize) op" where
  "t_inc me = (\<lambda>w. case rc_inc me (heap w) of
      Inl e \<Rightarrow> Inl e | Inr (p, h) \<Rightarrow> Inr (p, w\<lparr>heap := h\<rparr>))"

definition t_dec :: "kind \<Rightarrow> usize \<Rightarrow> ('v world, unit) op" where
  "t_dec k p = heap_op (rc_dec k p)"

definition t_clone :: "smart \<Rightarrow> ('v world, unit) op" where
  "t_clone me = heap_op (clone_smart me)"

definition t_drop :: "smart \<Rightarrow> ('v world, unit) op" where
  "t_drop me = heap_op (drop_smart me)"

section \<open>The AtomicPtr of a storage\<close>

definition ptr_load :: "usize \<Rightarrow> ('v world, usize) op" where
  "ptr_load a = bnd (gets (\<lambda>w. storage w a)) (unwrap (Bad_Pointer a))"

definition ptr_store :: "usize \<Rightarrow> usize \<Rightarrow> ('v world, unit) op" where
  "ptr_store a p = modify (\<lambda>w. w\<lparr>storage := (storage w)(a := Some p)\<rparr>)"

definition ptr_swap :: "usize \<Rightarrow> usize \<Rightarrow> ('v world, usize) op" where
  "ptr_swap a p = bnd (ptr_load a) (\<lambda>old. bnd (ptr_store a p) (\<lambda>_. ret old))"

text \<open>\<open>compare_exchange\<close>: the value found, and whether it was replaced.\<close>

definition ptr_cas :: "usize \<Rightarrow> usize \<Rightarrow> usize \<Rightarrow> ('v world, bool \<times> usize) op" where
  "ptr_cas a cur new = bnd (ptr_load a) (\<lambda>old.
     if old = cur then bnd (ptr_store a new) (\<lambda>_. ret (True, old)) else ret (False, old))"

text \<open>The outcome of a weak compare-exchange that could succeed: \<open>True\<close> when it fails spuriously.\<close>

definition fails_spuriously :: "('v world, bool) op" where
  "fails_spuriously = (\<lambda>w. case spurious w of
      [] \<Rightarrow> Inr (False, w) | b # bs \<Rightarrow> Inr (b, w\<lparr>spurious := bs\<rparr>))"

definition ptr_cas_weak :: "usize \<Rightarrow> usize \<Rightarrow> usize \<Rightarrow> ('v world, bool \<times> usize) op" where
  "ptr_cas_weak a cur new = bnd fails_spuriously (\<lambda>f.
     if f then bnd (ptr_load a) (\<lambda>old. ret (False, old)) else ptr_cas a cur new)"

section \<open>What is owed and what is on its way\<close>

definition node_slots :: "node \<Rightarrow> usize list" where
  "node_slots nd = fast nd @ [slot (helping nd)]"

definition node_owed :: "usize \<Rightarrow> node \<Rightarrow> nat" where
  "node_owed p nd = count_list (node_slots nd) p"

text \<open>The number of debt slots of the whole list that hold the pointer.\<close>

definition owed :: "'v world \<Rightarrow> usize \<Rightarrow> nat" where
  "owed w p = sum_list (map (node_owed p) (nodes w))"

text \<open>Whether a control word carries an envelope, and which.\<close>

definition is_replacement :: "usize \<Rightarrow> bool" where
  "is_replacement c \<longleftrightarrow> c AND TAG_MASK = REPLACEMENT_TAG"

definition envelope :: "usize \<Rightarrow> usize" where
  "envelope c = c AND NOT TAG_MASK"

definition node_mailed :: "(usize \<Rightarrow> usize) \<Rightarrow> usize \<Rightarrow> node \<Rightarrow> nat" where
  "node_mailed ho p nd =
     (if is_replacement (control (helping nd)) \<and> ho (envelope (control (helping nd))) = p
      then 1 else 0)"

text \<open>The number of references to the pointer that sit in an envelope a reader has not opened yet.\<close>

definition mailed :: "'v world \<Rightarrow> usize \<Rightarrow> nat" where
  "mailed w p = sum_list (map (node_mailed (handover w) p) (nodes w))"

text \<open>
  The ledger of a pointer: the references counted in the heap and the ones still owed, without those
  under way in an envelope. It is the number of references the storages and the users of the
  crate hold, guards included, whether their reference is counted or owed.
\<close>

definition ledger :: "kind \<Rightarrow> 'v world \<Rightarrow> usize \<Rightarrow> int" where
  "ledger k w p = int (rc_count k (heap w) p) + int (owed w p) - int (mailed w p)"

section \<open>Tags\<close>

text \<open>
  A control word is idle, a generation or an envelope, told apart by its two lowest bits; both a
  generation counter that is a multiple of four and the address of an envelope leave them free.
\<close>

lemma and_3: "(x::usize) AND 3 = take_bit 2 x"
proof -
  have "(3::usize) = mask 2" by (simp add: mask_eq_exp_minus_1)
  then show ?thesis by (simp add: take_bit_eq_mask)
qed

lemma tag_add_4 [simp]: "((x::usize) + 4) AND 3 = x AND 3"
proof -
  have "take_bit 2 (x + 4) = take_bit 2 x"
    by transfer (simp add: take_bit_eq_mod)
  then show ?thesis by (simp add: and_3)
qed

lemma tag_or_gen: "(x::usize) AND 3 = 0 \<Longrightarrow> (x OR 2) AND 3 = 2"
  by (simp add: bit.conj_disj_distrib2)

lemma tag_or_replacement: "(x::usize) AND 3 = 0 \<Longrightarrow> (x OR 1) AND 3 = 1"
  by (simp add: bit.conj_disj_distrib2)

lemma untag: "(x::usize) AND 3 = 0 \<Longrightarrow> x AND NOT 3 = x"
proof -
  assume a: "x AND 3 = 0"
  have "x = x AND (3 OR NOT 3)" by simp
  also have "\<dots> = (x AND 3) OR (x AND NOT 3)" by (simp only: bit.conj_disj_distrib)
  finally show ?thesis using a by simp
qed

lemma envelope_tagged: "(x::usize) AND 3 = 0 \<Longrightarrow> (x OR 1) AND NOT 3 = x"
  using untag [of x] by (simp add: bit.conj_disj_distrib2)

lemma tag_and_2: "(x::usize) AND 3 = 0 \<Longrightarrow> x AND 2 = 0"
proof -
  assume a: "x AND 3 = 0"
  have "(2::usize) = 3 AND 2" by simp
  then have "x AND 2 = (x AND 3) AND 2" by (simp add: and.assoc)
  then show ?thesis using a by simp
qed

lemma gen_tagged_inj:
  assumes "(x::usize) AND 3 = 0" and "y AND 3 = 0" and "x OR 2 = y OR 2"
  shows "x = y"
proof -
  have "(x OR 2) AND NOT 3 = x" and "(y OR 2) AND NOT 3 = y"
    using assms(1,2) untag [of x] untag [of y] by (simp_all add: bit.conj_disj_distrib2)
  then show ?thesis using assms(3) by metis
qed

lemma gen_not_idle: "(x::usize) OR 2 \<noteq> 0"
proof
  assume "x OR 2 = 0"
  then have "(x OR 2) AND 2 = 0" by simp
  then show False by (simp add: bit.conj_disj_distrib2)
qed

section \<open>How a change of one node shows in the ledger\<close>

text \<open>Updates of different fields in one order: heap, storage, nodes, envelopes, locals.\<close>

lemma world_order:
  "heap_update f (nodes_update g w) = nodes_update g (heap_update f w)"
  "heap_update f (locals_update h w) = locals_update h (heap_update f w)"
  "heap_update f (handover_update e w) = handover_update e (heap_update f w)"
  "heap_update f (storage_update s w) = storage_update s (heap_update f w)"
  "storage_update s (nodes_update g w) = nodes_update g (storage_update s w)"
  "storage_update s (locals_update h w) = locals_update h (storage_update s w)"
  "storage_update s (handover_update e w) = handover_update e (storage_update s w)"
  "nodes_update g (handover_update e w) = handover_update e (nodes_update g w)"
  "nodes_update g (locals_update h w) = locals_update h (nodes_update g w)"
  "handover_update e (locals_update h w) = locals_update h (handover_update e w)"
  by simp_all

lemma nodes_upd_node [simp]: "nodes (upd_node n f w) = (nodes w)[n := f (nodes w ! n)]"
  by (simp add: upd_node_def)

lemma upd_node_frame [simp]:
  "heap (upd_node n f w) = heap w" "storage (upd_node n f w) = storage w"
  "list_head (upd_node n f w) = list_head w" "handover (upd_node n f w) = handover w"
  "locals (upd_node n f w) = locals w" "tls_gone (upd_node n f w) = tls_gone w"
  "temps (upd_node n f w) = temps w" "rwlocks (upd_node n f w) = rwlocks w"
  "place (upd_node n f w) = place w" "spurious (upd_node n f w) = spurious w"
  by (simp_all add: upd_node_def)

lemma upd_helping_frame [simp]:
  "heap (upd_helping n f w) = heap w" "storage (upd_helping n f w) = storage w"
  "list_head (upd_helping n f w) = list_head w" "handover (upd_helping n f w) = handover w"
  "locals (upd_helping n f w) = locals w" "tls_gone (upd_helping n f w) = tls_gone w"
  "temps (upd_helping n f w) = temps w" "rwlocks (upd_helping n f w) = rwlocks w"
  "place (upd_helping n f w) = place w" "spurious (upd_helping n f w) = spurious w"
  by (simp_all add: upd_helping_def)

lemma upd_local_frame [simp]:
  "heap (upd_local l f w) = heap w" "storage (upd_local l f w) = storage w"
  "nodes (upd_local l f w) = nodes w"
  "list_head (upd_local l f w) = list_head w" "handover (upd_local l f w) = handover w"
  "locals (upd_local l f w) = (locals w)(l := f (locals w l))" "tls_gone (upd_local l f w) = tls_gone w"
  "temps (upd_local l f w) = temps w" "rwlocks (upd_local l f w) = rwlocks w"
  "place (upd_local l f w) = place w" "spurious (upd_local l f w) = spurious w"
  by (simp_all add: upd_local_def)

lemma owed_upd_node:
  "n < length (nodes w) \<Longrightarrow>
   int (owed (upd_node n f w) p)
     = int (owed w p) + int (node_owed p (f (nodes w ! n))) - int (node_owed p (nodes w ! n))"
  by (simp add: owed_def sum_list_map_update_int)

lemma mailed_upd_node:
  "n < length (nodes w) \<Longrightarrow>
   int (mailed (upd_node n f w) p)
     = int (mailed w p) + int (node_mailed (handover w) p (f (nodes w ! n)))
       - int (node_mailed (handover w) p (nodes w ! n))"
  by (simp add: mailed_def sum_list_map_update_int)

lemma owed_cong: "nodes w' = nodes w \<Longrightarrow> owed w' p = owed w p"
  by (simp add: owed_def)

lemma mailed_cong: "nodes w' = nodes w \<Longrightarrow> handover w' = handover w \<Longrightarrow> mailed w' p = mailed w p"
  by (simp add: mailed_def)

lemma ledger_cong:
  "nodes w' = nodes w \<Longrightarrow> handover w' = handover w \<Longrightarrow> heap w' = heap w \<Longrightarrow>
   ledger k w' p = ledger k w p"
  by (simp add: ledger_def owed_cong [of w' w] mailed_cong [of w' w])

lemma wp_t_inc [wp_rules]:
  "wp (t_inc (from_ptr k p)) Q w
     \<longleftrightarrow> live k (heap w) p \<and> Q p (w\<lparr>heap := inc_at k p (heap w)\<rparr>)"
  by (simp add: wp_def t_inc_def rc_inc_eq)

lemma wp_t_dec [wp_rules]:
  "wp (t_dec k p) Q w \<longleftrightarrow> live k (heap w) p \<and> Q () (w\<lparr>heap := dec_at k p (heap w)\<rparr>)"
  by (simp add: wp_def t_dec_def heap_op_def rc_dec_eq)

lemma wp_t_drop [wp_rules]:
  "wp (t_drop (from_ptr k p)) Q w
     \<longleftrightarrow> live k (heap w) p \<and> Q () (w\<lparr>heap := dec_at k p (heap w)\<rparr>)"
  using rc_dec_eq [of k p "heap w"] by (simp add: wp_def t_drop_def heap_op_def rc_dec_def)

lemma wp_ptr_load [wp_rules]:
  "wp (ptr_load a) Q w \<longleftrightarrow> (\<exists>p. storage w a = Some p \<and> Q p w)"
  by (auto simp: ptr_load_def split: option.splits)

lemma wp_ptr_store [wp_rules]:
  "wp (ptr_store a p) Q w \<longleftrightarrow> Q () (w\<lparr>storage := (storage w)(a := Some p)\<rparr>)"
  by (simp add: ptr_store_def)

lemma wp_ptr_swap [wp_rules]:
  "wp (ptr_swap a p) Q w
     \<longleftrightarrow> (\<exists>old. storage w a = Some old \<and> Q old (w\<lparr>storage := (storage w)(a := Some p)\<rparr>))"
  by (auto simp: ptr_swap_def wp_ptr_load wp_ptr_store)

end
