(* ===== verification/Fast.thy ===== *)
theory Fast
  imports World
begin

text \<open>
  The fast debt slots (debt/fast.rs): allocation of a slot in round-robin order by the thread that
  owns the node.
\<close>

section \<open>Allocating a slot\<close>

text \<open>
  The loop of \<open>get_debt\<close> over the remaining values of \<open>i\<close>: the slot it takes and the array with the
  pointer swapped in, or nothing when every slot is taken.
\<close>

fun fast_scan :: "usize \<Rightarrow> nat \<Rightarrow> nat list \<Rightarrow> fast_slots \<Rightarrow> (nat \<times> fast_slots) option" where
  "fast_scan ptr off [] slots = None"
| "fast_scan ptr off (i # is) slots =
     (let j = (i + off) mod length slots in
      if slots ! j = debt_none then Some (j, slots[j := ptr])
      else fast_scan ptr off is slots)"

definition fast_get_debt ::
  "usize \<Rightarrow> fast_slots \<Rightarrow> fast_local \<Rightarrow> nat option \<times> fast_slots \<times> fast_local" where
  "fast_get_debt ptr slots l =
     (case fast_scan ptr (offset l) [0..<length slots] slots of
        None \<Rightarrow> (None, slots, l)
      | Some (j, slots') \<Rightarrow> (Some j, slots', l\<lparr>offset := j + 1\<rparr>))"

section \<open>Properties\<close>

lemma fast_scan_None:
  "fast_scan ptr off is slots = None \<longleftrightarrow> (\<forall>i\<in>set is. slots ! ((i + off) mod length slots) \<noteq> debt_none)"
  by (induction "is") (auto simp: Let_def)

lemma fast_scan_Some:
  "fast_scan ptr off is slots = Some (j, slots') \<Longrightarrow>
     slots ! j = debt_none \<and> slots' = slots[j := ptr] \<and> (\<exists>i\<in>set is. j = (i + off) mod length slots)"
  by (induction "is") (auto simp: Let_def split: if_splits)

lemma rotation_surj:
  assumes "j < n"
  shows "\<exists>i<n. (i + off) mod n = (j::nat)"
proof -
  let ?o = "off mod n"
  let ?i = "(j + (n - ?o)) mod n"
  have n: "0 < n" and o: "?o < n" using assms by auto
  have "(?i + off) mod n = (j + (n - ?o) + ?o) mod n"
    by (metis mod_add_left_eq mod_add_right_eq)
  also have "j + (n - ?o) + ?o = j + n" using o by simp
  finally have "(?i + off) mod n = j" using assms by simp
  then show ?thesis using n by (intro exI [of _ ?i]) simp
qed

lemma rotation_all:
  "(\<forall>i\<in>set [0..<n]. P ((i + off) mod n)) \<longleftrightarrow> (\<forall>j<n. P (j::nat))"
proof
  assume l: "\<forall>i\<in>set [0..<n]. P ((i + off) mod n)"
  show "\<forall>j<n. P j"
  proof (intro allI impI)
    fix j assume "j < n"
    then obtain i where "i < n" and "(i + off) mod n = j" using rotation_surj by blast
    with l show "P j" by auto
  qed
next
  assume "\<forall>j<n. P j"
  then show "\<forall>i\<in>set [0..<n]. P ((i + off) mod n)" by auto
qed

text \<open>The allocation fails exactly when every slot is taken.\<close>

lemma fast_get_debt_None:
  "fst (fast_get_debt ptr slots l) = None \<longleftrightarrow> (\<forall>j<length slots. slots ! j \<noteq> debt_none)"
  using fast_scan_None [of ptr "offset l" "[0..<length slots]" slots]
    rotation_all [of "length slots" "\<lambda>j. slots ! j \<noteq> debt_none" "offset l"]
  by (auto simp: fast_get_debt_def split: option.splits)

lemma fast_get_debt_Some:
  assumes "fast_get_debt ptr slots l = (Some j, slots', l')"
  shows "j < length slots" and "slots ! j = debt_none" and "slots' = slots[j := ptr]"
    and "l' = l\<lparr>offset := j + 1\<rparr>"
  using assms
  by (auto simp: fast_get_debt_def split: option.splits dest!: fast_scan_Some
      intro!: mod_less_divisor)

lemma fast_get_debt_unchanged:
  assumes "fast_get_debt ptr slots l = (None, slots', l')"
  shows "slots' = slots" and "l' = l"
  using assms by (auto simp: fast_get_debt_def split: option.splits)

end
