(* ===== verification/Helping.thy ===== *)
theory Helping
  imports World
begin

text \<open>
  The helping slots (debt/helping.rs): a reader publishes the address it is going to load from and a
  generation, a writer that finds them hands over an already protected pointer in an envelope, the
  reader confirms or takes the envelope.
\<close>

section \<open>The reader\<close>

text \<open>
  \<open>Slots::get_debt\<close>: the generation with its tag, and whether the counter of the thread wrapped
  around. The slots and the thread-local data are changed in place.
\<close>

definition helping_get_debt ::
  "usize \<Rightarrow> helping_slots \<Rightarrow> helping_local \<Rightarrow>
   fault + ((usize \<times> bool) \<times> helping_slots \<times> helping_local)" where
  "helping_get_debt ptr hs l =
     (let g = generation l + 4 in
      if g AND GEN_TAG \<noteq> 0 then Inl Debug_Assert else
      let l' = l\<lparr>generation := g\<rparr>;
          discard = (g = 0);
          gen = g OR GEN_TAG;
          hs1 = hs\<lparr>active_addr := ptr\<rparr>;
          prev = control hs1;
          hs2 = hs1\<lparr>control := gen\<rparr>
      in if prev \<noteq> IDLE then Inl Debug_Assert
         else Inr ((gen, discard), hs2, l'))"

text \<open>\<open>Slots::init\<close>: the slots own their envelope once they are in place.\<close>

definition helping_init :: "usize \<Rightarrow> helping_slots \<Rightarrow> helping_slots" where
  "helping_init own hs = hs\<lparr>space_offer := own\<rparr>"

text \<open>
  \<open>Slots::confirm\<close>: puts the debt in place and takes the control back. \<open>Inl\<close> is the replacement
  (\<open>Err\<close> in the code), \<open>Inr\<close> the confirmation.
\<close>

definition helping_confirm ::
  "nid \<Rightarrow> usize \<Rightarrow> usize \<Rightarrow> ('v world, usize + unit) op" where
  "helping_confirm n gen ptr =
     bnd (gets (\<lambda>w. slot (helping (nodes w ! n)))) (\<lambda>prev.
     bnd (modify (upd_helping n (\<lambda>hs. hs\<lparr>slot := ptr\<rparr>))) (\<lambda>_.
     bnd (require Debug_Assert (prev = debt_none)) (\<lambda>_.
     bnd (gets (\<lambda>w. control (helping (nodes w ! n)))) (\<lambda>c.
     bnd (modify (upd_helping n (\<lambda>hs. hs\<lparr>control := IDLE\<rparr>))) (\<lambda>_.
     if c = gen then ret (Inr ())
     else
       bnd (require Debug_Assert (c AND TAG_MASK = REPLACEMENT_TAG)) (\<lambda>_.
       let h = c AND NOT TAG_MASK in
       bnd (gets (\<lambda>w. handover w h)) (\<lambda>replacement.
       bnd (modify (upd_helping n (\<lambda>hs. hs\<lparr>space_offer := h\<rparr>))) (\<lambda>_.
       ret (Inl replacement)))))))))"

section \<open>The writer\<close>

text \<open>
  \<open>Slots::help\<close>: the loop, entered with a control word read from \<open>who\<close>. \<open>self\<close> is the node of
  the writer; \<open>replacement\<close> performs the full load. A run without interference needs one round.
\<close>

fun help_loop ::
  "nat \<Rightarrow> nid \<Rightarrow> nid \<Rightarrow> usize \<Rightarrow> ('v world, smart) op \<Rightarrow> usize \<Rightarrow> ('v world, unit) op" where
  "help_loop 0 self who storage_addr replacement c = raise Out_Of_Fuel"
| "help_loop (Suc fuel) self who storage_addr replacement c =
    (if c AND TAG_MASK = IDLE \<and> c = IDLE then ret ()
     else if c AND TAG_MASK = REPLACEMENT_TAG then ret ()
     else if c AND TAG_MASK = GEN_TAG then
       bnd (require Debug_Assert (self \<noteq> who)) (\<lambda>_.
       bnd (gets (\<lambda>w. active_addr (helping (nodes w ! who)))) (\<lambda>addr.
       if addr \<noteq> storage_addr then
         bnd (gets (\<lambda>w. control (helping (nodes w ! who)))) (\<lambda>new_control.
         if new_control = c then ret ()
         else help_loop fuel self who storage_addr replacement new_control)
       else
         bnd replacement (\<lambda>r.
         let replace_addr = as_ptr r in
         bnd (gets (\<lambda>w. space_offer (helping (nodes w ! who)))) (\<lambda>their_space.
         bnd (gets (\<lambda>w. space_offer (helping (nodes w ! self)))) (\<lambda>my_space.
         bnd (require (Bad_Pointer my_space) (my_space \<noteq> 0)) (\<lambda>_.
         bnd (modify (\<lambda>w. w\<lparr>handover := (handover w)(my_space := replace_addr)\<rparr>)) (\<lambda>_.
         bnd (require Assert_Failed (my_space AND TAG_MASK = 0)) (\<lambda>_.
         let space_addr = my_space OR REPLACEMENT_TAG in
         bnd (gets (\<lambda>w. control (helping (nodes w ! who)))) (\<lambda>cur.
         if cur = c then
           bnd (modify (upd_helping who (\<lambda>hs. hs\<lparr>control := space_addr\<rparr>))) (\<lambda>_.
           modify (upd_helping self (\<lambda>hs. hs\<lparr>space_offer := their_space\<rparr>)))
         else
           bnd (t_drop r) (\<lambda>_.
           help_loop fuel self who storage_addr replacement cur))))))))))
     else raise (Unreachable c))"

definition help_rounds :: nat where "help_rounds = 2"

definition helping_help ::
  "nid \<Rightarrow> nid \<Rightarrow> usize \<Rightarrow> ('v world, smart) op \<Rightarrow> ('v world, unit) op" where
  "helping_help self who storage_addr replacement =
     bnd (gets (\<lambda>w. control (helping (nodes w ! self)))) (\<lambda>mine.
     bnd (require Debug_Assert (mine = IDLE)) (\<lambda>_.
     bnd (gets (\<lambda>w. control (helping (nodes w ! who)))) (\<lambda>c.
     help_loop help_rounds self who storage_addr replacement c)))"

end
