(* ===== verification/Node_List.thy ===== *)
theory Node_List
  imports Fast Helping
begin

text \<open>
  The linked list of debt nodes and the thread-local handle on a node (debt/list.rs): traversal,
  reservation by writers, cooldown, claiming or creating a node, and the operations of \<open>LocalNode\<close>.
\<close>

section \<open>The list of nodes\<close>

text \<open>\<open>Node::traverse\<close>: the loop, entered with the current node. The chain is not longer than the nodes.\<close>

fun traverse_from ::
  "nat \<Rightarrow> (nid \<Rightarrow> ('v world, 'r option) op) \<Rightarrow> nid option \<Rightarrow> ('v world, 'r option) op" where
  "traverse_from fuel f None = ret None"
| "traverse_from 0 f (Some n) = raise Out_Of_Fuel"
| "traverse_from (Suc fuel) f (Some n) =
     bnd (f n) (\<lambda>result. case result of
       Some r \<Rightarrow> ret (Some r)
     | None \<Rightarrow> bnd (gets (\<lambda>w. next_node (nodes w ! n))) (traverse_from fuel f))"

definition traverse :: "(nid \<Rightarrow> ('v world, 'r option) op) \<Rightarrow> ('v world, 'r option) op" where
  "traverse f = bnd (gets (\<lambda>w. (list_head w, length (nodes w)))) (\<lambda>(head, len).
     traverse_from len f head)"

definition reserve_writer :: "nid \<Rightarrow> ('v world, unit) op" where
  "reserve_writer n = modify (upd_node n (\<lambda>nd. nd\<lparr>active_writers := active_writers nd + 1\<rparr>))"

text \<open>\<open>Drop\<close> of a \<open>NodeReservation\<close>.\<close>

definition release_writer :: "nid \<Rightarrow> ('v world, unit) op" where
  "release_writer n = modify (upd_node n (\<lambda>nd. nd\<lparr>active_writers := active_writers nd - 1\<rparr>))"

definition start_cooldown :: "nid \<Rightarrow> ('v world, unit) op" where
  "start_cooldown n =
     bnd (reserve_writer n) (\<lambda>_.
     bnd (gets (\<lambda>w. in_use (nodes w ! n))) (\<lambda>prev.
     bnd (modify (upd_node n (\<lambda>nd. nd\<lparr>in_use := NODE_COOLDOWN\<rparr>))) (\<lambda>_.
     bnd (require Assert_Failed (NODE_USED = prev)) (\<lambda>_.
     release_writer n))))"

definition check_cooldown :: "nid \<Rightarrow> ('v world, unit) op" where
  "check_cooldown n =
     bnd (gets (\<lambda>w. in_use (nodes w ! n))) (\<lambda>u.
     if u = NODE_COOLDOWN then
       bnd (gets (\<lambda>w. active_writers (nodes w ! n))) (\<lambda>a.
       if a = 0 then
         modify (upd_node n (\<lambda>nd. if in_use nd = NODE_COOLDOWN
                                     then nd\<lparr>in_use := NODE_UNUSED\<rparr> else nd))
       else ret ())
     else ret ())"

text \<open>The closure \<open>Node::get\<close> passes to \<open>traverse\<close>: cool the node down, then try to claim it.\<close>

definition try_claim :: "nid \<Rightarrow> ('v world, nid option) op" where
  "try_claim n =
     bnd (check_cooldown n) (\<lambda>_.
     bnd (gets (\<lambda>w. in_use (nodes w ! n))) (\<lambda>u.
     if u = NODE_UNUSED then
       bnd (modify (upd_node n (\<lambda>nd. nd\<lparr>in_use := NODE_USED\<rparr>))) (\<lambda>_. ret (Some n))
     else ret None))"

text \<open>The second half of \<open>Node::get\<close>: a new node, leaked, and its initialisation.\<close>

definition alloc_node :: "('v world, nid) op" where
  "alloc_node =
     bnd (gets (\<lambda>w. length (nodes w))) (\<lambda>n.
     bnd (modify (\<lambda>w. w\<lparr>nodes := nodes w @
            [node_default\<lparr>helping := helping_init (place w n) helping_slots_default\<rparr>],
            handover := (handover w)(place w n := 0)\<rparr>)) (\<lambda>_.
     ret n))"

text \<open>Its loop, entered with the head that was read: link the node in front of the list.\<close>

fun push_node :: "nat \<Rightarrow> nid \<Rightarrow> nid option \<Rightarrow> ('v world, nid) op" where
  "push_node 0 n head = raise Out_Of_Fuel"
| "push_node (Suc fuel) n head =
     bnd (modify (upd_node n (\<lambda>nd. nd\<lparr>next_node := head\<rparr>))) (\<lambda>_.
     bnd fails_spuriously (\<lambda>f.
     bnd (gets list_head) (\<lambda>old.
     if \<not> f \<and> old = head then
       bnd (modify (\<lambda>w. w\<lparr>list_head := Some n\<rparr>)) (\<lambda>_. ret n)
     else push_node fuel n old)))"

definition node_get :: "('v world, nid) op" where
  "node_get =
     bnd (traverse try_claim) (\<lambda>found. case found of
       Some n \<Rightarrow> ret n
     | None \<Rightarrow>
         bnd alloc_node (\<lambda>n.
         bnd (gets (\<lambda>w. (list_head w, length (spurious w)))) (\<lambda>(head, sp).
         push_node (Suc sp) n head)))"

definition all_slots :: "nid \<Rightarrow> 'v world \<Rightarrow> slot_ref list" where
  "all_slots n w = map (FastSlot n) [0..<length (fast (nodes w ! n))] @ [HelpSlot n]"

section \<open>The node of a thread\<close>

definition local_drop :: "lid \<Rightarrow> ('v world, unit) op" where
  "local_drop l =
     bnd (gets (\<lambda>w. ln_node (locals w l))) (\<lambda>own.
     case own of None \<Rightarrow> ret () | Some n \<Rightarrow> start_cooldown n)"

text \<open>The end of a thread: its thread-local node is dropped. A later thread of that number starts afresh.\<close>

definition thread_exit :: "tid \<Rightarrow> ('v world, unit) op" where
  "thread_exit t =
     bnd (local_drop (Thread t)) (\<lambda>_. modify (upd_local (Thread t) (\<lambda>_. local_default)))"

definition ensure_node :: "lid \<Rightarrow> ('v world, unit) op" where
  "ensure_node l =
     bnd (gets (\<lambda>w. ln_node (locals w l))) (\<lambda>own.
     case own of
       None \<Rightarrow> bnd node_get (\<lambda>n. modify (upd_local l (\<lambda>ln. ln\<lparr>ln_node := Some n\<rparr>)))
     | Some n \<Rightarrow> ret ())"

text \<open>
  \<open>LocalNode::with\<close>: the thread-local handle while it exists; a temporary one, dropped afterwards, once
  the thread-local storage is gone.
\<close>

definition local_with :: "tid \<Rightarrow> (lid \<Rightarrow> ('v world, 'r) op) \<Rightarrow> ('v world, 'r) op" where
  "local_with t f =
     bnd (gets (\<lambda>w. tls_gone w t)) (\<lambda>gone.
     if \<not> gone then bnd (ensure_node (Thread t)) (\<lambda>_. f (Thread t))
     else
       bnd node_get (\<lambda>n.
       bnd (gets temps) (\<lambda>i.
       bnd (modify (\<lambda>w. upd_local (Temp i) (\<lambda>_. local_default\<lparr>ln_node := Some n\<rparr>)
                          (w\<lparr>temps := Suc i\<rparr>))) (\<lambda>_.
       bnd (f (Temp i)) (\<lambda>r.
       bnd (local_drop (Temp i)) (\<lambda>_.
       bnd (modify (upd_local (Temp i) (\<lambda>_. local_default))) (\<lambda>_. ret r)))))))"

text \<open>Under \<open>experimental-thread-local\<close> the handle is made on first use and never goes away.\<close>

definition local_with_experimental :: "tid \<Rightarrow> (lid \<Rightarrow> ('v world, 'r) op) \<Rightarrow> ('v world, 'r) op" where
  "local_with_experimental t f = bnd (ensure_node (Thread t)) (\<lambda>_. f (Thread t))"

text \<open>The opening of every method: the node is set and in use.\<close>

definition own_node :: "lid \<Rightarrow> ('v world, nid) op" where
  "own_node l =
     bnd (gets (\<lambda>w. ln_node (locals w l))) (\<lambda>own.
     bnd (unwrap Expect_Failed own) (\<lambda>n.
     bnd (gets (\<lambda>w. in_use (nodes w ! n))) (\<lambda>u.
     bnd (require Debug_Assert (u = NODE_USED)) (\<lambda>_. ret n))))"

definition new_fast :: "lid \<Rightarrow> usize \<Rightarrow> ('v world, slot_ref option) op" where
  "new_fast l ptr =
     bnd (own_node l) (\<lambda>n.
     bnd (gets (\<lambda>w. fast_get_debt ptr (fast (nodes w ! n)) (ln_fast (locals w l)))) (\<lambda>(r, slots, fl).
     bnd (modify (upd_node n (\<lambda>nd. nd\<lparr>fast := slots\<rparr>))) (\<lambda>_.
     bnd (modify (upd_local l (\<lambda>ln. ln\<lparr>ln_fast := fl\<rparr>))) (\<lambda>_.
     ret (map_option (FastSlot n) r)))))"

definition new_helping :: "lid \<Rightarrow> usize \<Rightarrow> ('v world, usize) op" where
  "new_helping l ptr =
     bnd (own_node l) (\<lambda>n.
     bnd (gets (\<lambda>w. helping_get_debt ptr (helping (nodes w ! n)) (ln_helping (locals w l)))) (\<lambda>r.
     case r of
       Inl e \<Rightarrow> raise e
     | Inr ((gen, discard), hs, hl) \<Rightarrow>
         bnd (modify (upd_helping n (\<lambda>_. hs))) (\<lambda>_.
         bnd (modify (upd_local l (\<lambda>ln. ln\<lparr>ln_helping := hl\<rparr>))) (\<lambda>_.
         bnd (if discard then
                bnd (start_cooldown n) (\<lambda>_.
                modify (upd_local l (\<lambda>ln. ln\<lparr>ln_node := None\<rparr>)))
              else ret ()) (\<lambda>_.
         ret gen)))))"

text \<open>The result is \<open>Inr\<close> of the slot (\<open>Ok\<close>), or \<open>Inl\<close> of the slot and the replacement (\<open>Err\<close>).\<close>

definition confirm_helping ::
  "lid \<Rightarrow> usize \<Rightarrow> usize \<Rightarrow> ('v world, (slot_ref \<times> usize) + slot_ref) op" where
  "confirm_helping l gen ptr =
     bnd (own_node l) (\<lambda>n.
     bnd (helping_confirm n gen ptr) (\<lambda>r.
     ret (case r of Inr _ \<Rightarrow> Inr (HelpSlot n) | Inl repl \<Rightarrow> Inl (HelpSlot n, repl))))"

definition local_help ::
  "lid \<Rightarrow> nid \<Rightarrow> usize \<Rightarrow> ('v world, smart) op \<Rightarrow> ('v world, unit) op" where
  "local_help l who storage_addr replacement =
     bnd (own_node l) (\<lambda>n. helping_help n who storage_addr replacement)"

section \<open>Well-formed worlds\<close>

text \<open>
  The list goes from the newest node to the oldest one. Every node has its slots, a control word that is
  idle, a generation or an envelope, and an envelope to offer; a node nobody uses is at rest. The
  envelopes are distributed over the nodes without sharing: a node with an envelope in its
  control word has given its own one away.
\<close>

definition chained :: "'v world \<Rightarrow> bool" where
  "chained w \<longleftrightarrow>
     list_head w = (if nodes w = [] then None else Some (length (nodes w) - 1)) \<and>
     (\<forall>n<length (nodes w). next_node (nodes w ! n) = (if n = 0 then None else Some (n - 1)))"

definition control_ok :: "usize \<Rightarrow> bool" where
  "control_ok c \<longleftrightarrow> c = IDLE \<or> c AND TAG_MASK = GEN_TAG \<or> c AND TAG_MASK = REPLACEMENT_TAG"

definition idle_helping :: "helping_slots \<Rightarrow> bool" where
  "idle_helping hs \<longleftrightarrow> control hs = IDLE \<and> slot hs = debt_none"

definition offer :: "helping_slots \<Rightarrow> usize" where
  "offer hs = (if is_replacement (control hs) then envelope (control hs) else space_offer hs)"

definition node_ok :: "node \<Rightarrow> bool" where
  "node_ok nd \<longleftrightarrow> length (fast nd) = DEBT_SLOT_CNT \<and> control_ok (control (helping nd)) \<and>
     (in_use nd \<noteq> NODE_USED \<longrightarrow> idle_helping (helping nd))"

text \<open>The addresses the allocator gives to envelopes are distinct, aligned and not null.\<close>

definition place_ok :: "(nid \<Rightarrow> usize) \<Rightarrow> nat \<Rightarrow> bool" where
  "place_ok pl N \<longleftrightarrow> inj_on pl {..<N} \<and> (\<forall>n<N. pl n \<noteq> 0 \<and> pl n AND TAG_MASK = 0)"

definition offers_ok :: "'v world \<Rightarrow> bool" where
  "offers_ok w \<longleftrightarrow>
     place_ok (place w) (length (nodes w)) \<and>
     distinct (map (offer \<circ> helping) (nodes w)) \<and>
     (\<forall>nd\<in>set (nodes w). offer (helping nd) \<in> place w ` {..<length (nodes w)})"

definition locals_ok :: "'v world \<Rightarrow> bool" where
  "locals_ok w \<longleftrightarrow>
     (\<forall>l n. ln_node (locals w l) = Some n \<longrightarrow>
        n < length (nodes w) \<and> in_use (nodes w ! n) = NODE_USED) \<and>
     (\<forall>l l' n. ln_node (locals w l) = Some n \<and> ln_node (locals w l') = Some n \<longrightarrow> l = l') \<and>
     (\<forall>l. generation (ln_helping (locals w l)) AND TAG_MASK = 0) \<and>
     (\<forall>i\<ge>temps w. ln_node (locals w (Temp i)) = None)"

definition wf_world :: "'v world \<Rightarrow> bool" where
  "wf_world w \<longleftrightarrow> chained w \<and> (\<forall>nd\<in>set (nodes w). node_ok nd) \<and> offers_ok w \<and> locals_ok w"

text \<open>A local node that is not in the middle of a transaction.\<close>

definition at_rest :: "lid \<Rightarrow> 'v world \<Rightarrow> bool" where
  "at_rest l w \<longleftrightarrow> (\<forall>n. ln_node (locals w l) = Some n \<longrightarrow> idle_helping (helping (nodes w ! n)))"

text \<open>The counter of the thread has room for \<open>c\<close> more generations before it wraps around.\<close>

definition room :: "lid \<Rightarrow> nat \<Rightarrow> 'v world \<Rightarrow> bool" where
  "room l c w \<longleftrightarrow> unat (generation (ln_helping (locals w l))) + 4 * c < 2 ^ 64"

lemma room_mono: "room l c w \<Longrightarrow> c' \<le> c \<Longrightarrow> room l c' w"
  by (simp add: room_def)

lemma gen_fresh:
  assumes "room l (Suc c) w"
  shows "generation (ln_helping (locals w l)) + 4 \<noteq> 0"
    and "unat (generation (ln_helping (locals w l)) + 4) = unat (generation (ln_helping (locals w l))) + 4"
proof -
  show u: "unat (generation (ln_helping (locals w l)) + 4) = unat (generation (ln_helping (locals w l))) + 4"
    using assms by (simp add: room_def unat_word_ariths)
  then show "generation (ln_helping (locals w l)) + 4 \<noteq> 0"
    by (metis add_is_0 unat_0 zero_neq_numeral)
qed

lemma wf_nodeD: "wf_world w \<Longrightarrow> n < length (nodes w) \<Longrightarrow> node_ok (nodes w ! n)"
  by (simp add: wf_world_def)

lemma wf_ownD:
  "wf_world w \<Longrightarrow> ln_node (locals w l) = Some n \<Longrightarrow>
   n < length (nodes w) \<and> in_use (nodes w ! n) = NODE_USED"
  by (simp add: wf_world_def locals_ok_def)

section \<open>Traversal\<close>

lemma traverse_from_wp:
  assumes step: "\<And>i u. i < m \<Longrightarrow> I (Suc i) u \<Longrightarrow>
      wp (f i) (\<lambda>r u'. case r of
          Some x \<Rightarrow> Q x u'
        | None \<Rightarrow> I i u' \<and> next_node (nodes u' ! i) = (if i = 0 then None else Some (i - 1))) u"
  shows "n \<le> m \<Longrightarrow> n \<le> fuel \<Longrightarrow> I n u \<Longrightarrow>
    wp (traverse_from fuel f (if n = 0 then None else Some (n - 1)))
       (\<lambda>r u'. case r of Some x \<Rightarrow> Q x u' | None \<Rightarrow> I 0 u') u"
proof (induction n arbitrary: fuel u)
  case 0
  then show ?case by simp
next
  case (Suc i)
  then obtain fuel' where fuel: "fuel = Suc fuel'" and i: "i \<le> fuel'" by (cases fuel) auto
  have "wp (f i) (\<lambda>r u'. wp (case r of Some x \<Rightarrow> ret (Some x)
        | None \<Rightarrow> bnd (gets (\<lambda>w. next_node (nodes w ! i))) (traverse_from fuel' f))
        (\<lambda>r u'. case r of Some x \<Rightarrow> Q x u' | None \<Rightarrow> I 0 u') u') u"
  proof (rule wp_mono [OF step])
    show "i < m" and "I (Suc i) u" using Suc.prems by auto
  next
    fix r u'
    assume r: "case r of Some x \<Rightarrow> Q x u'
        | None \<Rightarrow> I i u' \<and> next_node (nodes u' ! i) = (if i = 0 then None else Some (i - 1))"
    show "wp (case r of Some x \<Rightarrow> ret (Some x)
        | None \<Rightarrow> bnd (gets (\<lambda>w. next_node (nodes w ! i))) (traverse_from fuel' f))
        (\<lambda>r u'. case r of Some x \<Rightarrow> Q x u' | None \<Rightarrow> I 0 u') u'"
    proof (cases r)
      case None
      with r have "I i u'" and "next_node (nodes u' ! i) = (if i = 0 then None else Some (i - 1))"
        by auto
      with Suc.IH [of fuel' u'] Suc.prems i None show ?thesis by simp
    next
      case (Some x)
      with r show ?thesis by simp
    qed
  qed
  then show ?case by (simp add: fuel)
qed

lemma traverse_wp:
  assumes "chained w" and "I (length (nodes w)) w"
    and "\<And>i u. i < length (nodes w) \<Longrightarrow> I (Suc i) u \<Longrightarrow>
      wp (f i) (\<lambda>r u'. case r of
          Some x \<Rightarrow> Q x u'
        | None \<Rightarrow> I i u' \<and> next_node (nodes u' ! i) = (if i = 0 then None else Some (i - 1))) u"
  shows "wp (traverse f) (\<lambda>r u'. case r of Some x \<Rightarrow> Q x u' | None \<Rightarrow> I 0 u') w"
proof -
  have "list_head w
      = (if length (nodes w) = 0 then None else Some (length (nodes w) - 1))"
    using assms(1) by (simp add: chained_def)
  then show ?thesis
    using traverse_from_wp [where I = I, OF assms(3) order.refl order.refl assms(2)]
    by (simp add: traverse_def)
qed

section \<open>Claiming a node\<close>

text \<open>
  A change of the list that leaves everything but the use marks of unclaimed nodes as it was.
\<close>

definition claims_only :: "'v world \<Rightarrow> 'v world \<Rightarrow> bool" where
  "claims_only w w' \<longleftrightarrow> w' = w\<lparr>nodes := nodes w'\<rparr> \<and> length (nodes w') = length (nodes w) \<and>
     (\<forall>i<length (nodes w). fast (nodes w' ! i) = fast (nodes w ! i) \<and>
        helping (nodes w' ! i) = helping (nodes w ! i) \<and>
        next_node (nodes w' ! i) = next_node (nodes w ! i) \<and>
        active_writers (nodes w' ! i) = active_writers (nodes w ! i) \<and>
        (in_use (nodes w ! i) = NODE_USED \<longrightarrow> in_use (nodes w' ! i) = NODE_USED))"

lemma claims_only_refl: "claims_only w w"
  by (simp add: claims_only_def)

lemma claims_only_trans:
  assumes "claims_only w w'" and "claims_only w' w''"
  shows "claims_only w w''"
proof -
  have "w'' = w\<lparr>nodes := nodes w''\<rparr>"
    using assms unfolding claims_only_def by (metis world.surjective world.update_convs(3))
  then show ?thesis
    using assms by (auto simp: claims_only_def)
qed

lemma claims_only_frame:
  assumes "claims_only w w'"
  shows "heap w' = heap w" "storage w' = storage w" "list_head w' = list_head w"
    "handover w' = handover w" "locals w' = locals w" "tls_gone w' = tls_gone w"
    "temps w' = temps w" "rwlocks w' = rwlocks w" "place w' = place w" "spurious w' = spurious w"
proof -
  obtain ns where w': "w' = w\<lparr>nodes := ns\<rparr>" using assms unfolding claims_only_def by blast
  show "heap w' = heap w" "storage w' = storage w" "list_head w' = list_head w"
    "handover w' = handover w" "locals w' = locals w" "tls_gone w' = tls_gone w"
    "temps w' = temps w" "rwlocks w' = rwlocks w" "place w' = place w" "spurious w' = spurious w"
    by (simp_all add: w')
qed

lemma claims_only_node:
  assumes "claims_only w w'" and "i < length (nodes w)"
  shows "fast (nodes w' ! i) = fast (nodes w ! i)" "helping (nodes w' ! i) = helping (nodes w ! i)"
    "next_node (nodes w' ! i) = next_node (nodes w ! i)"
  using assms by (auto simp: claims_only_def)

lemma map_nth_eqI:
  assumes "length xs = length ys" and "\<And>i. i < length ys \<Longrightarrow> f (xs ! i) = f (ys ! i)"
  shows "map f xs = map f ys"
  using assms by (auto intro: nth_equalityI)

lemma claims_only_ledger:
  assumes "claims_only w w'"
  shows "owed w' p = owed w p" "mailed w' p = mailed w p" "ledger k w' p = ledger k w p"
proof -
  have len: "length (nodes w') = length (nodes w)" using assms by (simp add: claims_only_def)
  have "map (node_owed p) (nodes w') = map (node_owed p) (nodes w)"
    by (rule map_nth_eqI [OF len]) (simp add: node_owed_def node_slots_def claims_only_node [OF assms])
  moreover have "map (node_mailed (handover w) p) (nodes w') = map (node_mailed (handover w) p) (nodes w)"
    by (rule map_nth_eqI [OF len]) (simp add: node_mailed_def claims_only_node [OF assms])
  ultimately show "owed w' p = owed w p" "mailed w' p = mailed w p" "ledger k w' p = ledger k w p"
    by (simp_all add: owed_def mailed_def ledger_def claims_only_frame [OF assms])
qed

lemma claims_only_wf:
  assumes wf: "wf_world w" and c: "claims_only w w'"
  shows "wf_world w'"
proof -
  have len: "length (nodes w') = length (nodes w)" using c by (simp add: claims_only_def)
  note fr = claims_only_frame [OF c] and nd = claims_only_node [OF c]
  have "node_ok (nodes w' ! i)" if "i < length (nodes w)" for i
    using wf_nodeD [OF wf that] c that nd [OF that] by (auto simp: node_ok_def claims_only_def)
  then have ok: "\<forall>x\<in>set (nodes w'). node_ok x" by (simp add: all_set_conv_all_nth len)
  have offers: "map (offer \<circ> helping) (nodes w') = map (offer \<circ> helping) (nodes w)"
    by (rule map_nth_eqI [OF len]) (simp add: nd)
  have "offer (helping (nodes w' ! i)) \<in> place w ` {..<length (nodes w)}"
    if "i < length (nodes w)" for i
    using wf that nd [OF that] by (simp add: wf_world_def offers_ok_def)
  then have "offers_ok w'"
    using wf by (simp add: wf_world_def offers_ok_def fr len offers all_set_conv_all_nth)
  moreover have "nodes w' = [] \<longleftrightarrow> nodes w = []"
    using len by (metis length_0_conv)
  then have "chained w'"
    using wf len nd by (simp add: wf_world_def chained_def fr)
  moreover have "locals_ok w'"
    using wf c by (auto simp: wf_world_def locals_ok_def fr len claims_only_def)
  ultimately show ?thesis using ok by (simp add: wf_world_def)
qed

lemma claims_only_set_in_use:
  "n < length (nodes w) \<Longrightarrow> in_use (nodes w ! n) \<noteq> NODE_USED \<Longrightarrow>
   claims_only w (upd_node n (\<lambda>nd. nd\<lparr>in_use := u\<rparr>) w)"
  by (auto simp: claims_only_def upd_node_def nth_list_update)

lemma check_cooldown_wp:
  assumes "n < length (nodes w)"
  shows "wp (check_cooldown n) (\<lambda>_ w'. claims_only w w') w"
  using assms claims_only_set_in_use [OF assms, of NODE_UNUSED] claims_only_refl
  by (auto simp: check_cooldown_def upd_node_def)

lemma try_claim_wp:
  assumes "n < length (nodes w)"
  shows "wp (try_claim n) (\<lambda>r w'. claims_only w w' \<and>
      (case r of None \<Rightarrow> True
       | Some m \<Rightarrow> m = n \<and> in_use (nodes w ! n) \<noteq> NODE_USED \<and> in_use (nodes w' ! n) = NODE_USED)) w"
proof -
  have "wp (bnd (gets (\<lambda>w. in_use (nodes w ! n))) (\<lambda>u.
       if u = NODE_UNUSED then
         bnd (modify (upd_node n (\<lambda>nd. nd\<lparr>in_use := NODE_USED\<rparr>))) (\<lambda>_. ret (Some n))
       else ret None))
     (\<lambda>r w'. claims_only w w' \<and> (case r of None \<Rightarrow> True
       | Some m \<Rightarrow> m = n \<and> in_use (nodes w ! n) \<noteq> NODE_USED \<and> in_use (nodes w' ! n) = NODE_USED)) u"
    if u: "claims_only w u" for u
  proof -
    have len: "length (nodes u) = length (nodes w)" using u by (simp add: claims_only_def)
    have used: "in_use (nodes w ! n) = NODE_USED \<Longrightarrow> in_use (nodes u ! n) = NODE_USED"
      using u assms by (simp add: claims_only_def)
    show ?thesis
      using u used assms len claims_only_trans [OF u claims_only_set_in_use [of n u NODE_USED]]
      by (auto simp: upd_node_def)
  qed
  then show ?thesis
    using wp_mono [OF check_cooldown_wp [OF assms]] by (simp add: try_claim_def)
qed

lemma wp_fails_spuriously [wp_rules]:
  "wp fails_spuriously Q w \<longleftrightarrow>
     (case spurious w of [] \<Rightarrow> Q False w | b # bs \<Rightarrow> Q b (w\<lparr>spurious := bs\<rparr>))"
  by (simp add: wp_def fails_spuriously_def split: list.splits)

text \<open>Linking a node in needs at most one round more than there are spurious failures.\<close>

lemma push_node_wp:
  "n < length (nodes w) \<Longrightarrow> list_head w = head \<Longrightarrow> length (spurious w) < fuel \<Longrightarrow>
   wp (push_node fuel n head) (\<lambda>r w'. r = n \<and> (\<exists>sp. length sp \<le> length (spurious w) \<and>
     w' = (upd_node n (\<lambda>nd. nd\<lparr>next_node := head\<rparr>) w)\<lparr>list_head := Some n, spurious := sp\<rparr>)) w"
proof (induction fuel arbitrary: w)
  case 0
  then show ?case by simp
next
  case (Suc fuel)
  let ?w1 = "upd_node n (\<lambda>nd. nd\<lparr>next_node := head\<rparr>) w"
  show ?case
  proof (cases "spurious w")
    case Nil
    have "?w1\<lparr>list_head := Some n\<rparr> = ?w1\<lparr>list_head := Some n, spurious := []\<rparr>"
      using Nil by (cases w) (simp add: upd_node_def)
    then show ?thesis using Suc.prems Nil by (auto simp: wp_fails_spuriously)
  next
    case (Cons b bs)
    have idem: "upd_node n (\<lambda>nd. nd\<lparr>next_node := head\<rparr>) (?w1\<lparr>spurious := bs\<rparr>)
        = ?w1\<lparr>spurious := bs\<rparr>"
      using Suc.prems by (simp add: upd_node_def)
    show ?thesis
    proof (cases b)
      case True
      have ord: "?w1\<lparr>spurious := bs, list_head := Some n, spurious := sp\<rparr>
          = ?w1\<lparr>list_head := Some n, spurious := sp\<rparr>" for sp
        by (cases w) (simp add: upd_node_def)
      have "wp (push_node fuel n head) (\<lambda>r w'. r = n \<and> (\<exists>sp. length sp \<le> length bs \<and>
          w' = ?w1\<lparr>list_head := Some n, spurious := sp\<rparr>)) (?w1\<lparr>spurious := bs\<rparr>)"
        using Suc.IH [of "?w1\<lparr>spurious := bs\<rparr>"] Suc.prems Cons by (simp add: idem ord)
      then show ?thesis
        using True Cons Suc.prems by (auto simp: wp_fails_spuriously elim!: wp_mono intro: le_SucI)
    next
      case False
      have "?w1\<lparr>spurious := bs, list_head := Some n\<rparr> = ?w1\<lparr>list_head := Some n, spurious := bs\<rparr>"
        by (cases w) (simp add: upd_node_def)
      then show ?thesis
        using False Cons Suc.prems by (auto simp: wp_fails_spuriously intro: exI [of _ bs])
    qed
  qed
qed

text \<open>A node without debts and without a transaction.\<close>

definition blank :: "node \<Rightarrow> bool" where
  "blank nd \<longleftrightarrow> control (helping nd) = IDLE \<and> set (node_slots nd) = {debt_none}"

text \<open>The nodes that were added to the list are blank.\<close>

definition extended :: "'v world \<Rightarrow> 'v world \<Rightarrow> bool" where
  "extended w w' \<longleftrightarrow> length (nodes w) \<le> length (nodes w') \<and>
     (\<forall>i. length (nodes w) \<le> i \<and> i < length (nodes w') \<longrightarrow> blank (nodes w' ! i))"

text \<open>What a thread gains by \<open>Node::get\<close>: a node of its own, everything else being untouched.\<close>

definition gains :: "'v world \<Rightarrow> nid \<Rightarrow> 'v world \<Rightarrow> bool" where
  "gains w n w' \<longleftrightarrow>
     heap w' = heap w \<and> storage w' = storage w \<and> locals w' = locals w \<and> tls_gone w' = tls_gone w \<and>
     temps w' = temps w \<and> rwlocks w' = rwlocks w \<and> place w' = place w \<and>
     length (spurious w') \<le> length (spurious w) \<and> extended w w' \<and> length (nodes w') \<le> Suc (length (nodes w)) \<and>
     (\<forall>i<length (nodes w). fast (nodes w' ! i) = fast (nodes w ! i) \<and>
        helping (nodes w' ! i) = helping (nodes w ! i) \<and>
        active_writers (nodes w' ! i) = active_writers (nodes w ! i) \<and>
        handover w' (offer (helping (nodes w ! i))) = handover w (offer (helping (nodes w ! i)))) \<and>
     n < length (nodes w') \<and> in_use (nodes w' ! n) = NODE_USED \<and>
     idle_helping (helping (nodes w' ! n)) \<and>
     (n < length (nodes w) \<longrightarrow> in_use (nodes w ! n) \<noteq> NODE_USED) \<and>
     (\<forall>p. p \<noteq> debt_none \<longrightarrow> owed w' p = owed w p) \<and> (\<forall>p. mailed w' p = mailed w p)"

definition can_grow :: "'v world \<Rightarrow> bool" where
  "can_grow w \<longleftrightarrow> place_ok (place w) (Suc (length (nodes w)))"

lemma claim_gains:
  assumes wf: "wf_world w" and c: "claims_only w w'" and n: "n < length (nodes w)"
    and "in_use (nodes w ! n) \<noteq> NODE_USED" and "in_use (nodes w' ! n) = NODE_USED"
  shows "gains w n w'"
  using assms wf_nodeD [OF wf n] claims_only_ledger [OF c] claims_only_frame [OF c]
  by (auto simp: gains_def claims_only_def node_ok_def extended_def)

abbreviation fresh_node :: "usize \<Rightarrow> nid option \<Rightarrow> node" where
  "fresh_node pl head \<equiv> node_default
     \<lparr>helping := helping_init pl helping_slots_default, next_node := head\<rparr>"

lemma fresh_helping [simp]:
  "control (helping_init pl helping_slots_default) = IDLE"
  "slot (helping_init pl helping_slots_default) = debt_none"
  "space_offer (helping_init pl helping_slots_default) = pl"
  "offer (helping_init pl helping_slots_default) = pl"
  by (simp_all add: helping_init_def helping_slots_default_def offer_def is_replacement_def tag_defs)

lemma not_idle_replacement [simp]: "\<not> is_replacement IDLE"
  by (simp add: is_replacement_def tag_defs)

lemma fresh_node_owed: "p \<noteq> debt_none \<Longrightarrow> node_owed p (fresh_node pl head) = 0"
  by (simp add: node_owed_def node_slots_def node_default_def fast_slots_default_def
      count_list_0_iff)

lemma fresh_node_ok: "node_ok (fresh_node pl head)"
  by (simp add: node_ok_def node_default_def fast_slots_default_def control_ok_def)

lemma grown:
  assumes wf: "wf_world w" and grow: "can_grow w"
    and w': "w' = w\<lparr>nodes := nodes w @ [fresh_node (place w (length (nodes w))) (list_head w)],
               handover := (handover w)(place w (length (nodes w)) := 0),
               list_head := Some (length (nodes w)), spurious := sp\<rparr>"
    and sp: "length sp \<le> length (spurious w)"
  shows "wf_world w'" and "gains w (length (nodes w)) w'"
proof -
  let ?n = "length (nodes w)" and ?pl = "place w (length (nodes w))"
  have pl: "place_ok (place w) (Suc ?n)" using grow by (simp add: can_grow_def)
  have old: "offer (helping nd) \<noteq> ?pl" if "nd \<in> set (nodes w)" for nd
  proof -
    have "offer (helping nd) \<in> place w ` {..<?n}"
      using wf that by (simp add: wf_world_def offers_ok_def)
    then obtain i where "i < ?n" and "offer (helping nd) = place w i" by blast
    moreover have "inj_on (place w) {..<Suc ?n}" using pl by (simp add: place_ok_def)
    ultimately show ?thesis by (auto dest: inj_onD)
  qed
  have head: "list_head w = (if ?n = 0 then None else Some (?n - 1))"
    using wf by (simp add: wf_world_def chained_def)
  have "chained w'"
    using wf head by (auto simp: w' chained_def wf_world_def nth_append less_Suc_eq)
  moreover have "\<forall>nd\<in>set (nodes w'). node_ok nd"
    using wf fresh_node_ok by (auto simp: w' wf_world_def)
  moreover have "offers_ok w'"
    using wf pl old by (auto simp: w' wf_world_def offers_ok_def)
  moreover have "locals_ok w'"
    using wf by (fastforce simp: w' wf_world_def locals_ok_def nth_append)
  ultimately show "wf_world w'" by (simp add: wf_world_def)
  have mail: "map (node_mailed ((handover w)(?pl := 0)) p) (nodes w)
      = map (node_mailed (handover w) p) (nodes w)" for p
  proof (rule map_cong [OF refl])
    fix nd assume "nd \<in> set (nodes w)"
    with old [of nd] show "node_mailed ((handover w)(?pl := 0)) p nd = node_mailed (handover w) p nd"
      by (auto simp: node_mailed_def offer_def)
  qed
  have "mailed w' p = mailed w p" for p
    by (simp add: w' mailed_def mail node_mailed_def)
  moreover have "owed w' p = owed w p" if "p \<noteq> debt_none" for p
    using fresh_node_owed [OF that] by (simp add: w' owed_def)
  moreover have "handover w' (offer (helping (nodes w ! i))) = handover w (offer (helping (nodes w ! i)))"
    if "i < ?n" for i
    using old [of "nodes w ! i"] that by (simp add: w')
  ultimately show "gains w ?n w'"
    using sp by (simp add: gains_def w' nth_append idle_helping_def node_default_def extended_def blank_def
        node_slots_def fast_slots_default_def DEBT_SLOT_CNT_def)
qed

lemma node_get_wp:
  assumes wf: "wf_world w" and grow: "can_grow w"
  shows "wp node_get (\<lambda>n w'. wf_world w' \<and> gains w n w') w"
proof -
  let ?Q = "\<lambda>n w'. wf_world w' \<and> gains w n w'"
  have search: "wp (traverse try_claim)
      (\<lambda>r u. case r of Some n \<Rightarrow> ?Q n u | None \<Rightarrow> claims_only w u) w"
  proof (rule traverse_wp [where I = "\<lambda>_. claims_only w"])
    show "chained w" using wf by (simp add: wf_world_def)
    show "claims_only w w" by (rule claims_only_refl)
    fix i u assume i: "i < length (nodes w)" and u: "claims_only w u"
    have iu: "i < length (nodes u)" using i u by (simp add: claims_only_def)
    have wfu: "wf_world u" by (rule claims_only_wf [OF wf u])
    have nxt: "next_node (nodes u' ! i) = (if i = 0 then None else Some (i - 1))"
      if "claims_only u u'" for u'
      using claims_only_node(3) [OF that iu] wfu iu by (simp add: wf_world_def chained_def)
    have used: "in_use (nodes u ! i) \<noteq> NODE_USED \<Longrightarrow> in_use (nodes w ! i) \<noteq> NODE_USED"
      using u i by (auto simp: claims_only_def)
    show "wp (try_claim i) (\<lambda>r u'. case r of Some x \<Rightarrow> ?Q x u'
        | None \<Rightarrow> claims_only w u' \<and>
            next_node (nodes u' ! i) = (if i = 0 then None else Some (i - 1))) u"
    proof (rule wp_mono [OF try_claim_wp [OF iu]])
      fix r u'
      assume r: "claims_only u u' \<and> (case r of None \<Rightarrow> True
          | Some m \<Rightarrow> m = i \<and> in_use (nodes u ! i) \<noteq> NODE_USED \<and> in_use (nodes u' ! i) = NODE_USED)"
      have w: "claims_only w u'" using claims_only_trans [OF u] r by blast
      show "case r of Some x \<Rightarrow> ?Q x u'
        | None \<Rightarrow> claims_only w u' \<and>
            next_node (nodes u' ! i) = (if i = 0 then None else Some (i - 1))"
        using r w nxt claims_only_wf [OF wf w] claim_gains [OF wf w i] used
        by (auto split: option.splits)
    qed
  qed
  have create: "wp (bnd alloc_node (\<lambda>n. bnd (gets (\<lambda>w. (list_head w, length (spurious w))))
      (\<lambda>(head, sp). push_node (Suc sp) n head))) ?Q u" if u: "claims_only w u" for u
  proof -
    let ?n = "length (nodes u)"
    let ?u1 = "u\<lparr>nodes := nodes u @ [node_default\<lparr>helping := helping_init (place u ?n) helping_slots_default\<rparr>],
            handover := (handover u)(place u ?n := 0)\<rparr>"
    have wfu: "wf_world u" and growu: "can_grow u"
      using claims_only_wf [OF wf u] grow u claims_only_frame(9) [OF u]
      by (simp_all add: can_grow_def claims_only_def)
    have "wp (push_node (Suc (length (spurious u))) ?n (list_head u)) ?Q ?u1"
    proof (rule wp_mono [OF push_node_wp])
      fix r u2
      assume "r = ?n \<and> (\<exists>sp. length sp \<le> length (spurious ?u1) \<and>
          u2 = (upd_node ?n (\<lambda>nd. nd\<lparr>next_node := list_head u\<rparr>) ?u1)
          \<lparr>list_head := Some ?n, spurious := sp\<rparr>)"
      then obtain sp where r: "r = ?n" and sp: "length sp \<le> length (spurious u)"
        and u2: "u2 = u\<lparr>nodes := nodes u @ [fresh_node (place u ?n) (list_head u)],
               handover := (handover u)(place u ?n := 0), list_head := Some ?n, spurious := sp\<rparr>"
        by (cases u) (auto simp: upd_node_def)
      note g = grown [OF wfu growu u2 sp]
      have len: "?n = length (nodes w)" using u by (simp add: claims_only_def)
      have "gains w ?n u2"
        using g(2) u claims_only_frame [OF u] claims_only_ledger [OF u]
        by (auto simp: gains_def claims_only_def extended_def len)
      with g(1) r show "?Q r u2" by simp
    qed auto
    then show ?thesis by (simp add: alloc_node_def del: push_node.simps)
  qed
  show ?thesis
    unfolding node_get_def wp_bnd
    by (rule wp_mono [OF search]) (auto simp: create simp del: push_node.simps wp_bnd split: option.splits)
qed

section \<open>Reuse of nodes\<close>

text \<open>A node a thread can claim: unused, or cooling down without a writer on it.\<close>

definition free_node :: "node \<Rightarrow> bool" where
  "free_node nd \<longleftrightarrow> in_use nd = NODE_UNUSED \<or> (in_use nd = NODE_COOLDOWN \<and> active_writers nd = 0)"

lemma try_claim_run:
  assumes "n < length (nodes u)"
  shows "wp (try_claim n) Q u \<longleftrightarrow>
    (if free_node (nodes u ! n) then Q (Some n) (upd_node n (\<lambda>nd. nd\<lparr>in_use := NODE_USED\<rparr>) u) else Q None u)"
  using assms by (auto simp: try_claim_def check_cooldown_def free_node_def upd_node_def)

lemma node_get_reuses:
  assumes ch: "chained w" and i: "i < length (nodes w)" "free_node (nodes w ! i)"
  shows "wp node_get (\<lambda>n w'. n < length (nodes w) \<and> free_node (nodes w ! n) \<and>
    w' = upd_node n (\<lambda>nd. nd\<lparr>in_use := NODE_USED\<rparr>) w) w"
proof -
  let ?Q = "\<lambda>n w'. n < length (nodes w) \<and> free_node (nodes w ! n) \<and>
    w' = upd_node n (\<lambda>nd. nd\<lparr>in_use := NODE_USED\<rparr>) w"
  let ?I = "\<lambda>m u. u = w \<and> (\<forall>j. m \<le> j \<and> j < length (nodes w) \<longrightarrow> \<not> free_node (nodes w ! j))"
  have "wp (traverse try_claim) (\<lambda>r u. case r of Some n \<Rightarrow> ?Q n u | None \<Rightarrow> ?I 0 u) w"
  proof (rule traverse_wp [where I = ?I, OF ch])
    fix m u assume m: "m < length (nodes w)" and u: "?I (Suc m) u"
    show "wp (try_claim m) (\<lambda>r u'. case r of Some x \<Rightarrow> ?Q x u'
        | None \<Rightarrow> ?I m u' \<and> next_node (nodes u' ! m) = (if m = 0 then None else Some (m - 1))) u"
      using u m ch by (auto simp: try_claim_run chained_def not_less_eq_eq dest: le_neq_implies_less)
  qed auto
  then show ?thesis
    unfolding node_get_def wp_bnd by (rule wp_mono) (use i in \<open>auto split: option.splits\<close>)
qed

section \<open>A thread and its node\<close>

text \<open>\<open>l\<close> owns the node \<open>n\<close> and is not in the middle of a transaction.\<close>

definition owns :: "lid \<Rightarrow> nid \<Rightarrow> 'v world \<Rightarrow> bool" where
  "owns l n w \<longleftrightarrow> wf_world w \<and> ln_node (locals w l) = Some n \<and> idle_helping (helping (nodes w ! n))"

lemma ownsD:
  assumes "owns l n w"
  shows "wf_world w" "ln_node (locals w l) = Some n" "n < length (nodes w)"
    "in_use (nodes w ! n) = NODE_USED" "idle_helping (helping (nodes w ! n))" "node_ok (nodes w ! n)"
    "length (fast (nodes w ! n)) = DEBT_SLOT_CNT"
    "generation (ln_helping (locals w l)) AND TAG_MASK = 0"
proof -
  show wf: "wf_world w" and ln: "ln_node (locals w l) = Some n"
    and "idle_helping (helping (nodes w ! n))"
    using assms by (simp_all add: owns_def)
  from wf_ownD [OF wf ln] show n: "n < length (nodes w)" and "in_use (nodes w ! n) = NODE_USED"
    by auto
  from wf_nodeD [OF wf n] show "node_ok (nodes w ! n)"
    and "length (fast (nodes w ! n)) = DEBT_SLOT_CNT"
    by (auto simp: node_ok_def)
  show "generation (ln_helping (locals w l)) AND TAG_MASK = 0"
    using wf by (simp add: wf_world_def locals_ok_def)
qed

lemma wp_own_node: "owns l n w \<Longrightarrow> wp (own_node l) Q w \<longleftrightarrow> Q n w"
  by (simp add: own_node_def ownsD)

text \<open>
  A change nobody else notices: the heap, the storages and the locks are the same, the nodes keep
  their slots, controls and envelopes, the other threads their local data, and at most one
  node is new.
\<close>

definition undisturbed :: "lid \<Rightarrow> 'v world \<Rightarrow> 'v world \<Rightarrow> bool" where
  "undisturbed l w w' \<longleftrightarrow>
     heap w' = heap w \<and> storage w' = storage w \<and> rwlocks w' = rwlocks w \<and> tls_gone w' = tls_gone w \<and>
     place w' = place w \<and> temps w' = temps w \<and> (\<forall>l'. l' \<noteq> l \<longrightarrow> locals w' l' = locals w l') \<and>
     ln_fast (locals w' l) = ln_fast (locals w l) \<and> ln_helping (locals w' l) = ln_helping (locals w l) \<and>
     length (spurious w') \<le> length (spurious w) \<and> extended w w' \<and> length (nodes w') \<le> Suc (length (nodes w)) \<and>
     (ln_node (locals w l) \<noteq> None \<longrightarrow> length (nodes w') = length (nodes w)) \<and>
     (\<forall>i<length (nodes w). fast (nodes w' ! i) = fast (nodes w ! i) \<and>
        helping (nodes w' ! i) = helping (nodes w ! i) \<and>
        active_writers (nodes w' ! i) = active_writers (nodes w ! i) \<and>
        handover w' (offer (helping (nodes w ! i))) = handover w (offer (helping (nodes w ! i)))) \<and>
     (\<forall>p. p \<noteq> debt_none \<longrightarrow> owed w' p = owed w p) \<and> (\<forall>p. mailed w' p = mailed w p)"

lemma extended_refl: "extended w w"
  by (auto simp: extended_def)

lemma undisturbed_refl: "undisturbed l w w"
  by (simp add: undisturbed_def extended_refl)

lemma undisturbed_ledger: "undisturbed l w w' \<Longrightarrow> p \<noteq> debt_none \<Longrightarrow> ledger k w' p = ledger k w p"
  by (simp add: undisturbed_def ledger_def)

lemma undisturbed_room: "undisturbed l w w' \<Longrightarrow> room l c w' \<longleftrightarrow> room l c w"
  by (simp add: undisturbed_def room_def)

text \<open>After \<open>ensure_node\<close> the thread owns a node; nobody else notices.\<close>

lemma ensure_node_wp:
  assumes wf: "wf_world w" and rest: "at_rest l w"
    and grow: "ln_node (locals w l) = None \<Longrightarrow> can_grow w"
    and l: "\<And>i. l = Temp i \<Longrightarrow> i < temps w"
  shows "wp (ensure_node l) (\<lambda>_ w'. (\<exists>n. owns l n w') \<and> undisturbed l w w') w"
proof (cases "ln_node (locals w l)")
  case (Some n)
  then have "owns l n w" using wf rest by (simp add: owns_def at_rest_def)
  then show ?thesis using Some by (auto simp: ensure_node_def undisturbed_refl)
next
  case None
  let ?f = "\<lambda>n ln. ln\<lparr>ln_node := Some n\<rparr>"
  have "wp (modify (upd_local l (?f n))) (\<lambda>_ w'. (\<exists>n. owns l n w') \<and> undisturbed l w w') u"
    if wfu: "wf_world u" and g: "gains w n u" for n u
  proof -
    have own: "ln_node (locals w l') \<noteq> Some n" for l'
      using wf_ownD [OF wf, of l' n] g by (auto simp: gains_def)
    have "locals_ok (upd_local l (?f n) u)"
      using wfu g own l by (auto simp: wf_world_def locals_ok_def gains_def)
    then have "wf_world (upd_local l (?f n) u)"
      using wfu by (simp add: wf_world_def chained_def offers_ok_def)
    moreover have "undisturbed l w (upd_local l (?f n) u)"
      using g None by (simp add: undisturbed_def gains_def extended_def owed_def mailed_def)
    ultimately show ?thesis
      using g by (auto simp: owns_def gains_def)
  qed
  then show ?thesis
    using wp_mono [OF node_get_wp [OF wf grow [OF None]]] None by (simp add: ensure_node_def)
qed

lemma local_with_owned:
  assumes "owns (Thread t) n w" and "\<not> tls_gone w t"
  shows "wp (local_with t f) Q w \<longleftrightarrow> wp (f (Thread t)) Q w"
  using assms ownsD(2) [OF assms(1)] by (simp add: local_with_def ensure_node_def)

lemma local_with_wp:
  assumes wf: "wf_world w" and rest: "at_rest (Thread t) w" and alive: "\<not> tls_gone w t"
    and grow: "ln_node (locals w (Thread t)) = None \<Longrightarrow> can_grow w"
    and body: "\<And>n u. owns (Thread t) n u \<Longrightarrow> undisturbed (Thread t) w u \<Longrightarrow> wp (f (Thread t)) Q u"
  shows "wp (local_with t f) Q w"
proof -
  have "wp (ensure_node (Thread t)) (\<lambda>_ u. wp (f (Thread t)) Q u) w"
    by (rule wp_mono [OF ensure_node_wp [OF wf rest grow]]) (use body in blast)+
  then show ?thesis using alive by (simp add: local_with_def)
qed

text \<open>The two variants of \<open>with\<close> agree as long as the thread-local storage exists.\<close>

lemma local_with_experimental_eq: "\<not> tls_gone w t \<Longrightarrow> local_with_experimental t f w = local_with t f w"
  by (simp add: local_with_experimental_def local_with_def bnd_def gets_def)

section \<open>The operations of an owner\<close>

lemma owns_upd_local:
  assumes "owns l n w" and "\<And>ln. ln_node (f ln) = ln_node ln"
    and "generation (ln_helping (f (locals w l))) AND TAG_MASK = 0"
  shows "owns l n (upd_local l f w)"
  using assms by (auto simp: owns_def wf_world_def chained_def offers_ok_def locals_ok_def)

lemma owns_heap: "owns l n (w\<lparr>heap := h\<rparr>) \<longleftrightarrow> owns l n w"
  by (simp add: owns_def wf_world_def chained_def offers_ok_def locals_ok_def)

lemma wf_upd_node:
  assumes wf: "wf_world w" and m: "m < length (nodes w)"
    and ok: "node_ok (f (nodes w ! m))"
    and off: "offer (helping (f (nodes w ! m))) = offer (helping (nodes w ! m))"
    and nxt: "next_node (f (nodes w ! m)) = next_node (nodes w ! m)"
    and use: "in_use (f (nodes w ! m)) = in_use (nodes w ! m)"
  shows "wf_world (upd_node m f w)"
proof -
  have "map (offer \<circ> helping) ((nodes w)[m := f (nodes w ! m)]) = map (offer \<circ> helping) (nodes w)"
    using m off by (simp add: map_update list_update_same_conv)
  moreover have "\<forall>nd\<in>set ((nodes w)[m := f (nodes w ! m)]).
      offer (helping nd) \<in> place w ` {..<length (nodes w)}"
    using wf m off by (auto simp: wf_world_def offers_ok_def dest!: set_update_subset_insert [THEN subsetD])
  ultimately have "offers_ok (upd_node m f w)"
    using wf by (simp add: wf_world_def offers_ok_def)
  moreover have "chained (upd_node m f w)"
    using wf m nxt by (auto simp: wf_world_def chained_def nth_list_update)
  moreover have "locals_ok (upd_node m f w)"
    using wf m use by (auto simp: wf_world_def locals_ok_def nth_list_update)
  moreover have "\<forall>nd\<in>set (nodes (upd_node m f w)). node_ok nd"
    using wf ok by (auto simp: wf_world_def dest!: set_update_subset_insert [THEN subsetD])
  ultimately show ?thesis by (simp add: wf_world_def)
qed

lemma owns_upd_node:
  assumes own: "owns l n w" and m: "m < length (nodes w)"
    and ok: "node_ok (f (nodes w ! m))"
    and off: "offer (helping (f (nodes w ! m))) = offer (helping (nodes w ! m))"
    and nxt: "next_node (f (nodes w ! m)) = next_node (nodes w ! m)"
    and use: "in_use (f (nodes w ! m)) = in_use (nodes w ! m)"
    and idle: "m = n \<Longrightarrow> idle_helping (helping (f (nodes w ! m)))"
  shows "owns l n (upd_node m f w)"
  using wf_upd_node [OF ownsD(1) [OF own] m, of f] ok off nxt use own m idle
  by (auto simp: owns_def nth_list_update)

lemma wp_new_fast:
  "owns l n w \<Longrightarrow> wp (new_fast l ptr) Q w \<longleftrightarrow>
     (case fast_get_debt ptr (fast (nodes w ! n)) (ln_fast (locals w l)) of (r, slots, fl) \<Rightarrow>
        Q (map_option (FastSlot n) r)
          (upd_local l (\<lambda>ln. ln\<lparr>ln_fast := fl\<rparr>) (upd_node n (\<lambda>nd. nd\<lparr>fast := slots\<rparr>) w)))"
  by (simp add: new_fast_def wp_own_node split: prod.splits)

text \<open>A transaction that nobody disturbs: the slot is left with the candidate, the control idle.\<close>

lemma helping_get_debt_idle:
  assumes "idle_helping hs" and "generation hl AND TAG_MASK = 0"
  shows "helping_get_debt ptr hs hl
    = Inr ((generation hl + 4 OR GEN_TAG, generation hl + 4 = 0),
           hs\<lparr>active_addr := ptr, control := generation hl + 4 OR GEN_TAG\<rparr>,
           hl\<lparr>generation := generation hl + 4\<rparr>)"
proof -
  have "generation hl + 4 AND 2 = 0"
    using assms(2) by (intro tag_and_2) (simp add: tag_defs)
  then show ?thesis
    using assms by (simp add: helping_get_debt_def Let_def idle_helping_def tag_defs)
qed

text \<open>The end of a thread that is between two operations: its node goes to cooldown, with the debts it holds.\<close>

lemma thread_exit_wp:
  assumes wf: "wf_world w" and rest: "at_rest (Thread t) w"
  shows "wp (thread_exit t) (\<lambda>_ w'. wf_world w' \<and> heap w' = heap w \<and> storage w' = storage w \<and>
      handover w' = handover w \<and> tls_gone w' = tls_gone w \<and> rwlocks w' = rwlocks w \<and>
      length (nodes w') = length (nodes w) \<and>
      (\<forall>j<length (nodes w). fast (nodes w' ! j) = fast (nodes w ! j) \<and> helping (nodes w' ! j) = helping (nodes w ! j)) \<and>
      locals w' = (locals w)(Thread t := local_default) \<and>
      (\<forall>n. ln_node (locals w (Thread t)) = Some n \<longrightarrow> in_use (nodes w' ! n) = NODE_COOLDOWN)) w"
proof (cases "ln_node (locals w (Thread t))")
  case None
  have "locals_ok (upd_local (Thread t) (\<lambda>_. local_default) w)"
    using wf by (auto simp: wf_world_def locals_ok_def local_default_def)
  then have "wf_world (upd_local (Thread t) (\<lambda>_. local_default) w)"
    using wf by (simp add: wf_world_def chained_def offers_ok_def)
  then show ?thesis using None by (simp add: thread_exit_def local_drop_def)
next
  case (Some n)
  note own = wf_ownD [OF wf Some]
  have idle: "idle_helping (helping (nodes w ! n))" using rest Some by (simp add: at_rest_def)
  let ?f = "\<lambda>nd. nd\<lparr>active_writers := active_writers nd + 1 - 1, in_use := NODE_COOLDOWN\<rparr>"
  let ?w = "upd_local (Thread t) (\<lambda>_. local_default) (upd_node n ?f w)"
  have "chained ?w" using wf own by (auto simp: wf_world_def chained_def nth_update)
  moreover have "\<forall>nd\<in>set (nodes ?w). node_ok nd"
    using wf wf_nodeD [OF wf, of n] own idle
    by (auto simp: wf_world_def node_ok_def dest!: set_update_subset_insert [THEN subsetD])
  moreover have "offers_ok ?w"
  proof -
    have "map (offer \<circ> helping) (nodes ?w) = map (offer \<circ> helping) (nodes w)"
      using own by (simp add: map_update list_update_same_conv)
    moreover have "offer (helping nd) \<in> place w ` {..<length (nodes w)}" if "nd \<in> set (nodes ?w)" for nd
      using that wf own
      by (auto simp: wf_world_def offers_ok_def dest!: set_update_subset_insert [THEN subsetD])
    ultimately show ?thesis using wf by (simp add: wf_world_def offers_ok_def)
  qed
  moreover have "locals_ok ?w"
  proof -
    have other: "m \<noteq> n" if "l \<noteq> Thread t" "ln_node (locals w l) = Some m" for l m
      using wf that Some unfolding wf_world_def locals_ok_def by blast
    have "m < length (nodes w) \<and> in_use (nodes ?w ! m) = NODE_USED"
      if "ln_node (locals ?w l) = Some m" for l m
      using that wf_ownD [OF wf, of l m] other [of l m]
      by (auto simp: local_default_def nth_update split: if_splits)
    then show ?thesis
      using wf by (auto simp: wf_world_def locals_ok_def local_default_def split: if_splits)
  qed
  ultimately have "wf_world ?w" by (simp add: wf_world_def)
  then show ?thesis
    using Some own
    by (simp add: thread_exit_def local_drop_def start_cooldown_def reserve_writer_def release_writer_def
        upd_node_def upd_local_def nth_update)
qed

end
