(* ===== verification/Debt.thy ===== *)
theory Debt
  imports Node_List
begin

text \<open>
  Debts (debt/mod.rs): paying one debt, and the writer's walk that pays all debts on a pointer.
\<close>

definition debt_pay :: "slot_ref \<Rightarrow> usize \<Rightarrow> ('v world, bool) op" where
  "debt_pay s ptr =
     bnd (gets (read_slot s)) (\<lambda>v.
     if v = ptr then bnd (modify (write_slot s debt_none)) (\<lambda>_. ret True) else ret False)"

text \<open>The inner loop of \<open>pay_all\<close>: one more reference is prepaid for every debt that was paid.\<close>

fun pay_slots :: "smart \<Rightarrow> usize \<Rightarrow> slot_ref list \<Rightarrow> ('v world, unit) op" where
  "pay_slots val ptr [] = ret ()"
| "pay_slots val ptr (s # ss) =
     bnd (debt_pay s ptr) (\<lambda>paid.
     bnd (if paid then bnd (t_inc val) (\<lambda>_. ret ()) else ret ()) (\<lambda>_.
     pay_slots val ptr ss))"

text \<open>The closure \<open>pay_all\<close> runs on every node.\<close>

definition visit_node ::
  "lid \<Rightarrow> smart \<Rightarrow> usize \<Rightarrow> usize \<Rightarrow> ('v world, smart) op \<Rightarrow> nid \<Rightarrow> ('v world, unit option) op" where
  "visit_node l val ptr storage_addr replacement n =
     bnd (reserve_writer n) (\<lambda>_.
     bnd (local_help l n storage_addr replacement) (\<lambda>_.
     bnd (gets (all_slots n)) (\<lambda>ss.
     bnd (pay_slots val ptr ss) (\<lambda>_.
     bnd (release_writer n) (\<lambda>_. ret None)))))"

definition pay_all ::
  "kind \<Rightarrow> tid \<Rightarrow> usize \<Rightarrow> usize \<Rightarrow> ('v world, smart) op \<Rightarrow> ('v world, unit) op" where
  "pay_all k t ptr storage_addr replacement =
     local_with t (\<lambda>l.
       let val = from_ptr k ptr in
       bnd (t_inc val) (\<lambda>_.
       bnd (traverse (visit_node l val ptr storage_addr replacement)) (\<lambda>_.
       t_drop val)))"

section \<open>Paying one debt\<close>

lemma wp_debt_pay [wp_rules]:
  "wp (debt_pay s ptr) Q w
     \<longleftrightarrow> (if read_slot s w = ptr then Q True (write_slot s debt_none w) else Q False w)"
  by (simp add: debt_pay_def)

lemma write_slot_frame [simp]:
  "heap (write_slot s x w) = heap w" "storage (write_slot s x w) = storage w"
  "list_head (write_slot s x w) = list_head w" "handover (write_slot s x w) = handover w"
  "locals (write_slot s x w) = locals w" "tls_gone (write_slot s x w) = tls_gone w"
  "temps (write_slot s x w) = temps w" "rwlocks (write_slot s x w) = rwlocks w"
  "place (write_slot s x w) = place w" "spurious (write_slot s x w) = spurious w"
  "length (nodes (write_slot s x w)) = length (nodes w)"
  by (cases s; simp add: upd_helping_def)+

lemma read_write_slot: "slot_ok w s \<Longrightarrow> read_slot s (write_slot s x w) = x"
  by (cases s) (auto simp: slot_ok_def upd_helping_def)

lemma read_write_other: "s' \<noteq> s \<Longrightarrow> read_slot s' (write_slot s x w) = read_slot s' w"
  by (cases s; cases s') (auto simp: upd_helping_def nth_update)

lemma slot_ok_write [simp]: "slot_ok (write_slot s x w) s' \<longleftrightarrow> slot_ok w s'"
  by (cases s; cases s') (auto simp: slot_ok_def upd_helping_def nth_update)

lemma owed_write_slot:
  assumes "slot_ok w s"
  shows "int (owed (write_slot s x w) p)
    = int (owed w p) + (if x = p then 1 else 0) - (if read_slot s w = p then 1 else 0)"
proof (cases s)
  case (FastSlot n i)
  then show ?thesis
    using assms
    by (simp add: slot_ok_def owed_upd_node node_owed_def node_slots_def count_list_update_int)
next
  case (HelpSlot n)
  then show ?thesis
    using assms
    by (simp add: slot_ok_def upd_helping_def owed_upd_node node_owed_def node_slots_def)
qed

lemma mailed_write_slot:
  assumes "slot_ok w s"
  shows "mailed (write_slot s x w) p = mailed w p"
proof -
  have "int (mailed (write_slot s x w) p) = int (mailed w p)"
    using assms
    by (cases s) (simp_all add: slot_ok_def upd_helping_def mailed_upd_node node_mailed_def)
  then show ?thesis by simp
qed

lemma ledger_write_slot:
  assumes "slot_ok w s"
  shows "ledger k (write_slot s x w) p
    = ledger k w p + (if x = p then 1 else 0) - (if read_slot s w = p then 1 else 0)"
  using owed_write_slot [OF assms, of x p] mailed_write_slot [OF assms, of x p]
  by (simp add: ledger_def)

lemma ledger_inc:
  assumes "live k (heap w) q" and "counted k p"
  shows "ledger k (w\<lparr>heap := inc_at k q (heap w)\<rparr>) p = ledger k w p + (if p = q then 1 else 0)"
  using assms(2) rc_count_inc_at [OF assms(1), of p]
  by (simp add: ledger_def owed_cong [of _ w] mailed_cong [of _ w] owed_def mailed_def)

lemma ledger_dec:
  assumes "live k (heap w) q" and "counted k p"
  shows "ledger k (w\<lparr>heap := dec_at k q (heap w)\<rparr>) p = ledger k w p - (if p = q then 1 else 0)"
  using assms(2) rc_count_dec_at_int [OF assms(1), of p]
  by (simp add: ledger_def owed_def mailed_def)

lemma owns_write_slot:
  assumes own: "owns l n w" and s: "slot_ok w s" and "x = debt_none \<or> s \<noteq> HelpSlot n"
    and use: "\<And>m. s = HelpSlot m \<Longrightarrow> x = debt_none \<or> in_use (nodes w ! m) = NODE_USED"
  shows "owns l n (write_slot s x w)"
proof (cases s)
  case (FastSlot m i)
  have "node_ok (nodes w ! m)"
    using s FastSlot wf_nodeD [OF ownsD(1) [OF own]] by (simp add: slot_ok_def)
  then show ?thesis
    using s FastSlot own ownsD(5) [OF own]
    by (auto simp: slot_ok_def node_ok_def intro!: owns_upd_node [OF own])
next
  case (HelpSlot m)
  have "node_ok (nodes w ! m)"
    using s HelpSlot wf_nodeD [OF ownsD(1) [OF own]] by (simp add: slot_ok_def)
  then show ?thesis
    using s HelpSlot assms(3) use [OF HelpSlot] ownsD(5) [OF own]
    by (auto simp: slot_ok_def node_ok_def upd_helping_def idle_helping_def offer_def
        intro!: owns_upd_node [OF own])
qed

section \<open>Helping a reader\<close>

text \<open>
  What the exchange of envelopes leaves behind: the reader \<open>m\<close> finds the pointer in the envelope of
  the writer \<open>n\<close>, and the writer has the envelope of the reader.
\<close>

definition exchange :: "nid \<Rightarrow> nid \<Rightarrow> usize \<Rightarrow> 'v world \<Rightarrow> 'v world" where
  "exchange n m p w =
     (let my = space_offer (helping (nodes w ! n)); their = space_offer (helping (nodes w ! m)) in
      upd_helping n (\<lambda>hs. hs\<lparr>space_offer := their\<rparr>)
        (upd_helping m (\<lambda>hs. hs\<lparr>control := my OR REPLACEMENT_TAG\<rparr>)
          (w\<lparr>handover := (handover w)(my := p)\<rparr>)))"

lemma owner_space:
  assumes own: "owns l n w"
  shows "space_offer (helping (nodes w ! n)) \<noteq> 0"
    and "space_offer (helping (nodes w ! n)) AND TAG_MASK = 0"
    and "offer (helping (nodes w ! n)) = space_offer (helping (nodes w ! n))"
proof -
  show off: "offer (helping (nodes w ! n)) = space_offer (helping (nodes w ! n))"
    using ownsD(5) [OF own] by (simp add: offer_def idle_helping_def)
  have "offer (helping (nodes w ! n)) \<in> place w ` {..<length (nodes w)}"
    and "place_ok (place w) (length (nodes w))"
    using ownsD(1,3) [OF own] by (simp_all add: wf_world_def offers_ok_def)
  then show "space_offer (helping (nodes w ! n)) \<noteq> 0"
    and "space_offer (helping (nodes w ! n)) AND TAG_MASK = 0"
    by (auto simp: off place_ok_def)
qed

lemma distinct_map_swap:
  assumes "i < length xs" and "j < length xs" and "i \<noteq> j"
    and "f x = f (xs ! j)" and "f y = f (xs ! i)" and "distinct (map f xs)"
  shows "distinct (map f (xs[i := x, j := y]))"
proof -
  have "map f (xs[i := x, j := y]) = (map f xs)[i := map f xs ! j, j := map f xs ! i]"
    using assms by (simp add: map_update)
  moreover have "distinct ((map f xs)[i := map f xs ! j, j := map f xs ! i])"
    using assms by (subst distinct_swap) simp_all
  ultimately show ?thesis by simp
qed

lemma exchange_nodes:
  assumes "n < length (nodes w)" and "m < length (nodes w)" and "m \<noteq> n"
  shows "nodes (exchange n m p w) =
    (nodes w)[m := (nodes w ! m)\<lparr>helping := (helping (nodes w ! m))
                 \<lparr>control := space_offer (helping (nodes w ! n)) OR REPLACEMENT_TAG\<rparr>\<rparr>,
              n := (nodes w ! n)\<lparr>helping := (helping (nodes w ! n))
                 \<lparr>space_offer := space_offer (helping (nodes w ! m))\<rparr>\<rparr>]"
  using assms by (simp add: exchange_def upd_helping_def Let_def)

lemma exchange_frame [simp]:
  "heap (exchange n m p w) = heap w" "storage (exchange n m p w) = storage w"
  "list_head (exchange n m p w) = list_head w" "locals (exchange n m p w) = locals w"
  "tls_gone (exchange n m p w) = tls_gone w" "temps (exchange n m p w) = temps w"
  "rwlocks (exchange n m p w) = rwlocks w" "place (exchange n m p w) = place w"
  "spurious (exchange n m p w) = spurious w"
  "handover (exchange n m p w) = (handover w)(space_offer (helping (nodes w ! n)) := p)"
  "length (nodes (exchange n m p w)) = length (nodes w)"
  by (simp_all add: exchange_def Let_def upd_helping_def)

lemma replacement_tagged:
  assumes "x AND TAG_MASK = 0"
  shows "(x OR REPLACEMENT_TAG) AND TAG_MASK = REPLACEMENT_TAG"
    and "is_replacement (x OR REPLACEMENT_TAG)" and "envelope (x OR REPLACEMENT_TAG) = x"
  using tag_or_replacement [of x] envelope_tagged [of x] assms
  by (simp_all add: tag_defs is_replacement_def envelope_def)

text \<open>The three meanings of a control word never mix, also when the counter of generations wraps around.\<close>

lemma control_words_decode:
  assumes "x AND TAG_MASK = 0"
  shows "is_replacement (x OR REPLACEMENT_TAG) \<and> envelope (x OR REPLACEMENT_TAG) = x \<and>
    (x OR GEN_TAG) AND TAG_MASK = GEN_TAG \<and> \<not> is_replacement (x OR GEN_TAG) \<and>
    x OR GEN_TAG \<noteq> IDLE \<and> x OR REPLACEMENT_TAG \<noteq> IDLE \<and> (x + 4) AND TAG_MASK = 0"
proof -
  have g: "(x OR GEN_TAG) AND TAG_MASK = GEN_TAG"
    using tag_or_gen [of x] assms by (simp add: tag_defs)
  then show ?thesis
    using replacement_tagged [OF assms] assms by (auto simp: is_replacement_def tag_defs)
qed

text \<open>A writer that owns \<open>n\<close> meets a reader on \<open>m\<close> in the middle of its transaction.\<close>

definition collides :: "lid \<Rightarrow> nid \<Rightarrow> nid \<Rightarrow> 'v world \<Rightarrow> bool" where
  "collides l n m w \<longleftrightarrow> owns l n w \<and> m < length (nodes w) \<and> m \<noteq> n \<and>
     control (helping (nodes w ! m)) AND TAG_MASK = GEN_TAG"

lemma gen_reader:
  assumes "collides l n m w"
  shows "\<not> is_replacement (control (helping (nodes w ! m)))"
    and "offer (helping (nodes w ! m)) = space_offer (helping (nodes w ! m))"
    and "in_use (nodes w ! m) = NODE_USED"
proof -
  have own: "owns l n w" and m: "m < length (nodes w)" "m \<noteq> n"
    and gen: "control (helping (nodes w ! m)) AND TAG_MASK = GEN_TAG"
    using assms by (auto simp: collides_def)
  show nr: "\<not> is_replacement (control (helping (nodes w ! m)))"
    using gen by (simp add: is_replacement_def tag_defs)
  then show "offer (helping (nodes w ! m)) = space_offer (helping (nodes w ! m))"
    by (simp add: offer_def)
  have "node_ok (nodes w ! m)" by (rule wf_nodeD [OF ownsD(1) [OF own] m(1)])
  then show "in_use (nodes w ! m) = NODE_USED"
    using gen by (auto simp: node_ok_def idle_helping_def tag_defs)
qed

lemma exchange_owns:
  assumes "collides l n m w"
  shows "owns l n (exchange n m p w)"
proof -
  have own: "owns l n w" and m: "m < length (nodes w)" "m \<noteq> n"
    and gen: "control (helping (nodes w ! m)) AND TAG_MASK = GEN_TAG"
    using assms by (auto simp: collides_def)
  note o = ownsD [OF own] and sp = owner_space [OF own]
  note ns = exchange_nodes [OF o(3) m, of p]
  note rt = replacement_tagged [OF sp(2)]
  let ?w = "exchange n m p w"
  have wf: "wf_world w" by (rule o(1))
  have dist: "distinct (map (offer \<circ> helping) (nodes w))" using wf by (simp add: wf_world_def offers_ok_def)
  have "distinct (map (offer \<circ> helping) (nodes ?w))"
    unfolding ns
  proof (rule distinct_map_swap [OF m(1) o(3) m(2) _ _ dist])
    show "(offer \<circ> helping) ((nodes w ! m)\<lparr>helping := (helping (nodes w ! m))
        \<lparr>control := space_offer (helping (nodes w ! n)) OR REPLACEMENT_TAG\<rparr>\<rparr>)
        = (offer \<circ> helping) (nodes w ! n)"
      using rt sp(3) by (simp add: offer_def)
    show "(offer \<circ> helping) ((nodes w ! n)\<lparr>helping := (helping (nodes w ! n))
        \<lparr>space_offer := space_offer (helping (nodes w ! m))\<rparr>\<rparr>) = (offer \<circ> helping) (nodes w ! m)"
      using o(5) gen_reader(2) [OF assms] by (simp add: offer_def idle_helping_def)
  qed
  moreover have "offer (helping (nodes ?w ! i)) \<in> place w ` {..<length (nodes w)}"
    if i: "i < length (nodes w)" for i
  proof -
    have all: "\<forall>i<length (nodes w). offer (helping (nodes w ! i)) \<in> place w ` {..<length (nodes w)}"
      using wf by (simp add: wf_world_def offers_ok_def)
    have "offer (helping (nodes ?w ! i))
        = offer (helping (nodes w ! (if i = m then n else if i = n then m else i)))"
      using i m o(3,5) sp(3) rt gen_reader(1) [OF assms]
      by (auto simp: ns nth_update offer_def idle_helping_def)
    with all i m o(3) show ?thesis by simp
  qed
  ultimately have "offers_ok ?w"
    using wf by (simp add: wf_world_def offers_ok_def all_set_conv_all_nth)
  moreover have "chained ?w"
    using wf m o(3) by (auto simp: wf_world_def chained_def ns nth_update)
  moreover have "locals_ok ?w"
    using wf m o(3) by (auto simp: wf_world_def locals_ok_def ns nth_update)
  moreover have "node_ok (nodes ?w ! i)" if i: "i < length (nodes w)" for i
    using wf_nodeD [OF wf i] m o(3,4,5,6) gen_reader(3) [OF assms] rt
    by (auto simp: ns nth_update node_ok_def control_ok_def idle_helping_def)
  ultimately have "wf_world ?w" by (simp add: wf_world_def all_set_conv_all_nth)
  then show ?thesis using o m by (simp add: owns_def ns nth_update idle_helping_def)
qed

lemma exchange_mailed:
  assumes "collides l n m w"
  shows "mailed (exchange n m p w) q = mailed w q + (if q = p then 1 else 0)"
proof -
  have own: "owns l n w" and m: "m < length (nodes w)" "m \<noteq> n"
    and gen: "control (helping (nodes w ! m)) AND TAG_MASK = GEN_TAG"
    using assms by (auto simp: collides_def)
  note o = ownsD [OF own] and sp = owner_space [OF own]
  note ns = exchange_nodes [OF o(3) m, of p]
  note rt = replacement_tagged [OF sp(2)]
  let ?my = "space_offer (helping (nodes w ! n))"
  let ?ho = "(handover w)(?my := p)"
  let ?f = "node_mailed ?ho q"
  have same: "?f nd = node_mailed (handover w) q nd" if nd: "nd \<in> set (nodes w)" "nd \<noteq> nodes w ! n" for nd
  proof -
    have "inj_on (offer \<circ> helping) (set (nodes w))"
      using o(1) by (simp add: wf_world_def offers_ok_def distinct_map)
    then have "offer (helping nd) \<noteq> ?my"
      using nd o(3) sp(3) by (metis comp_apply inj_onD nth_mem)
    then show ?thesis by (auto simp: node_mailed_def offer_def)
  qed
  have own0: "?f (nodes w ! n) = 0" "node_mailed (handover w) q (nodes w ! n) = 0"
    using o(5) by (simp_all add: node_mailed_def idle_helping_def)
  have "map ?f (nodes w) = map (node_mailed (handover w) q) (nodes w)"
    using same own0 by (intro map_cong) (auto, metis)
  then have base: "sum_list (map ?f (nodes w)) = mailed w q" by (simp only: mailed_def)
  have gm: "?f (nodes w ! m) = 0" using gen_reader(1) [OF assms] by (simp add: node_mailed_def)
  have "int (mailed (exchange n m p w) q) = int (mailed w q) + (if q = p then 1 else 0)"
    unfolding mailed_def exchange_frame ns
    using base gm own0 m o(3,5) rt
    by (simp add: sum_list_map_update_int node_mailed_def idle_helping_def mailed_def)
  then show ?thesis by (simp split: if_splits)
qed

lemma exchange_slots:
  assumes "collides l n m w" and "j < length (nodes w)"
  shows "node_slots (nodes (exchange n m p w) ! j) = node_slots (nodes w ! j)"
  using exchange_nodes [of n w m p] assms ownsD(3) [of l n w]
  by (simp add: collides_def nth_update node_slots_def)

lemma exchange_owed:
  assumes "collides l n m w"
  shows "owed (exchange n m p w) q = owed w q"
  unfolding owed_def
  by (intro arg_cong [of _ _ sum_list] map_nth_eqI) (simp_all add: node_owed_def exchange_slots [OF assms])

section \<open>The contract of the replacement\<close>

text \<open>
  What the closure \<open>replacement\<close> of \<open>pay_all\<close> does when nobody interferes: it counts one more reference to
  the pointer of the storage and changes nothing else but the scratch data of its own thread.
\<close>

definition fetched :: "kind \<Rightarrow> usize \<Rightarrow> lid \<Rightarrow> nid \<Rightarrow> 'v world \<Rightarrow> 'v world \<Rightarrow> bool" where
  "fetched k p l n w w' \<longleftrightarrow>
     (\<exists>aa ln'. w' = w\<lparr>heap := inc_at k p (heap w),
          nodes := (nodes w)[n := (nodes w ! n)\<lparr>helping := (helping (nodes w ! n))\<lparr>active_addr := aa\<rparr>\<rparr>],
          locals := (locals w)(l := ln')\<rparr> \<and>
        ln_node ln' = ln_node (locals w l) \<and>
        (generation (ln_helping ln') = generation (ln_helping (locals w l)) \<or>
         generation (ln_helping ln') = generation (ln_helping (locals w l)) + 4))"

locale replacement_source =
  fixes k :: kind and t :: tid and a :: usize and replacement :: "('v world, smart) op"
  assumes fetch: "owns (Thread t) n u \<Longrightarrow> \<not> tls_gone u t \<Longrightarrow> storage u a = Some p \<Longrightarrow>
      room (Thread t) 1 u \<Longrightarrow> live k (heap u) p \<Longrightarrow>
      wp replacement (\<lambda>v u'. v = from_ptr k p \<and> fetched k p (Thread t) n u u') u"

text \<open>
  A step of a writer that keeps everything a writer relies on: it still owns its node, no count went down,
  the storages and the data of the others are the same, and at most \<open>c\<close> generations were used.
\<close>

definition steady :: "kind \<Rightarrow> lid \<Rightarrow> nid \<Rightarrow> nat \<Rightarrow> 'v world \<Rightarrow> 'v world \<Rightarrow> bool" where
  "steady k l n c w w' \<longleftrightarrow>
     owns l n w' \<and> storage w' = storage w \<and> tls_gone w' = tls_gone w \<and> rwlocks w' = rwlocks w \<and>
     place w' = place w \<and> temps w' = temps w \<and> spurious w' = spurious w \<and>
     (\<forall>l'. l' \<noteq> l \<longrightarrow> locals w' l' = locals w l') \<and> length (nodes w') = length (nodes w) \<and>
     (\<forall>q. rc_count k (heap w) q \<le> rc_count k (heap w') q) \<and> (\<forall>q. mailed w q \<le> mailed w' q) \<and>
     (\<forall>d. room l (c + d) w \<longrightarrow> room l d w')"

lemma steady_refl: "owns l n w \<Longrightarrow> steady k l n 0 w w"
  by (simp add: steady_def)

lemma steady_trans:
  "steady k l n c w w' \<Longrightarrow> steady k l n d w' w'' \<Longrightarrow> steady k l n (c + d) w w''"
  unfolding steady_def by (auto simp: add.assoc intro: order_trans)

lemma steady_weaken: "steady k l n c w w' \<Longrightarrow> c \<le> c' \<Longrightarrow> steady k l n c' w w'"
  unfolding steady_def by (meson add_le_mono1 room_mono)

lemma steady_live: "steady k l n c w w' \<Longrightarrow> live k (heap w) q \<Longrightarrow> live k (heap w') q"
  by (metis (no_types, lifting) live_def steady_def less_le_trans)

lemma steadyD:
  assumes "steady k l n c w w'"
  shows "owns l n w'" "storage w' = storage w" "tls_gone w' = tls_gone w"
    "length (nodes w') = length (nodes w)" "room l (c + d) w \<Longrightarrow> room l d w'"
  using assms by (auto simp: steady_def)

text \<open>The ledgers of all pointers that carry a count.\<close>

definition same_ledger :: "kind \<Rightarrow> 'v world \<Rightarrow> 'v world \<Rightarrow> bool" where
  "same_ledger k w w' \<longleftrightarrow> (\<forall>q. q \<noteq> debt_none \<longrightarrow> counted k q \<longrightarrow> ledger k w' q = ledger k w q)"

lemma same_ledger_refl: "same_ledger k w w"
  by (simp add: same_ledger_def)

lemma same_ledger_trans: "same_ledger k w w' \<Longrightarrow> same_ledger k w' w'' \<Longrightarrow> same_ledger k w w''"
  by (simp add: same_ledger_def)

lemma rc_count_inc_mono: "live k h p \<Longrightarrow> rc_count k h q \<le> rc_count k (inc_at k p h) q"
  by (simp add: rc_count_inc_at)

lemma fetched_owns:
  assumes own: "owns l n w" and f: "fetched k p l n w w'"
  shows "owns l n w'"
proof -
  obtain aa ln' where w': "w' = w\<lparr>heap := inc_at k p (heap w),
          nodes := (nodes w)[n := (nodes w ! n)\<lparr>helping := (helping (nodes w ! n))\<lparr>active_addr := aa\<rparr>\<rparr>],
          locals := (locals w)(l := ln')\<rparr>"
    and ln': "ln_node ln' = ln_node (locals w l)" "generation (ln_helping ln') AND TAG_MASK = 0"
    using f ownsD(8) [OF own] by (auto simp: fetched_def tag_defs)
  let ?u = "upd_helping n (\<lambda>hs. hs\<lparr>active_addr := aa\<rparr>) w"
  have "owns l n ?u"
    unfolding upd_helping_def using ownsD(5,6) [OF own]
    by (intro owns_upd_node [OF own ownsD(3) [OF own]])
      (simp_all add: node_ok_def idle_helping_def offer_def)
  then have "owns l n (upd_local l (\<lambda>ln. ln'\<lparr>ln_node := ln_node ln\<rparr>) ?u)"
    using ln'(2) by (intro owns_upd_local) simp_all
  moreover have "w' = (upd_local l (\<lambda>ln. ln'\<lparr>ln_node := ln_node ln\<rparr>) ?u)\<lparr>heap := inc_at k p (heap w)\<rparr>"
    using ln'(1) by (cases ln') (simp add: w' upd_local_def upd_helping_def upd_node_def world_order)
  ultimately show ?thesis by (simp add: owns_heap)
qed

lemma fetched_nodes:
  assumes "fetched k p l n w w'" and "j < length (nodes w)"
  shows "node_slots (nodes w' ! j) = node_slots (nodes w ! j)"
    "control (helping (nodes w' ! j)) = control (helping (nodes w ! j))"
    "space_offer (helping (nodes w' ! j)) = space_offer (helping (nodes w ! j))"
    "in_use (nodes w' ! j) = in_use (nodes w ! j)"
    "j \<noteq> n \<Longrightarrow> helping (nodes w' ! j) = helping (nodes w ! j)"
    "handover w' = handover w" "heap w' = inc_at k p (heap w)"
  using assms by (auto simp: fetched_def nth_update node_slots_def)

lemma fetched_counts:
  assumes f: "fetched k p l n w w'" and len: "length (nodes w') = length (nodes w)"
  shows "owed w' q = owed w q" "mailed w' q = mailed w q"
proof -
  have "map (node_owed q) (nodes w') = map (node_owed q) (nodes w)"
    by (rule map_nth_eqI [OF len]) (simp add: node_owed_def fetched_nodes [OF f])
  moreover have "map (node_mailed (handover w) q) (nodes w') = map (node_mailed (handover w) q) (nodes w)"
    by (rule map_nth_eqI [OF len]) (simp add: node_mailed_def fetched_nodes [OF f])
  moreover have "handover w' = handover w" using f by (auto simp: fetched_def)
  ultimately show "owed w' q = owed w q" "mailed w' q = mailed w q"
    by (simp_all add: owed_def mailed_def)
qed

lemma fetched_steady:
  assumes own: "owns l n w" and f: "fetched k p l n w w'" and live: "live k (heap w) p"
  shows "steady k l n 1 w w'"
proof -
  have "room l d w'" if "room l (1 + d) w" for d
    using f gen_fresh(2) [of l d w] that by (auto simp: fetched_def room_def)
  moreover have len: "length (nodes w') = length (nodes w)" using f by (auto simp: fetched_def)
  ultimately show ?thesis
    using f fetched_owns [OF own f] rc_count_inc_mono [OF live] fetched_counts(2) [OF f len]
    by (auto simp: steady_def fetched_def)
qed

section \<open>The walk of a writer\<close>

text \<open>A reader on the node waits for a pointer from the storage \<open>a\<close>.\<close>

definition waiting :: "usize \<Rightarrow> node \<Rightarrow> bool" where
  "waiting a nd \<longleftrightarrow> control (helping nd) AND TAG_MASK = GEN_TAG \<and> active_addr (helping nd) = a"

text \<open>
  A step that changes no slot, except that some that hold \<open>ptr\<close> may be emptied, and that starts
  no transaction.
\<close>

definition no_new_debts :: "usize \<Rightarrow> 'v world \<Rightarrow> 'v world \<Rightarrow> bool" where
  "no_new_debts ptr w w' \<longleftrightarrow>
     (\<forall>s. slot_ok w s \<longrightarrow> read_slot s w' = read_slot s w \<or>
        (read_slot s w = ptr \<and> read_slot s w' = debt_none)) \<and>
     (\<forall>j<length (nodes w). length (fast (nodes w' ! j)) = length (fast (nodes w ! j)) \<and>
        (control (helping (nodes w ! j)) = IDLE \<longrightarrow> control (helping (nodes w' ! j)) = IDLE) \<and>
        (\<forall>a. waiting a (nodes w' ! j) \<longrightarrow> waiting a (nodes w ! j)))"

lemma no_new_debts_refl: "no_new_debts ptr w w"
  by (simp add: no_new_debts_def)

lemma no_new_debts_slot_ok:
  "no_new_debts ptr w w' \<Longrightarrow> length (nodes w') = length (nodes w) \<Longrightarrow> slot_ok w' s = slot_ok w s"
  by (cases s) (auto simp: no_new_debts_def slot_ok_def)

lemma no_new_debts_trans:
  assumes "no_new_debts ptr w w'" and "no_new_debts ptr w' w''"
    and len: "length (nodes w') = length (nodes w)"
  shows "no_new_debts ptr w w''"
  using assms no_new_debts_slot_ok [OF assms(1) len]
  unfolding no_new_debts_def by metis

lemma owner_not_waiting: "owns l n w \<Longrightarrow> \<not> waiting a (nodes w ! n)"
  using ownsD(5) [of l n w] by (auto simp: waiting_def idle_helping_def tag_defs)

text \<open>Slots of a node, by reference.\<close>

lemma node_slots_refs:
  "set (node_slots (nodes w ! j)) = (\<lambda>s. read_slot s w) ` set (all_slots j w)"
proof -
  have "node_slots (nodes w ! j) = map (\<lambda>s. read_slot s w) (all_slots j w)"
    by (simp add: node_slots_def all_slots_def comp_def map_nth)
  then show ?thesis by simp
qed

lemma all_slots_ok: "j < length (nodes w) \<Longrightarrow> s \<in> set (all_slots j w) \<Longrightarrow> slot_ok w s"
  by (auto simp: all_slots_def slot_ok_def)

lemma same_slots_read:
  assumes "\<And>j. j < length (nodes w) \<Longrightarrow> node_slots (nodes w' ! j) = node_slots (nodes w ! j)"
    and "slot_ok w s"
  shows "read_slot s w' = read_slot s w"
proof (cases s)
  case (FastSlot n i)
  then show ?thesis using assms(1) [of n] assms(2) by (simp add: slot_ok_def node_slots_def)
next
  case (HelpSlot n)
  then show ?thesis using assms(1) [of n] assms(2) by (simp add: slot_ok_def node_slots_def)
qed

lemma same_slots_no_new_debts:
  assumes "\<And>j. j < length (nodes w) \<Longrightarrow> node_slots (nodes w' ! j) = node_slots (nodes w ! j)"
    and "\<And>j. j < length (nodes w) \<Longrightarrow> control (helping (nodes w ! j)) = IDLE \<Longrightarrow>
           control (helping (nodes w' ! j)) = IDLE"
    and "\<And>j a. j < length (nodes w) \<Longrightarrow> waiting a (nodes w' ! j) \<Longrightarrow> waiting a (nodes w ! j)"
  shows "no_new_debts ptr w w'"
proof -
  have "length (fast (nodes w' ! j)) = length (fast (nodes w ! j))" if "j < length (nodes w)" for j
    using assms(1) [OF that] by (simp add: node_slots_def)
  then show ?thesis
    using assms(2,3) same_slots_read [OF assms(1)] by (auto simp: no_new_debts_def)
qed

lemma fetched_no_new_debts:
  assumes "owns l n w" and "fetched k p l n w w'"
  shows "no_new_debts ptr w w'"
proof (rule same_slots_no_new_debts)
  fix b j assume "j < length (nodes w)" and "waiting b (nodes w' ! j)"
  then show "waiting b (nodes w ! j)"
    using fetched_nodes(5) [OF assms(2)] owner_not_waiting [OF fetched_owns [OF assms], of b]
    by (cases "j = n") (auto simp: waiting_def)
qed (simp_all add: fetched_nodes(1,2) [OF assms(2)])

lemma exchange_no_new_debts:
  assumes c: "collides l n m w"
  shows "no_new_debts ptr w (exchange n m p w)" and "\<not> waiting a (nodes (exchange n m p w) ! m)"
proof -
  have own: "owns l n w" and m: "m < length (nodes w)" "m \<noteq> n"
    and gen: "control (helping (nodes w ! m)) AND TAG_MASK = GEN_TAG" using c by (auto simp: collides_def)
  note ns = exchange_nodes [OF ownsD(3) [OF own] m, of p]
  note rt = replacement_tagged [OF owner_space(2) [OF own]]
  have nw: "\<not> waiting b (nodes (exchange n m p w) ! m)" for b
    using m ownsD(3) [OF own] rt(1) by (simp add: waiting_def ns nth_update tag_defs)
  show "no_new_debts ptr w (exchange n m p w)"
  proof (rule same_slots_no_new_debts)
    fix b j assume j: "j < length (nodes w)"
    show "node_slots (nodes (exchange n m p w) ! j) = node_slots (nodes w ! j)"
      by (rule exchange_slots [OF c j])
    show "control (helping (nodes (exchange n m p w) ! j)) = IDLE"
      if "control (helping (nodes w ! j)) = IDLE"
      using that gen m j ownsD(3) [OF own] by (cases "j = m") (auto simp: ns nth_update tag_defs)
    show "waiting b (nodes w ! j)" if "waiting b (nodes (exchange n m p w) ! j)"
      using that j nw m ownsD(3) [OF own]
      by (cases "j = m") (auto simp: waiting_def ns nth_update split: if_splits)
  qed
  show "\<not> waiting a (nodes (exchange n m p w) ! m)" by (rule nw)
qed

lemma collision_step:
  assumes c: "collides l n m w" and f: "fetched k p l n w w'" and live: "live k (heap w) p"
  shows "steady k l n 1 w (exchange n m p w')" and "same_ledger k w (exchange n m p w')"
    and "no_new_debts ptr w (exchange n m p w')" and "\<not> waiting a (nodes (exchange n m p w') ! m)"
proof -
  have own: "owns l n w" and m: "m < length (nodes w)" "m \<noteq> n" using c by (auto simp: collides_def)
  have st: "steady k l n 1 w w'" by (rule fetched_steady [OF own f live])
  have len: "length (nodes w') = length (nodes w)" using st by (simp add: steady_def)
  have c': "collides l n m w'"
    using c st fetched_nodes(2) [OF f m(1)] by (simp add: collides_def steady_def)
  show "steady k l n 1 w (exchange n m p w')"
    using st exchange_owns [OF c', of p] exchange_mailed [OF c', of p]
    by (auto simp: steady_def room_def trans_le_add1)
  show "same_ledger k w (exchange n m p w')"
    using exchange_mailed [OF c', of p] exchange_owed [OF c', of p] fetched_counts [OF f len]
      rc_count_inc_at [OF live] fetched_nodes(7) [OF f m(1)]
    by (simp add: same_ledger_def ledger_def)
  show "no_new_debts ptr w (exchange n m p w')"
    by (rule no_new_debts_trans [OF fetched_no_new_debts [OF own f] exchange_no_new_debts(1) [OF c'] len])
  show "\<not> waiting a (nodes (exchange n m p w') ! m)"
    by (rule exchange_no_new_debts(2) [OF c'])
qed

context replacement_source
begin

text \<open>A reader that waits for this storage gets the pointer in the envelope of the writer.\<close>

lemma help_exchange_wp:
  assumes c: "collides (Thread t) n m u" and alive: "\<not> tls_gone u t" and st: "storage u a = Some p"
    and room: "room (Thread t) 1 u" and live: "live k (heap u) p"
    and addr: "active_addr (helping (nodes u ! m)) = a"
  shows "wp (helping_help n m a replacement)
    (\<lambda>_ u'. \<exists>u1. fetched k p (Thread t) n u u1 \<and> u' = exchange n m p u1) u"
proof -
  have own: "owns (Thread t) n u" and m: "m < length (nodes u)" "m \<noteq> n"
    and gen: "control (helping (nodes u ! m)) AND TAG_MASK = GEN_TAG"
    using c by (auto simp: collides_def)
  have idle: "control (helping (nodes u ! n)) = IDLE"
    using ownsD(5) [OF own] by (simp add: idle_helping_def)
  have post: "space_offer (helping (nodes u' ! n)) \<noteq> 0
      \<and> space_offer (helping (nodes u' ! n)) AND TAG_MASK = 0
      \<and> control (helping (nodes u' ! m)) = control (helping (nodes u ! m))
      \<and> n < length (nodes u') \<and> m < length (nodes u')"
    if "fetched k p (Thread t) n u u'" for u'
    using owner_space [OF fetched_owns [OF own that]] fetched_nodes(2) [OF that m(1)] m
      ownsD(3) [OF fetched_owns [OF own that]] fetched_steady [OF own that live]
    by (auto simp: steady_def)
  show ?thesis
    using gen idle m addr
    by (simp add: helping_help_def help_rounds_def numeral_2_eq_2 tag_defs)
      (rule wp_mono [OF fetch [OF own alive st room live]], use post in
        \<open>auto simp: exchange_def Let_def upd_helping_def tag_defs\<close>)
qed

text \<open>After a writer has helped, nobody waits on the node for the storage any more.\<close>

lemma help_wp:
  assumes own: "owns (Thread t) n u" and alive: "\<not> tls_gone u t" and st: "storage u a = Some p"
    and room: "room (Thread t) 1 u" and live: "live k (heap u) p" and m: "m < length (nodes u)"
  shows "wp (helping_help n m a replacement)
    (\<lambda>_ u'. steady k (Thread t) n 1 u u' \<and> same_ledger k u u' \<and> no_new_debts ptr u u' \<and>
       \<not> waiting a (nodes u' ! m)) u"
proof -
  let ?c = "control (helping (nodes u ! m))"
  have idle: "control (helping (nodes u ! n)) = IDLE"
    using ownsD(5) [OF own] by (simp add: idle_helping_def)
  have base: "steady k (Thread t) n 1 u u" "same_ledger k u u" "no_new_debts ptr u u"
    using steady_weaken [OF steady_refl [OF own], of 1]
    by (simp_all add: same_ledger_refl no_new_debts_refl)
  have ok: "control_ok ?c" using wf_nodeD [OF ownsD(1) [OF own] m] by (simp add: node_ok_def)
  show ?thesis
  proof (cases "?c AND TAG_MASK = GEN_TAG")
    case False
    with ok have "?c = IDLE \<or> ?c AND TAG_MASK = REPLACEMENT_TAG" by (simp add: control_ok_def)
    then show ?thesis
      using False idle base by (auto simp: helping_help_def help_rounds_def numeral_2_eq_2 waiting_def tag_defs)
  next
    case True
    have mn: "m \<noteq> n" using True idle by (auto simp: tag_defs)
    have c: "collides (Thread t) n m u" using own m mn True by (simp add: collides_def)
    note tags = True idle mn
    show ?thesis
    proof (cases "active_addr (helping (nodes u ! m)) = a")
      case False
      then show ?thesis
        using tags base by (simp add: helping_help_def help_rounds_def numeral_2_eq_2 waiting_def tag_defs)
    next
      case addr: True
      show ?thesis
        by (rule wp_mono [OF help_exchange_wp [OF c alive st room live addr]])
          (use collision_step [OF c _ live] in blast)
    qed
  qed
qed

end

text \<open>The reader opens the envelope: it finds the pointer, and the envelope is its own from now on.\<close>

lemma confirm_exchanged:
  assumes c: "collides l n m u" and f: "fetched k p l n u u1" and live: "live k (heap u) p"
    and none: "slot (helping (nodes u ! m)) = debt_none" and g: "g AND TAG_MASK = GEN_TAG"
  shows "wp (helping_confirm m g cand) (\<lambda>r w'. r = Inl p \<and> heap w' = inc_at k p (heap u) \<and>
      control (helping (nodes w' ! m)) = IDLE \<and> slot (helping (nodes w' ! m)) = cand \<and>
      storage w' = storage u \<and> (\<forall>q. mailed w' q = mailed u q)) (exchange n m p u1)"
proof -
  have own: "owns l n u" and m: "m < length (nodes u)" "m \<noteq> n" using c by (auto simp: collides_def)
  have own1: "owns l n u1" by (rule fetched_owns [OF own f])
  have len: "length (nodes u1) = length (nodes u)" using fetched_steady [OF own f live] by (simp add: steady_def)
  have c1: "collides l n m u1"
    using c own1 fetched_nodes(2) [OF f m(1)] len by (simp add: collides_def)
  let ?my = "space_offer (helping (nodes u1 ! n))" and ?x = "exchange n m p u1"
  note sp = owner_space [OF own1] and rt = replacement_tagged [OF owner_space(2) [OF own1]]
  have m1: "m < length (nodes u1)" "n < length (nodes u1)" using m len ownsD(3) [OF own1] by auto
  have ctl: "control (helping (nodes ?x ! m)) = ?my OR REPLACEMENT_TAG"
    using exchange_nodes [OF m1(2,1) m(2), of p] m m1 by simp
  have slt: "slot (helping (nodes ?x ! m)) = debt_none"
    using exchange_nodes [OF m1(2,1) m(2), of p] m m1 none fetched_nodes [OF f m(1)] f
    by (auto simp: fetched_def)
  have ne: "?my OR REPLACEMENT_TAG \<noteq> g" using rt(1) g by (auto simp: tag_defs)
  let ?w = "upd_helping m (\<lambda>hs. hs\<lparr>slot := cand, control := IDLE, space_offer := ?my\<rparr>) ?x"
  have "int (mailed ?w q) = int (mailed u1 q)" for q
  proof -
    have "int (mailed ?w q) = int (mailed ?x q) - (if q = p then 1 else 0)"
      using m1 ctl rt by (auto simp: upd_helping_def mailed_upd_node node_mailed_def is_replacement_def tag_defs)
    then show ?thesis using exchange_mailed [OF c1, of p q] by simp
  qed
  then have ml: "mailed ?w q = mailed u q" for q using fetched_counts(2) [OF f len] by simp
  have "wp (helping_confirm m g cand) (\<lambda>r w'. r = Inl p \<and> w' = ?w) ?x"
    using ctl slt ne rt(1,3) m1
    by (simp add: helping_confirm_def upd_helping_def upd_node_def envelope_def Let_def)
  then show ?thesis
    by (rule wp_mono) (use ml f m1 in \<open>auto simp: upd_helping_def fetched_def\<close>)
qed

text \<open>A step that only empties slots that hold the pointer.\<close>

definition only_paid :: "usize \<Rightarrow> 'v world \<Rightarrow> 'v world \<Rightarrow> bool" where
  "only_paid ptr w w' \<longleftrightarrow>
     (\<forall>s. slot_ok w' s = slot_ok w s) \<and> (\<forall>j. all_slots j w' = all_slots j w) \<and>
     (\<forall>s. slot_ok w s \<longrightarrow> read_slot s w' = read_slot s w \<or>
        (read_slot s w = ptr \<and> read_slot s w' = debt_none)) \<and>
     (\<forall>j<length (nodes w). control (helping (nodes w' ! j)) = control (helping (nodes w ! j)) \<and>
        active_addr (helping (nodes w' ! j)) = active_addr (helping (nodes w ! j)))"

lemma only_paid_refl: "only_paid ptr w w"
  by (simp add: only_paid_def)

lemma only_paid_trans:
  "only_paid ptr w w' \<Longrightarrow> only_paid ptr w' w'' \<Longrightarrow> length (nodes w') = length (nodes w) \<Longrightarrow>
   only_paid ptr w w''"
  unfolding only_paid_def by metis

lemma length_all_slots: "length (all_slots j w) = Suc (length (fast (nodes w ! j)))"
  by (simp add: all_slots_def)

lemma only_paid_no_new_debts:
  assumes "only_paid ptr w w'"
  shows "no_new_debts ptr w w'"
proof -
  have "length (fast (nodes w' ! j)) = length (fast (nodes w ! j))" for j
    using assms length_all_slots [of j w] length_all_slots [of j w'] by (simp add: only_paid_def)
  then show ?thesis using assms by (auto simp: no_new_debts_def only_paid_def waiting_def)
qed

lemma all_slots_write [simp]: "all_slots j (write_slot s x w) = all_slots j w"
  by (cases s) (auto simp: all_slots_def upd_helping_def nth_update)

lemma slot_ok_heap [simp]: "slot_ok (w\<lparr>heap := h\<rparr>) s = slot_ok w s"
  by (simp add: slot_ok_def split: slot_ref.splits)

lemma read_slot_heap [simp]: "read_slot s (w\<lparr>heap := h\<rparr>) = read_slot s w"
  by (cases s) simp_all

lemma all_slots_heap [simp]: "all_slots j (w\<lparr>heap := h\<rparr>) = all_slots j w"
  by (simp add: all_slots_def)

lemma control_write_slot [simp]:
  "control (helping (nodes (write_slot s x w) ! j)) = control (helping (nodes w ! j))"
  "active_addr (helping (nodes (write_slot s x w) ! j)) = active_addr (helping (nodes w ! j))"
  by (cases s; simp add: upd_helping_def nth_update)+

lemma only_paid_write:
  assumes "slot_ok w s" and "read_slot s w = ptr"
  shows "only_paid ptr w ((write_slot s debt_none w)\<lparr>heap := h\<rparr>)"
  using read_write_slot [OF assms(1), of debt_none] read_write_other [of _ s debt_none w] assms(2)
  by (simp add: only_paid_def) metis

text \<open>
  Paying a list of slots: no slot of the list holds the pointer afterwards, and the ledgers are the
  same, because every debt paid was turned into a counted reference.
\<close>

lemma pay_slots_wp:
  assumes "owns l n u" and "live k (heap u) ptr" and "ptr \<noteq> debt_none"
    and "\<forall>s\<in>set ss. slot_ok u s"
  shows "wp (pay_slots (from_ptr k ptr) ptr ss)
    (\<lambda>_ u'. steady k l n 0 u u' \<and> same_ledger k u u' \<and> only_paid ptr u u' \<and>
       (\<forall>s\<in>set ss. read_slot s u' \<noteq> ptr)) u"
  using assms
proof (induction ss arbitrary: u)
  case Nil
  then show ?case by (simp add: steady_refl same_ledger_refl only_paid_refl)
next
  case (Cons s ss)
  have s: "slot_ok u s" and ss: "\<forall>s\<in>set ss. slot_ok u s" using Cons.prems by auto
  show ?case
  proof (cases "read_slot s u = ptr")
    case False
    have "wp (pay_slots (from_ptr k ptr) ptr ss)
      (\<lambda>_ u'. steady k l n 0 u u' \<and> same_ledger k u u' \<and> only_paid ptr u u' \<and>
         (\<forall>s\<in>set ss. read_slot s u' \<noteq> ptr)) u"
      by (rule Cons.IH [OF Cons.prems(1,2,3) ss])
    then show ?thesis
      using False s Cons.prems(3)
      by (auto simp: wp_debt_pay only_paid_def elim!: wp_mono)
  next
    case True
    let ?u1 = "(write_slot s debt_none u)\<lparr>heap := inc_at k ptr (heap u)\<rparr>"
    have own1: "owns l n ?u1"
      using owns_write_slot [OF Cons.prems(1) s, of debt_none] by (simp add: owns_heap)
    have st1: "steady k l n 0 u ?u1"
      using own1 rc_count_inc_mono [OF Cons.prems(2)] mailed_write_slot [OF s, of debt_none]
        mailed_cong [of ?u1 "write_slot s debt_none u"] by (simp add: steady_def room_def)
    have led1: "same_ledger k u ?u1"
      using ledger_write_slot [OF s, of k debt_none] Cons.prems(2,3) True
        ledger_inc [of k "write_slot s debt_none u" ptr]
      by (simp add: same_ledger_def)
    have paid1: "only_paid ptr u ?u1" by (rule only_paid_write [OF s True])
    have r1: "read_slot s ?u1 = debt_none" using read_write_slot [OF s] by simp
    have "wp (pay_slots (from_ptr k ptr) ptr ss)
      (\<lambda>_ u'. steady k l n 0 ?u1 u' \<and> same_ledger k ?u1 u' \<and> only_paid ptr ?u1 u' \<and>
         (\<forall>s\<in>set ss. read_slot s u' \<noteq> ptr)) ?u1"
      using Cons.IH [OF own1 steady_live [OF st1 Cons.prems(2)] Cons.prems(3)] ss by simp
    then have "wp (pay_slots (from_ptr k ptr) ptr ss)
      (\<lambda>_ u'. steady k l n 0 u u' \<and> same_ledger k u u' \<and> only_paid ptr u u' \<and>
         (\<forall>s\<in>set (s # ss). read_slot s u' \<noteq> ptr)) ?u1"
    proof (rule wp_mono, elim conjE)
      fix u'
      assume a: "steady k l n 0 ?u1 u'" "same_ledger k ?u1 u'" "only_paid ptr ?u1 u'"
        "\<forall>s\<in>set ss. read_slot s u' \<noteq> ptr"
      have "read_slot s u' = debt_none"
        using a(3) r1 s by (auto simp: only_paid_def)
      then show "steady k l n 0 u u' \<and> same_ledger k u u' \<and> only_paid ptr u u' \<and>
         (\<forall>s\<in>set (s # ss). read_slot s u' \<noteq> ptr)"
        using a steady_trans [OF st1 a(1)] same_ledger_trans [OF led1 a(2)]
          only_paid_trans [OF paid1 a(3)] Cons.prems(3) by simp
    qed
    then show ?thesis using True Cons.prems(2) by (simp add: wp_debt_pay wp_t_inc)
  qed
qed

text \<open>One step of the walk: all of the above together.\<close>

definition walk :: "kind \<Rightarrow> usize \<Rightarrow> lid \<Rightarrow> nid \<Rightarrow> nat \<Rightarrow> 'v world \<Rightarrow> 'v world \<Rightarrow> bool" where
  "walk k ptr l n c w w' \<longleftrightarrow> steady k l n c w w' \<and> same_ledger k w w' \<and> no_new_debts ptr w w'"

lemma walk_refl: "owns l n w \<Longrightarrow> walk k ptr l n 0 w w"
  by (simp add: walk_def steady_refl same_ledger_refl no_new_debts_refl)

lemma walk_trans: "walk k ptr l n c w w' \<Longrightarrow> walk k ptr l n d w' w'' \<Longrightarrow> walk k ptr l n (c + d) w w''"
  unfolding walk_def
  by (metis steady_trans same_ledger_trans no_new_debts_trans steadyD(4))

lemma walkD:
  assumes "walk k ptr l n c w w'"
  shows "owns l n w'" "storage w' = storage w" "tls_gone w' = tls_gone w"
    "length (nodes w') = length (nodes w)" "room l (c + d) w \<Longrightarrow> room l d w'"
    "live k (heap w) q \<Longrightarrow> live k (heap w') q" "same_ledger k w w'" "no_new_debts ptr w w'"
  using assms steadyD [of k l n c w w'] steady_live [of k l n c w w' q] by (auto simp: walk_def)

lemma walk_mailed: "walk k ptr l n c w w' \<Longrightarrow> mailed w q \<le> mailed w' q"
  by (simp add: walk_def steady_def)

lemma walk_clear:
  assumes nn: "no_new_debts ptr w w'" and j: "j < length (nodes w)"
  shows "\<not> waiting a (nodes w ! j) \<Longrightarrow> \<not> waiting a (nodes w' ! j)"
    and "p \<noteq> debt_none \<Longrightarrow> p \<notin> set (node_slots (nodes w ! j)) \<Longrightarrow> p \<notin> set (node_slots (nodes w' ! j))"
proof -
  show "\<not> waiting a (nodes w ! j) \<Longrightarrow> \<not> waiting a (nodes w' ! j)"
    using nn j by (auto simp: no_new_debts_def)
  have "all_slots j w' = all_slots j w" using nn j by (simp add: no_new_debts_def all_slots_def)
  then show "p \<noteq> debt_none \<Longrightarrow> p \<notin> set (node_slots (nodes w ! j)) \<Longrightarrow> p \<notin> set (node_slots (nodes w' ! j))"
    using nn all_slots_ok [OF j] by (auto simp: node_slots_refs no_new_debts_def)
qed

lemma walk_active_writers:
  assumes own: "owns l n w" and m: "m < length (nodes w)"
  shows "walk k ptr l n 0 w (upd_node m (\<lambda>nd. nd\<lparr>active_writers := g nd\<rparr>) w)"
proof -
  let ?w = "upd_node m (\<lambda>nd. nd\<lparr>active_writers := g nd\<rparr>) w"
  have "node_ok (nodes w ! m)" by (rule wf_nodeD [OF ownsD(1) [OF own] m])
  then have "owns l n ?w"
    using ownsD(5) [OF own] by (intro owns_upd_node [OF own m]) (simp_all add: node_ok_def)
  moreover have "no_new_debts ptr w ?w"
    by (rule same_slots_no_new_debts)
      (auto simp: nth_update node_slots_def waiting_def split: if_splits)
  moreover have "same_ledger k w ?w"
    using owed_upd_node [OF m] mailed_upd_node [OF m]
    by (simp add: same_ledger_def ledger_def node_owed_def node_slots_def node_mailed_def)
  moreover have "mailed ?w q = mailed w q" for q
    using mailed_upd_node [OF m, of "\<lambda>nd. nd\<lparr>active_writers := g nd\<rparr>" q] by (simp add: node_mailed_def)
  ultimately show ?thesis by (simp add: walk_def steady_def room_def)
qed

lemma wp_reserve_writer: "wp (reserve_writer n) Q w \<longleftrightarrow>
    Q () (upd_node n (\<lambda>nd. nd\<lparr>active_writers := active_writers nd + 1\<rparr>) w)"
  by (simp add: reserve_writer_def)

lemma wp_release_writer: "wp (release_writer n) Q w \<longleftrightarrow>
    Q () (upd_node n (\<lambda>nd. nd\<lparr>active_writers := active_writers nd - 1\<rparr>) w)"
  by (simp add: release_writer_def)

context replacement_source
begin

lemma visit_node_wp:
  assumes own: "owns (Thread t) n u" and alive: "\<not> tls_gone u t" and st: "storage u a = Some p"
    and room: "room (Thread t) 1 u" and live: "live k (heap u) p" and m: "m < length (nodes u)"
    and ptr: "live k (heap u) ptr" "ptr \<noteq> debt_none"
  shows "wp (visit_node (Thread t) (from_ptr k ptr) ptr a replacement m)
    (\<lambda>r u'. r = None \<and> walk k ptr (Thread t) n 1 u u' \<and>
       ptr \<notin> set (node_slots (nodes u' ! m)) \<and> \<not> waiting a (nodes u' ! m)) u"
proof -
  let ?l = "Thread t"
  let ?u1 = "upd_node m (\<lambda>nd. nd\<lparr>active_writers := active_writers nd + 1\<rparr>) u"
  have w1: "walk k ptr ?l n 0 u ?u1" by (rule walk_active_writers [OF own m])
  note d1 = walkD [OF w1]
  have hlp: "wp (helping_help n m a replacement)
      (\<lambda>_ u'. walk k ptr ?l n 1 ?u1 u' \<and> \<not> waiting a (nodes u' ! m)) ?u1"
    using help_wp [OF d1(1), of p m] alive st room live m by (simp add: walk_def room_def conj_ac)
  have pay: "wp (bnd (gets (all_slots m)) (\<lambda>ss. bnd (pay_slots (from_ptr k ptr) ptr ss)
        (\<lambda>_. bnd (release_writer m) (\<lambda>_. ret None))))
      (\<lambda>r u'. r = None \<and> walk k ptr ?l n 1 u u' \<and> ptr \<notin> set (node_slots (nodes u' ! m)) \<and>
         \<not> waiting a (nodes u' ! m)) u2"
    if w2: "walk k ptr ?l n 1 ?u1 u2" and nw: "\<not> waiting a (nodes u2 ! m)" for u2
  proof -
    note d2 = walkD [OF w2]
    have m2: "m < length (nodes u2)" using d2(4) m by simp
    have l2: "live k (heap u2) ptr" using d2(6) ptr(1) by simp
    have paid: "wp (pay_slots (from_ptr k ptr) ptr (all_slots m u2))
        (\<lambda>_ u'. walk k ptr ?l n 0 u2 u' \<and> only_paid ptr u2 u' \<and>
           (\<forall>s\<in>set (all_slots m u2). read_slot s u' \<noteq> ptr)) u2"
      using pay_slots_wp [OF d2(1) l2 ptr(2), of "all_slots m u2"] all_slots_ok [OF m2]
      by (auto simp: walk_def elim!: wp_mono dest: only_paid_no_new_debts)
    have fin: "wp (bnd (release_writer m) (\<lambda>_. ret None))
        (\<lambda>r u'. r = None \<and> walk k ptr ?l n 1 u u' \<and> ptr \<notin> set (node_slots (nodes u' ! m)) \<and>
           \<not> waiting a (nodes u' ! m)) u3"
      if w3: "walk k ptr ?l n 0 u2 u3" and op: "only_paid ptr u2 u3"
        and rd: "\<forall>s\<in>set (all_slots m u2). read_slot s u3 \<noteq> ptr" for u3 :: "'v world"
    proof -
      let ?u4 = "upd_node m (\<lambda>nd. nd\<lparr>active_writers := active_writers nd - 1\<rparr>) u3"
      have m3: "m < length (nodes u3)" using walkD(4) [OF w3] m2 by simp
      have w4: "walk k ptr ?l n 0 u3 ?u4" by (rule walk_active_writers [OF walkD(1) [OF w3] m3])
      have "ptr \<notin> set (node_slots (nodes u3 ! m))"
        using rd op by (auto simp: node_slots_refs only_paid_def)
      then have "ptr \<notin> set (node_slots (nodes ?u4 ! m))"
        by (rule walk_clear(2) [OF walkD(8) [OF w4] m3 ptr(2)])
      moreover have "\<not> waiting a (nodes ?u4 ! m)"
        by (intro walk_clear(1) [OF walkD(8) [OF w4] m3] walk_clear(1) [OF walkD(8) [OF w3] m2] nw)
      moreover have "walk k ptr ?l n 1 u ?u4"
        using walk_trans [OF walk_trans [OF w1 w2] walk_trans [OF w3 w4]] by simp
      ultimately show ?thesis unfolding wp_bnd wp_release_writer wp_ret by blast
    qed
    show ?thesis
      unfolding wp_bnd [of "gets (all_slots m)"] wp_gets wp_bnd [of "pay_slots v p s" for v p s]
      by (rule wp_mono [OF paid]) (use fin in blast)
  qed
  have "wp (bnd (helping_help n m a replacement) (\<lambda>_. bnd (gets (all_slots m)) (\<lambda>ss.
        bnd (pay_slots (from_ptr k ptr) ptr ss) (\<lambda>_. bnd (release_writer m) (\<lambda>_. ret None)))))
      (\<lambda>r u'. r = None \<and> walk k ptr ?l n 1 u u' \<and> ptr \<notin> set (node_slots (nodes u' ! m)) \<and>
         \<not> waiting a (nodes u' ! m)) ?u1"
    unfolding wp_bnd [of "helping_help n m a replacement"]
    by (rule wp_mono [OF hlp]) (use pay in blast)
  then show ?thesis
    unfolding visit_node_def wp_bnd [of "reserve_writer m"] wp_reserve_writer local_help_def bnd_assoc
      wp_bnd [of "own_node (Thread t)"] wp_own_node [OF d1(1)] .
qed

end

lemma no_new_debts_heap:
  "no_new_debts ptr w (w'\<lparr>heap := h\<rparr>) \<longleftrightarrow> no_new_debts ptr w w'"
  "no_new_debts ptr (w\<lparr>heap := h\<rparr>) w' \<longleftrightarrow> no_new_debts ptr w w'"
  by (simp_all add: no_new_debts_def)

lemma extended_heap: "extended w (w'\<lparr>heap := h\<rparr>) \<longleftrightarrow> extended w w'"
  by (simp add: extended_def)

lemma undisturbed_no_new_debts: "undisturbed l w w' \<Longrightarrow> no_new_debts ptr w w'"
  by (rule same_slots_no_new_debts) (simp_all add: undisturbed_def node_slots_def waiting_def)

lemma no_new_debts_extend:
  assumes "no_new_debts ptr w w'" and "no_new_debts ptr w' w''" and "extended w w'"
  shows "no_new_debts ptr w w''"
proof -
  have "slot_ok w' s" if "slot_ok w s" for s
    using that assms(1,3) by (cases s) (auto simp: slot_ok_def no_new_debts_def extended_def)
  then show ?thesis
    using assms unfolding no_new_debts_def extended_def by (metis order_less_le_trans)
qed

lemma blank_no_new_debts:
  assumes "blank (nodes w ! j)" and "no_new_debts ptr w w'" and "j < length (nodes w)"
  shows "blank (nodes w' ! j)"
proof -
  have "set (node_slots (nodes w' ! j)) \<subseteq> {debt_none}"
    using assms walk_clear(2) [OF assms(2,3)] by (auto simp: blank_def)
  then show ?thesis
    using assms by (auto simp: blank_def no_new_debts_def node_slots_def)
qed

lemma extended_no_new_debts:
  "extended w w' \<Longrightarrow> no_new_debts ptr w' w'' \<Longrightarrow> length (nodes w'') = length (nodes w') \<Longrightarrow>
   extended w w''"
  by (auto simp: extended_def intro: blank_no_new_debts)

text \<open>
  What the walk achieves: no debt on the pointer and no reader waiting for the storage is left in the whole
  list, the debts on other pointers are untouched, the ledgers are as they were, and no count went down.
\<close>

definition debts_settled :: "kind \<Rightarrow> tid \<Rightarrow> usize \<Rightarrow> usize \<Rightarrow> 'v world \<Rightarrow> 'v world \<Rightarrow> bool" where
  "debts_settled k t ptr a w w' \<longleftrightarrow>
     (\<exists>n. owns (Thread t) n w') \<and> storage w' = storage w \<and> tls_gone w' = tls_gone w \<and>
     rwlocks w' = rwlocks w \<and> place w' = place w \<and> temps w' = temps w \<and>
     (\<forall>l. l \<noteq> Thread t \<longrightarrow> locals w' l = locals w l) \<and>
     length (spurious w') \<le> length (spurious w) \<and> extended w w' \<and>
     length (nodes w') \<le> (if ln_node (locals w (Thread t)) = None then Suc (length (nodes w)) else length (nodes w)) \<and>
     same_ledger k w w' \<and>
     (\<forall>q. rc_count k (heap w) q \<le> rc_count k (heap w') q) \<and> (\<forall>q. mailed w q \<le> mailed w' q) \<and>
     no_new_debts ptr w w' \<and>
     (\<forall>nd\<in>set (nodes w'). ptr \<notin> set (node_slots nd) \<and> \<not> waiting a nd) \<and>
     (\<forall>d. room (Thread t) (length (nodes w') + d) w \<longrightarrow> room (Thread t) d w')"

context replacement_source
begin

lemma traverse_visits_wp:
  assumes own: "owns (Thread t) n u" and alive: "\<not> tls_gone u t" and st: "storage u a = Some p"
    and room: "room (Thread t) (length (nodes u)) u" and live: "live k (heap u) p"
    and ptr: "live k (heap u) ptr" "ptr \<noteq> debt_none"
  shows "wp (traverse (visit_node (Thread t) (from_ptr k ptr) ptr a replacement))
    (\<lambda>_ u'. walk k ptr (Thread t) n (length (nodes u)) u u' \<and>
       (\<forall>nd\<in>set (nodes u'). ptr \<notin> set (node_slots nd) \<and> \<not> waiting a nd)) u"
proof -
  let ?N = "length (nodes u)"
  define I where "I i v \<longleftrightarrow> walk k ptr (Thread t) n (?N - i) u v \<and>
      (\<forall>j. i \<le> j \<and> j < ?N \<longrightarrow> ptr \<notin> set (node_slots (nodes v ! j)) \<and> \<not> waiting a (nodes v ! j))"
    for i and v :: "'v world"
  have "wp (visit_node (Thread t) (from_ptr k ptr) ptr a replacement i)
      (\<lambda>r v'. case r of Some x \<Rightarrow> False
         | None \<Rightarrow> I i v' \<and> next_node (nodes v' ! i) = (if i = 0 then None else Some (i - 1))) v"
    if i: "i < ?N" and Iv: "I (Suc i) v" for i v
  proof -
    have w: "walk k ptr (Thread t) n (?N - Suc i) u v"
      and fin: "\<forall>j. Suc i \<le> j \<and> j < ?N \<longrightarrow>
          ptr \<notin> set (node_slots (nodes v ! j)) \<and> \<not> waiting a (nodes v ! j)"
      using Iv by (auto simp: I_def)
    note d = walkD [OF w]
    have "room (Thread t) 1 v"
      by (rule d(5)) (rule room_mono [OF room], use i in simp)
    then have "wp (visit_node (Thread t) (from_ptr k ptr) ptr a replacement i)
      (\<lambda>r v'. r = None \<and> walk k ptr (Thread t) n 1 v v' \<and>
         ptr \<notin> set (node_slots (nodes v' ! i)) \<and> \<not> waiting a (nodes v' ! i)) v"
      using visit_node_wp [OF d(1)] d(2,3,4,6) alive st live ptr i by simp
    then show ?thesis
    proof (rule wp_mono)
      fix r v'
      assume a: "r = None \<and> walk k ptr (Thread t) n 1 v v' \<and>
         ptr \<notin> set (node_slots (nodes v' ! i)) \<and> \<not> waiting a (nodes v' ! i)"
      then have w': "walk k ptr (Thread t) n 1 v v'" by simp
      have "walk k ptr (Thread t) n (?N - i) u v'"
        using walk_trans [OF w w'] i by (simp add: Suc_diff_Suc)
      moreover have "ptr \<notin> set (node_slots (nodes v' ! j)) \<and> \<not> waiting a (nodes v' ! j)"
        if "i \<le> j" "j < ?N" for j
        using a fin that d(4) walk_clear [OF walkD(8) [OF w'], of j] ptr(2) by (cases "j = i") auto
      moreover have "next_node (nodes v' ! i) = (if i = 0 then None else Some (i - 1))"
        using ownsD(1) [OF walkD(1) [OF w']] walkD(4) [OF w'] d(4) i
        by (simp add: wf_world_def chained_def)
      ultimately show "case r of Some x \<Rightarrow> False
         | None \<Rightarrow> I i v' \<and> next_node (nodes v' ! i) = (if i = 0 then None else Some (i - 1))"
        using a by (simp add: I_def)
    qed
  qed
  moreover have "I ?N u" using walk_refl [OF own] by (auto simp: I_def)
  moreover have "chained u" using ownsD(1) [OF own] by (simp add: wf_world_def)
  ultimately have "wp (traverse (visit_node (Thread t) (from_ptr k ptr) ptr a replacement))
      (\<lambda>r v'. case r of Some x \<Rightarrow> False | None \<Rightarrow> I 0 v') u"
    by (intro traverse_wp [where I = I])
  then show ?thesis
    by (rule wp_mono) (auto simp: I_def all_set_conv_all_nth walkD(4) split: option.splits)
qed

theorem pay_all_wp:
  assumes wf: "wf_world w" and rest: "at_rest (Thread t) w" and alive: "\<not> tls_gone w t"
    and grow: "ln_node (locals w (Thread t)) = None \<Longrightarrow> can_grow w"
    and st: "storage w a = Some p" and live: "live k (heap w) p"
    and ptr: "live k (heap w) ptr" "ptr \<noteq> debt_none"
    and room: "room (Thread t) (Suc (length (nodes w))) w"
  shows "wp (pay_all k t ptr a replacement) (\<lambda>_ w'. debts_settled k t ptr a w w') w"
  unfolding pay_all_def
proof (rule local_with_wp [OF wf rest alive grow])
  fix n u
  assume own: "owns (Thread t) n u" and und: "undisturbed (Thread t) w u"
  let ?l = "Thread t" and ?u1 = "u\<lparr>heap := inc_at k ptr (heap u)\<rparr>"
  have u: "heap u = heap w" "storage u = storage w" "tls_gone u = tls_gone w" "rwlocks u = rwlocks w"
    "place u = place w" "temps u = temps w" "\<forall>l. l \<noteq> ?l \<longrightarrow> locals u l = locals w l"
    "extended w u" "length (nodes u) \<le> Suc (length (nodes w))"
    using und by (auto simp: undisturbed_def)
  have lu: "ln_node (locals w ?l) \<noteq> None \<longrightarrow> length (nodes u) = length (nodes w)"
    and sp: "length (spurious u) \<le> length (spurious w)"
    using und by (auto simp: undisturbed_def)
  have own1: "owns ?l n ?u1" using own by (simp add: owns_heap)
  have up: "rc_count k (heap w) q \<le> rc_count k (heap ?u1) q" for q
    using rc_count_inc_mono [OF ptr(1)] by (simp add: u)
  have live1: "live k (heap ?u1) q" if "live k (heap w) q" for q
    using that up [of q] by (auto simp: live_def)
  have rm: "room ?l c w \<Longrightarrow> room ?l c ?u1" for c
    using undisturbed_room [OF und, of c] by (simp add: room_def)
  have "wp (traverse (visit_node ?l (from_ptr k ptr) ptr a replacement))
    (\<lambda>_ u'. walk k ptr ?l n (length (nodes u)) ?u1 u' \<and>
       (\<forall>nd\<in>set (nodes u'). ptr \<notin> set (node_slots nd) \<and> \<not> waiting a nd)) ?u1"
    using traverse_visits_wp [OF own1, of p ptr] alive st live1 [OF live] live1 [OF ptr(1)] ptr(2) u
      rm [OF room_mono [OF room u(9)]] by simp
  then have "wp (traverse (visit_node ?l (from_ptr k ptr) ptr a replacement))
    (\<lambda>_ u'. live k (heap u') ptr \<and>
       debts_settled k t ptr a w (u'\<lparr>heap := dec_at k ptr (heap u')\<rparr>)) ?u1"
  proof (rule wp_mono, elim conjE)
    fix u' assume wk: "walk k ptr ?l n (length (nodes u)) ?u1 u'"
      and clr: "\<forall>nd\<in>set (nodes u'). ptr \<notin> set (node_slots nd) \<and> \<not> waiting a nd"
    note d = walkD [OF wk]
    have lv: "live k (heap u') ptr" using d(6) live1 [OF ptr(1)] by simp
    have mono: "rc_count k (heap ?u1) q \<le> rc_count k (heap u') q" for q
      using wk by (simp add: walk_def steady_def)
    have "ledger k (u'\<lparr>heap := dec_at k ptr (heap u')\<rparr>) q = ledger k w q"
      if "q \<noteq> debt_none" "counted k q" for q
      using ledger_dec [OF lv that(2)] d(7) that ledger_inc [of k u ptr q] ptr(1)
        undisturbed_ledger [OF und that(1), of k] by (simp add: u same_ledger_def)
    moreover have "rc_count k (heap w) q \<le> rc_count k (dec_at k ptr (heap u')) q" for q
      using rc_count_dec_at [OF lv, of q] rc_count_inc_at [OF ptr(1), of q] mono [of q]
      by (simp add: u split: if_splits)
    moreover have "mailed w q \<le> mailed (u'\<lparr>heap := dec_at k ptr (heap u')\<rparr>) q" for q
    proof -
      have "mailed u q \<le> mailed u' q"
        using walk_mailed [OF wk, of q] mailed_cong [of ?u1 u q] by simp
      then show ?thesis
        using und mailed_cong [of "u'\<lparr>heap := dec_at k ptr (heap u')\<rparr>" u' q]
        by (simp add: undisturbed_def)
    qed
    moreover have "room ?l e (u'\<lparr>heap := dec_at k ptr (heap u')\<rparr>)"
      if "room ?l (length (nodes u') + e) w" for e
      using d(5) [of e] rm [OF that] d(4) by (simp add: room_def)
    moreover have "no_new_debts ptr w (u'\<lparr>heap := dec_at k ptr (heap u')\<rparr>)"
      and "extended w (u'\<lparr>heap := dec_at k ptr (heap u')\<rparr>)"
      using undisturbed_no_new_debts [OF und, of ptr] extended_no_new_debts [OF u(8), of ptr u'] d(8) d(4)
        no_new_debts_extend [of ptr w u u'] u(8)
      by (simp_all add: no_new_debts_heap extended_heap)
    ultimately show "live k (heap u') ptr \<and>
        debts_settled k t ptr a w (u'\<lparr>heap := dec_at k ptr (heap u')\<rparr>)"
      using lv clr d(1,2,3,4) u lu sp wk
      by (auto simp: debts_settled_def same_ledger_def owns_heap walk_def steady_def)
  qed
  then show "wp (let val = from_ptr k ptr in bnd (t_inc val) (\<lambda>_.
      bnd (traverse (visit_node ?l val ptr a replacement)) (\<lambda>_. t_drop val)))
      (\<lambda>_ w'. debts_settled k t ptr a w w') u"
    using ptr(1) by (simp add: Let_def wp_t_inc wp_t_drop u(1))
qed

end

end
