(* ===== verification/Hybrid.thy ===== *)
theory Hybrid
  imports Debt
begin

text \<open>
  The hybrid strategy (strategy/hybrid.rs): a protected pointer is covered by a debt or owns a
  reference; loads try a fast slot and fall back to the helping slot; writers pay all debts.
\<close>

section \<open>Protected pointers\<close>

record protection =
  debt :: "slot_ref option"
  prot_ptr :: smart

definition protection_new :: "kind \<Rightarrow> usize \<Rightarrow> slot_ref option \<Rightarrow> protection" where
  "protection_new k p d = \<lparr>debt = d, prot_ptr = from_ptr k p\<rparr>"

definition from_inner :: "smart \<Rightarrow> protection" where
  "from_inner v = \<lparr>debt = None, prot_ptr = v\<rparr>"

definition protection_as_ptr :: "protection \<Rightarrow> usize" where
  "protection_as_ptr g = as_ptr (prot_ptr g)"

definition protection_drop :: "protection \<Rightarrow> ('v world, unit) op" where
  "protection_drop g =
     (case debt g of
        None \<Rightarrow> t_drop (prot_ptr g)
      | Some d \<Rightarrow>
          bnd (debt_pay d (as_ptr (prot_ptr g))) (\<lambda>paid.
          if paid then ret () else t_drop (prot_ptr g)))"

definition protection_into_inner :: "kind \<Rightarrow> protection \<Rightarrow> ('v world, smart) op" where
  "protection_into_inner k g =
     bnd (case debt g of
            None \<Rightarrow> ret ()
          | Some d \<Rightarrow>
              bnd (t_inc (prot_ptr g)) (\<lambda>ptr.
              bnd (debt_pay d ptr) (\<lambda>paid.
              if paid then ret () else t_dec k ptr))) (\<lambda>_.
     ret (prot_ptr g))"

section \<open>Loading\<close>

definition attempt :: "kind \<Rightarrow> lid \<Rightarrow> usize \<Rightarrow> ('v world, protection option) op" where
  "attempt k l a =
     bnd (ptr_load a) (\<lambda>ptr.
     bnd (new_fast l ptr) (\<lambda>r.
     case r of
       None \<Rightarrow> ret None
     | Some d \<Rightarrow>
         bnd (ptr_load a) (\<lambda>confirm.
         if ptr = confirm then ret (Some (protection_new k confirm (Some d)))
         else
           bnd (debt_pay d ptr) (\<lambda>paid.
           if paid then ret None else ret (Some (protection_new k ptr None))))))"

definition fallback :: "kind \<Rightarrow> lid \<Rightarrow> usize \<Rightarrow> ('v world, protection) op" where
  "fallback k l a =
     bnd (new_helping l a) (\<lambda>gen.
     bnd (ptr_load a) (\<lambda>candidate.
     bnd (confirm_helping l gen candidate) (\<lambda>r.
     case r of
       Inr d \<Rightarrow>
         bnd (protection_into_inner k (protection_new k candidate (Some d))) (\<lambda>v.
         ret (from_inner v))
     | Inl (unused_debt, replacement) \<Rightarrow>
         bnd (debt_pay unused_debt candidate) (\<lambda>paid.
         bnd (if paid then ret () else t_dec k candidate) (\<lambda>_.
         ret (protection_new k replacement None))))))"

text \<open>\<open>Config::USE_FAST\<close> is the argument \<open>use_fast\<close>: true for the default configuration.\<close>

definition hybrid_load :: "bool \<Rightarrow> kind \<Rightarrow> tid \<Rightarrow> usize \<Rightarrow> ('v world, protection) op" where
  "hybrid_load use_fast k t a =
     local_with t (\<lambda>l.
       bnd (if use_fast then attempt k l a else ret None) (\<lambda>r.
       case r of Some g \<Rightarrow> ret g | None \<Rightarrow> fallback k l a))"

section \<open>Writing\<close>

definition hybrid_replacement :: "bool \<Rightarrow> kind \<Rightarrow> tid \<Rightarrow> usize \<Rightarrow> ('v world, smart) op" where
  "hybrid_replacement use_fast k t a =
     bnd (hybrid_load use_fast k t a) (protection_into_inner k)"

definition wait_for_readers :: "bool \<Rightarrow> kind \<Rightarrow> tid \<Rightarrow> usize \<Rightarrow> usize \<Rightarrow> ('v world, unit) op" where
  "wait_for_readers use_fast k t old a = pay_all k t old a (hybrid_replacement use_fast k t a)"

text \<open>
  The loop of \<open>compare_and_swap\<close>; \<open>current\<close> is the raw pointer of the argument. \<open>new\<close> is dropped
  when it did not go in.
\<close>

fun cas_loop ::
  "nat \<Rightarrow> bool \<Rightarrow> kind \<Rightarrow> tid \<Rightarrow> usize \<Rightarrow> usize \<Rightarrow> smart \<Rightarrow> ('v world, protection) op" where
  "cas_loop 0 use_fast k t a current new = raise Out_Of_Fuel"
| "cas_loop (Suc fuel) use_fast k t a current new =
     bnd (hybrid_load use_fast k t a) (\<lambda>old.
     if protection_as_ptr old \<noteq> current then bnd (t_drop new) (\<lambda>_. ret old)
     else
       let new_raw = as_ptr new in
       bnd (ptr_cas_weak a current new_raw) (\<lambda>(ok, _).
       if ok then
         bnd (wait_for_readers use_fast k t (protection_as_ptr old) a) (\<lambda>_.
         bnd (t_dec k (protection_as_ptr old)) (\<lambda>_.
         ret old))
       else
         bnd (protection_drop old) (\<lambda>_.
         cas_loop fuel use_fast k t a current new)))"

definition hybrid_compare_and_swap ::
  "bool \<Rightarrow> kind \<Rightarrow> tid \<Rightarrow> usize \<Rightarrow> usize \<Rightarrow> smart \<Rightarrow> ('v world, protection) op" where
  "hybrid_compare_and_swap use_fast k t a current new =
     bnd (gets (\<lambda>w. length (spurious w))) (\<lambda>sp.
     cas_loop (Suc sp) use_fast k t a current new)"

section \<open>Loading without interference\<close>

lemma from_inner_from_ptr [simp]: "from_inner (from_ptr k p) = protection_new k p None"
  by (simp add: from_inner_def protection_new_def)

lemma protection_new_simps [simp]:
  "debt (protection_new k p d) = d" "prot_ptr (protection_new k p d) = from_ptr k p"
  "protection_as_ptr (protection_new k p d) = p"
  by (simp_all add: protection_new_def protection_as_ptr_def)

text \<open>The two worlds a load can end in.\<close>

definition after_fast :: "lid \<Rightarrow> nid \<Rightarrow> nat \<Rightarrow> usize \<Rightarrow> 'v world \<Rightarrow> 'v world" where
  "after_fast l n j p w =
     upd_local l (\<lambda>ln. ln\<lparr>ln_fast := (ln_fast ln)\<lparr>offset := j + 1\<rparr>\<rparr>) (write_slot (FastSlot n j) p w)"

definition after_fallback :: "kind \<Rightarrow> lid \<Rightarrow> nid \<Rightarrow> usize \<Rightarrow> usize \<Rightarrow> 'v world \<Rightarrow> 'v world" where
  "after_fallback k l n a p w =
     (upd_local l (\<lambda>ln. ln\<lparr>ln_helping := (ln_helping ln)\<lparr>generation := generation (ln_helping ln) + 4\<rparr>\<rparr>)
        (upd_helping n (\<lambda>hs. hs\<lparr>active_addr := a\<rparr>) w))\<lparr>heap := inc_at k p (heap w)\<rparr>"

text \<open>
  A fast slot is free: the load leaves the debt there. Otherwise the attempt changes nothing.
\<close>

lemma attempt_owned:
  assumes own: "owns l n w" and st: "storage w a = Some p"
  shows "wp (attempt k l a) Q w \<longleftrightarrow>
    (case fast_get_debt p (fast (nodes w ! n)) (ln_fast (locals w l)) of
       (Some j, _, _) \<Rightarrow> Q (Some (protection_new k p (Some (FastSlot n j)))) (after_fast l n j p w)
     | (None, _, _) \<Rightarrow> Q None w)"
proof -
  obtain r slots fl where d: "fast_get_debt p (fast (nodes w ! n)) (ln_fast (locals w l)) = (r, slots, fl)"
    by (cases "fast_get_debt p (fast (nodes w ! n)) (ln_fast (locals w l))")
  show ?thesis
  proof (cases r)
    case None
    have "upd_local l (\<lambda>ln. ln\<lparr>ln_fast := fl\<rparr>) (upd_node n (\<lambda>nd. nd\<lparr>fast := slots\<rparr>) w) = w"
      using fast_get_debt_unchanged [OF d [unfolded None]]
      by (cases w) (simp add: upd_local_def upd_node_def fun_upd_idem list_update_same_conv)
    then show ?thesis
      using d None st by (simp add: attempt_def wp_ptr_load wp_new_fast [OF own])
  next
    case (Some j)
    have "upd_local l (\<lambda>ln. ln\<lparr>ln_fast := fl\<rparr>) (upd_node n (\<lambda>nd. nd\<lparr>fast := slots\<rparr>) w)
        = after_fast l n j p w"
      using fast_get_debt_Some [OF d [unfolded Some]]
      by (simp add: after_fast_def upd_node_def upd_local_def)
    then show ?thesis
      using d Some st
      by (simp add: attempt_def wp_ptr_load wp_new_fast [OF own] after_fast_def)
  qed
qed

lemma fallback_owned:
  assumes own: "owns l n w" and st: "storage w a = Some p" and room: "room l (Suc c) w"
    and live: "live k (heap w) p"
  shows "wp (fallback k l a) Q w \<longleftrightarrow> Q (protection_new k p None) (after_fallback k l n a p w)"
proof -
  let ?hl = "ln_helping (locals w l)" and ?hs = "helping (nodes w ! n)"
  let ?g = "generation ?hl + 4"
  note o = ownsD [OF own]
  have g: "?g \<noteq> 0" using gen_fresh(1) [OF room] .
  have get: "helping_get_debt a ?hs ?hl
      = Inr ((?g OR GEN_TAG, False), ?hs\<lparr>active_addr := a, control := ?g OR GEN_TAG\<rparr>,
             ?hl\<lparr>generation := ?g\<rparr>)"
    using helping_get_debt_idle [OF o(5,8)] g by simp
  have fin: "?hs\<lparr>active_addr := a, control := IDLE, slot := debt_none\<rparr> = ?hs\<lparr>active_addr := a\<rparr>"
    using o(5) by (cases ?hs) (simp add: idle_helping_def)
  have slot: "slot ?hs = debt_none" using o(5) by (simp add: idle_helping_def)
  show ?thesis
    using o(2,3,4) g st live slot
    by (simp add: fallback_def new_helping_def wp_own_node [OF own] get wp_ptr_load confirm_helping_def
        own_node_def helping_confirm_def protection_into_inner_def wp_t_inc wp_debt_pay
        upd_helping_def upd_node_def upd_local_def after_fallback_def fin world_order)
qed

section \<open>The whole load\<close>

text \<open>
  A load of the pointer \<open>p\<close> from \<open>a\<close>: a free fast slot of the node now holds the debt, or there was none
  and the reference was counted.
\<close>

definition loaded ::
  "bool \<Rightarrow> kind \<Rightarrow> usize \<Rightarrow> usize \<Rightarrow> lid \<Rightarrow> nid \<Rightarrow> 'v world \<Rightarrow> protection \<Rightarrow> 'v world \<Rightarrow> bool" where
  "loaded uf k a p l n w g w' \<longleftrightarrow>
     (uf \<and> (\<exists>j<length (fast (nodes w ! n)). fast (nodes w ! n) ! j = debt_none \<and>
        g = protection_new k p (Some (FastSlot n j)) \<and> w' = after_fast l n j p w)) \<or>
     ((uf \<longrightarrow> debt_none \<notin> set (fast (nodes w ! n))) \<and>
        g = protection_new k p None \<and> w' = after_fallback k l n a p w)"

lemma load_owned:
  assumes own: "owns l n w" and st: "storage w a = Some p" and room: "room l (Suc c) w"
    and live: "live k (heap w) p"
  shows "wp (bnd (if uf then attempt k l a else ret None)
              (\<lambda>r. case r of Some g \<Rightarrow> ret g | None \<Rightarrow> fallback k l a)) (loaded uf k a p l n w) w"
proof -
  note fb = fallback_owned [OF own st room live]
  obtain r slots fl where d: "fast_get_debt p (fast (nodes w ! n)) (ln_fast (locals w l)) = (r, slots, fl)"
    by (cases "fast_get_debt p (fast (nodes w ! n)) (ln_fast (locals w l))")
  show ?thesis
  proof (cases "\<not> uf \<or> r = None")
    case True
    have "debt_none \<notin> set (fast (nodes w ! n))" if "uf"
      using fast_get_debt_None [of p "fast (nodes w ! n)" "ln_fast (locals w l)"] d True that
      by (auto simp: in_set_conv_nth)
    then show ?thesis
      using True d by (auto simp: fb attempt_owned [OF own st] loaded_def)
  next
    case False
    then obtain j where r: "r = Some j" and uf by auto
    with d fast_get_debt_Some [OF d [unfolded r]] show ?thesis
      by (auto simp: attempt_owned [OF own st] loaded_def)
  qed
qed

lemma hybrid_load_owned:
  assumes "owns (Thread t) n w" and "\<not> tls_gone w t" and "storage w a = Some p"
    and "room (Thread t) (Suc c) w" and "live k (heap w) p"
  shows "wp (hybrid_load uf k t a) (loaded uf k a p (Thread t) n w) w"
  unfolding hybrid_load_def local_with_owned [OF assms(1,2)]
  by (rule load_owned [OF assms(1,3,4,5)])

lemma owns_after_fast:
  assumes "owns l n w" and "j < length (fast (nodes w ! n))"
  shows "owns l n (after_fast l n j p w)"
proof -
  have "slot_ok w (FastSlot n j)"
    using assms(2) ownsD(3) [OF assms(1)] by (simp add: slot_ok_def)
  then have "owns l n (write_slot (FastSlot n j) p w)"
    by (intro owns_write_slot [OF assms(1)]) simp_all
  then show ?thesis
    unfolding after_fast_def by (rule owns_upd_local) (simp_all add: ownsD(8) [OF assms(1)])
qed

lemma owns_after_fallback:
  assumes own: "owns l n w"
  shows "owns l n (after_fallback k l n a p w)"
proof -
  have "owns l n (upd_helping n (\<lambda>hs. hs\<lparr>active_addr := a\<rparr>) w)"
    unfolding upd_helping_def using ownsD(5,6) [OF own]
    by (intro owns_upd_node [OF own ownsD(3) [OF own]])
      (simp_all add: node_ok_def idle_helping_def offer_def)
  then have "owns l n (upd_local l (\<lambda>ln. ln\<lparr>ln_helping := (ln_helping ln)
      \<lparr>generation := generation (ln_helping ln) + 4\<rparr>\<rparr>) (upd_helping n (\<lambda>hs. hs\<lparr>active_addr := a\<rparr>) w))"
    using ownsD(8) [OF own]
    by (intro owns_upd_local) (simp_all add: tag_defs)
  then show ?thesis
    by (simp only: owns_heap after_fallback_def)
qed

lemma loaded_owns: "owns l n w \<Longrightarrow> loaded uf k a p l n w g w' \<Longrightarrow> owns l n w'"
  by (auto simp: loaded_def owns_after_fast owns_after_fallback)

lemma ledger_upd_local [simp]: "ledger k (upd_local l f w) q = ledger k w q"
  by (rule ledger_cong) simp_all

lemma ledger_upd_helping_addr:
  assumes "n < length (nodes w)"
  shows "ledger k (upd_helping n (\<lambda>hs. hs\<lparr>active_addr := a\<rparr>) w) q = ledger k w q"
  using owed_upd_node [OF assms] mailed_upd_node [OF assms]
  by (simp add: upd_helping_def ledger_def node_owed_def node_slots_def node_mailed_def)

text \<open>A load adds one reference to the ledger of the pointer it returns, whichever way it went.\<close>

lemma loaded_ledger:
  assumes own: "owns l n w" and ld: "loaded uf k a p l n w g w'" and live: "live k (heap w) p"
    and q: "q \<noteq> debt_none" "counted k q"
  shows "ledger k w' q = ledger k w q + (if q = p then 1 else 0)"
  using ld unfolding loaded_def
proof (elim disjE conjE exE)
  fix j assume "j < length (fast (nodes w ! n))" and "fast (nodes w ! n) ! j = debt_none"
    and "w' = after_fast l n j p w"
  then show ?thesis
    using q ownsD(3) [OF own]
    by (simp add: after_fast_def ledger_write_slot slot_ok_def del: write_slot.simps)
next
  assume "w' = after_fallback k l n a p w"
  then show ?thesis
    using ledger_inc [of k "upd_local l f (upd_helping n g w)" p q for f g] live q ownsD(3) [OF own]
    by (simp add: after_fallback_def ledger_upd_helping_addr)
qed

section \<open>The closure a writer helps with\<close>

text \<open>Turning the protection of a load into an owned pointer: the debt is paid with a new count.\<close>

lemma into_inner_loaded:
  assumes own: "owns l n w" and ld: "loaded uf k a p l n w g w'" and live: "live k (heap w) p"
  shows "wp (protection_into_inner k g) (\<lambda>v u. v = from_ptr k p \<and> fetched k p l n w u) w'"
  using ld unfolding loaded_def
proof (elim disjE conjE exE)
  fix j
  assume j: "j < length (fast (nodes w ! n))" and none: "fast (nodes w ! n) ! j = debt_none"
    and g: "g = protection_new k p (Some (FastSlot n j))" and w': "w' = after_fast l n j p w"
  have n: "n < length (nodes w)" by (rule ownsD(3) [OF own])
  have restored: "(fast (nodes w ! n))[j := debt_none] = fast (nodes w ! n)"
    using none j by (metis list_update_id)
  have "fetched k p l n w (write_slot (FastSlot n j) debt_none (w'\<lparr>heap := inc_at k p (heap w)\<rparr>))"
    unfolding fetched_def
    by (rule exI [of _ "active_addr (helping (nodes w ! n))"],
        rule exI [of _ "(locals w l)\<lparr>ln_fast := (ln_fast (locals w l))\<lparr>offset := j + 1\<rparr>\<rparr>"])
      (simp add: w' after_fast_def upd_node_def upd_local_def n restored world_order)
  moreover have "read_slot (FastSlot n j) w' = p"
    using n j by (simp add: w' after_fast_def)
  ultimately show ?thesis
    using live by (simp add: g w' protection_into_inner_def wp_t_inc wp_debt_pay after_fast_def)
next
  assume g: "g = protection_new k p None" and w': "w' = after_fallback k l n a p w"
  have "fetched k p l n w w'"
    unfolding fetched_def
    by (rule exI [of _ a], rule exI [of _ "(locals w l)\<lparr>ln_helping := (ln_helping (locals w l))
          \<lparr>generation := generation (ln_helping (locals w l)) + 4\<rparr>\<rparr>"])
      (simp add: w' after_fallback_def upd_helping_def upd_node_def upd_local_def world_order)
  then show ?thesis by (simp add: g protection_into_inner_def)
qed

lemma replacement_fetches:
  assumes "owns (Thread t) n u" and "\<not> tls_gone u t" and "storage u a = Some p"
    and "room (Thread t) 1 u" and "live k (heap u) p"
  shows "wp (hybrid_replacement uf k t a) (\<lambda>v u'. v = from_ptr k p \<and> fetched k p (Thread t) n u u') u"
proof -
  have "wp (hybrid_load uf k t a) (loaded uf k a p (Thread t) n u) u"
    by (rule hybrid_load_owned [where c = 0]) (use assms in simp_all)
  then show ?thesis
    unfolding hybrid_replacement_def wp_bnd
    by (rule wp_mono) (rule into_inner_loaded [OF assms(1) _ assms(5)])
qed

interpretation hybrid_source: replacement_source k t a "hybrid_replacement uf k t a" for k t a uf
  by unfold_locales (rule replacement_fetches)

section \<open>Threads that are ready for an operation\<close>

text \<open>
  Between its operations a thread that is not shutting down is ready: its node is at rest, or it has
  none yet and there is room for a new one. \<open>c\<close> bounds the operations to come, each of which uses at
  most one generation for every node and two more.
\<close>

definition node_bound :: "tid \<Rightarrow> 'v world \<Rightarrow> nat" where
  "node_bound t w = length (nodes w) + (if ln_node (locals w (Thread t)) = None then 1 else 0)"

definition ready :: "tid \<Rightarrow> nat \<Rightarrow> 'v world \<Rightarrow> bool" where
  "ready t c w \<longleftrightarrow> wf_world w \<and> at_rest (Thread t) w \<and> \<not> tls_gone w t \<and>
     (ln_node (locals w (Thread t)) = None \<longrightarrow> can_grow w) \<and>
     room (Thread t) (c * (node_bound t w + 2)) w"

lemma ready_mono: "ready t c w \<Longrightarrow> c' \<le> c \<Longrightarrow> ready t c' w"
  unfolding ready_def by (meson mult_le_mono1 room_mono)

lemma owns_ready:
  assumes "owns (Thread t) n w" and "\<not> tls_gone w t"
    and "room (Thread t) (c * (length (nodes w) + 2)) w"
  shows "ready t c w"
  using assms by (simp add: ready_def owns_def at_rest_def node_bound_def)


text \<open>What one operation of a thread leaves to the others: their local data, transactions, locks.\<close>

definition op_frame :: "tid \<Rightarrow> 'v world \<Rightarrow> 'v world \<Rightarrow> bool" where
  "op_frame t w w' \<longleftrightarrow>
     tls_gone w' = tls_gone w \<and> rwlocks w' = rwlocks w \<and> place w' = place w \<and> temps w' = temps w \<and>
     (\<forall>l. l \<noteq> Thread t \<longrightarrow> locals w' l = locals w l) \<and>
     length (spurious w') \<le> length (spurious w) \<and>
     length (nodes w) \<le> length (nodes w') \<and> node_bound t w' \<le> node_bound t w \<and>
     (\<forall>s. slot_ok w s \<longrightarrow> slot_ok w' s) \<and> (wf_world w \<longrightarrow> wf_world w') \<and>
     (\<forall>j<length (nodes w'). (j < length (nodes w) \<longrightarrow> control (helping (nodes w ! j)) = IDLE) \<longrightarrow>
        control (helping (nodes w' ! j)) = IDLE)"

lemma op_frame_refl: "op_frame t w w"
  by (simp add: op_frame_def)

lemma op_frame_trans: "op_frame t w w' \<Longrightarrow> op_frame t w' w'' \<Longrightarrow> op_frame t w w''"
  unfolding op_frame_def by (smt (verit) le_trans order_less_le_trans)

text \<open>The content of a slot, none where there is no slot.\<close>

definition slot_val :: "'v world \<Rightarrow> slot_ref \<Rightarrow> usize" where
  "slot_val w s = (if slot_ok w s then read_slot s w else debt_none)"

definition no_less :: "kind \<Rightarrow> 'v world \<Rightarrow> 'v world \<Rightarrow> bool" where
  "no_less k w w' \<longleftrightarrow> (\<forall>q. rc_count k (heap w) q \<le> rc_count k (heap w') q)"

text \<open>
  The outcome of a load of \<open>p\<close>: one more reference to \<open>p\<close> is on the ledger, and it is either counted or
  recorded in a fast slot that was empty.
\<close>

definition leased :: "kind \<Rightarrow> tid \<Rightarrow> usize \<Rightarrow> slot_ref option \<Rightarrow> 'v world \<Rightarrow> 'v world \<Rightarrow> bool" where
  "leased k t p d w w' \<longleftrightarrow>
     op_frame t w w' \<and> storage w' = storage w \<and>
     heap w' = (if d = None then inc_at k p (heap w) else heap w) \<and>
     (\<forall>q. q \<noteq> debt_none \<longrightarrow> counted k q \<longrightarrow> ledger k w' q = ledger k w q + (if q = p then 1 else 0)) \<and>
     (case d of None \<Rightarrow> slot_val w' = slot_val w
      | Some s \<Rightarrow> slot_val w s = debt_none \<and> slot_val w' = (slot_val w)(s := p) \<and> slot_ok w' s \<and>
          (\<exists>n i. s = FastSlot n i))"

text \<open>The outcome of waiting for readers: no slot holds the old pointer, if the strategy uses slots.\<close>

definition settled :: "kind \<Rightarrow> bool \<Rightarrow> tid \<Rightarrow> usize \<Rightarrow> 'v world \<Rightarrow> 'v world \<Rightarrow> bool" where
  "settled k leases t old w w' \<longleftrightarrow>
     op_frame t w w' \<and> storage w' = storage w \<and> no_less k w w' \<and> same_ledger k w w' \<and>
     (leases \<longrightarrow> counted k old \<longrightarrow> rc_count k (heap w) old + owed w old \<le> rc_count k (heap w') old) \<and>
     (\<forall>s. slot_val w' s = (if leases \<and> slot_val w s = old then debt_none else slot_val w s))"

lemma slot_val_no_new_debts:
  assumes nn: "no_new_debts ptr w w'" and ex: "extended w w'"
  shows "slot_val w' s = slot_val w s \<or> (slot_val w s = ptr \<and> slot_val w' s = debt_none)"
proof (cases "slot_ok w s")
  case True
  have "slot_ok w' s"
    using True nn ex by (cases s) (auto simp: slot_ok_def no_new_debts_def extended_def)
  with True nn show ?thesis by (auto simp: slot_val_def no_new_debts_def)
next
  case False
  have "read_slot s w' = debt_none" if ok: "slot_ok w' s"
  proof (cases s)
    case (FastSlot j i)
    then have "\<not> j < length (nodes w)" using ok False nn by (auto simp: slot_ok_def no_new_debts_def)
    then have "set (fast (nodes w' ! j)) \<subseteq> {debt_none}"
      using ok ex FastSlot by (auto simp: slot_ok_def extended_def blank_def node_slots_def)
    then show ?thesis using ok FastSlot nth_mem by (fastforce simp: slot_ok_def)
  next
    case (HelpSlot j)
    then show ?thesis
      using ok ex False by (auto simp: slot_ok_def extended_def blank_def node_slots_def)
  qed
  with False show ?thesis by (simp add: slot_val_def)
qed

lemma slot_val_clear:
  assumes "\<forall>nd\<in>set (nodes w). p \<notin> set (node_slots nd)" and "p \<noteq> debt_none"
  shows "slot_val w s \<noteq> p"
proof (cases s)
  case (FastSlot j i)
  have "p \<notin> set (fast (nodes w ! j))" if "j < length (nodes w)"
    using that assms by (simp add: node_slots_def)
  then show ?thesis
    using FastSlot assms(2) nth_mem [of i "fast (nodes w ! j)"] by (auto simp: slot_val_def slot_ok_def)
next
  case (HelpSlot j)
  then show ?thesis using assms by (auto simp: slot_val_def slot_ok_def node_slots_def)
qed

section \<open>Loading and waiting, seen from outside\<close>

lemma no_new_debts_slots: "no_new_debts ptr w w' \<Longrightarrow> extended w w' \<Longrightarrow> slot_ok w s \<Longrightarrow> slot_ok w' s"
  by (cases s) (auto simp: slot_ok_def no_new_debts_def extended_def)

lemma undisturbed_frame:
  assumes own: "owns (Thread t) n u" and und: "undisturbed (Thread t) w u"
  shows "op_frame t w u" and "slot_val u = slot_val w" and "node_bound t u \<le> node_bound t w"
proof -
  have ex: "extended w u" using und by (simp add: undisturbed_def)
  show bound: "node_bound t u \<le> node_bound t w"
    using und ownsD(2) [OF own] by (auto simp: undisturbed_def node_bound_def)
  have "control (helping (nodes u ! j)) = IDLE"
    if "j < length (nodes u)" "j < length (nodes w) \<longrightarrow> control (helping (nodes w ! j)) = IDLE" for j
    using that und by (cases "j < length (nodes w)") (auto simp: undisturbed_def extended_def blank_def)
  then show "op_frame t w u"
    using und ex bound ownsD(1) [OF own] no_new_debts_slots [OF undisturbed_no_new_debts [OF und, of debt_none] ex]
    by (simp add: op_frame_def undisturbed_def extended_def)
  show "slot_val u = slot_val w"
    using slot_val_no_new_debts [OF undisturbed_no_new_debts [OF und, of debt_none] ex] by fastforce
qed

lemma slot_val_write:
  "slot_ok w s \<Longrightarrow> slot_val (write_slot s x w) = (slot_val w)(s := x)"
  by (rule ext) (auto simp: slot_val_def read_write_slot read_write_other)

lemma slot_val_cong:
  assumes "length (nodes w') = length (nodes w)"
    and "\<And>j. j < length (nodes w) \<Longrightarrow> node_slots (nodes w' ! j) = node_slots (nodes w ! j)"
  shows "slot_val w' = slot_val w"
proof
  fix s
  have "length (fast (nodes w' ! j)) = length (fast (nodes w ! j))" if "j < length (nodes w)" for j
    using assms(2) [OF that] by (simp add: node_slots_def)
  then have "slot_ok w' s = slot_ok w s" using assms(1) by (cases s) (auto simp: slot_ok_def)
  then show "slot_val w' s = slot_val w s"
    using same_slots_read [OF assms(2), of s] by (simp add: slot_val_def)
qed

lemma loaded_leased:
  assumes own: "owns (Thread t) n w" and ld: "loaded uf k a p (Thread t) n w g w'"
    and live: "live k (heap w) p"
  shows "leased k t p (debt g) w w'"
proof -
  note led = loaded_ledger [OF own ld live]
  show ?thesis
    using ld unfolding loaded_def
  proof (elim disjE conjE exE)
    fix j
    assume j: "j < length (fast (nodes w ! n))" and none: "fast (nodes w ! n) ! j = debt_none"
      and g: "g = protection_new k p (Some (FastSlot n j))" and w': "w' = after_fast (Thread t) n j p w"
    have ok: "slot_ok w (FastSlot n j)" using j ownsD(3) [OF own] by (simp add: slot_ok_def)
    have wf: "wf_world w'" by (rule ownsD(1) [OF loaded_owns [OF own ld]])
    have "slot_val w' = (slot_val w)(FastSlot n j := p)"
      using slot_val_write [OF ok, of p] slot_val_cong [of w' "write_slot (FastSlot n j) p w"]
      by (simp add: w' after_fast_def)
    moreover have "op_frame t w w'"
      using wf by (auto simp: op_frame_def w' after_fast_def node_bound_def nth_update slot_ok_def
          split: if_splits slot_ref.splits)
    ultimately show ?thesis
      using none ok led by (simp add: leased_def g w' after_fast_def slot_val_def slot_ok_def)
  next
    assume g: "g = protection_new k p None" and w': "w' = after_fallback k (Thread t) n a p w"
    have wf: "wf_world w'" by (rule ownsD(1) [OF loaded_owns [OF own ld]])
    have "slot_val w' = slot_val w"
      by (rule slot_val_cong) (auto simp: w' after_fallback_def upd_helping_def nth_update node_slots_def)
    moreover have "op_frame t w w'"
      using wf by (auto simp: op_frame_def w' after_fallback_def upd_helping_def node_bound_def nth_update slot_ok_def
          split: if_splits slot_ref.splits)
    ultimately show ?thesis
      using led by (simp add: leased_def g w' after_fallback_def)
  qed
qed

lemma loaded_room:
  assumes "loaded uf k a p l n w g w'" and "room l (Suc c) w"
  shows "room l c w'"
  using assms gen_fresh(2) [OF assms(2)]
  by (auto simp: loaded_def after_fast_def after_fallback_def room_def)

lemma op_frame_nodes: "op_frame t w w' \<Longrightarrow> owns (Thread t) n w' \<Longrightarrow> length (nodes w') \<le> node_bound t w"
  using ownsD(2) [of "Thread t" n w'] by (simp add: op_frame_def node_bound_def)

lemma leased_frame:
  assumes "op_frame t w u" and "slot_val u = slot_val w" and "storage u = storage w" and "heap u = heap w"
    and "\<And>q. q \<noteq> debt_none \<Longrightarrow> ledger k u q = ledger k w q" and "leased k t p d u w'"
  shows "leased k t p d w w'"
  using assms op_frame_trans [OF assms(1)] by (simp add: leased_def split: option.splits)

theorem hybrid_load_wp:
  assumes r: "ready t (Suc c) w" and st: "storage w a = Some p" and live: "live k (heap w) p"
  shows "wp (hybrid_load uf k t a) (\<lambda>g w'. prot_ptr g = from_ptr k p \<and> leased k t p (debt g) w w' \<and>
      ready t c w') w"
  unfolding hybrid_load_def
proof (rule local_with_wp)
  show "wf_world w" "at_rest (Thread t) w" "\<not> tls_gone w t"
    "ln_node (locals w (Thread t)) = None \<Longrightarrow> can_grow w"
    using r by (auto simp: ready_def)
  fix n u assume own: "owns (Thread t) n u" and und: "undisturbed (Thread t) w u"
  note fr = undisturbed_frame [OF own und]
  have u: "heap u = heap w" "storage u = storage w" "tls_gone u = tls_gone w"
    using und by (auto simp: undisturbed_def)
  have room: "room (Thread t) (Suc (c * (node_bound t w + 2))) u"
    using r by (auto simp: undisturbed_room [OF und] ready_def elim!: room_mono)
  have "wp (bnd (if uf then attempt k (Thread t) a else ret None)
      (\<lambda>r. case r of Some g \<Rightarrow> ret g | None \<Rightarrow> fallback k (Thread t) a)) (loaded uf k a p (Thread t) n u) u"
    by (rule load_owned [OF own _ room]) (use st live u in simp_all)
  then show "wp (bnd (if uf then attempt k (Thread t) a else ret None)
      (\<lambda>r. case r of Some g \<Rightarrow> ret g | None \<Rightarrow> fallback k (Thread t) a))
      (\<lambda>g w'. prot_ptr g = from_ptr k p \<and> leased k t p (debt g) w w' \<and> ready t c w') u"
  proof (rule wp_mono)
    fix g w' assume ld: "loaded uf k a p (Thread t) n u g w'"
    have l: "leased k t p (debt g) u w'"
      by (rule loaded_leased [OF own ld]) (simp add: live u)
    have lw: "leased k t p (debt g) w w'"
      by (rule leased_frame [OF fr(1,2) _ _ _ l]) (simp_all add: u undisturbed_ledger [OF und])
    have own': "owns (Thread t) n w'" by (rule loaded_owns [OF own ld])
    have "length (nodes w') \<le> node_bound t w" "tls_gone w' = tls_gone w"
      using op_frame_nodes [OF _ own', of w] lw by (auto simp: leased_def op_frame_def)
    then have "ready t c w'"
      using r loaded_room [OF ld room]
      by (intro owns_ready [OF own']) (auto simp: ready_def elim!: room_mono intro!: mult_le_mono2)
    moreover have "prot_ptr g = from_ptr k p" using ld by (auto simp: loaded_def)
    ultimately show "prot_ptr g = from_ptr k p \<and> leased k t p (debt g) w w' \<and> ready t c w'"
      using lw by blast
  qed
qed

theorem wait_for_readers_wp:
  assumes r: "ready t (Suc c) w" and st: "storage w a = Some q" and live: "live k (heap w) q"
    and old: "live k (heap w) old" "old \<noteq> debt_none"
  shows "wp (wait_for_readers uf k t old a) (\<lambda>_ w'. settled k True t old w w' \<and> ready t c w') w"
proof -
  have "wp (wait_for_readers uf k t old a) (\<lambda>_ w'. debts_settled k t old a w w') w"
    unfolding wait_for_readers_def
    by (rule hybrid_source.pay_all_wp [OF _ _ _ _ st live old])
      (use r in \<open>auto simp: ready_def node_bound_def elim!: room_mono\<close>)
  then show ?thesis
  proof (rule wp_mono)
    fix w' assume d: "debts_settled k t old a w w'"
    then obtain n where own: "owns (Thread t) n w'" by (auto simp: debts_settled_def)
    have nn: "no_new_debts old w w'" and ex: "extended w w'"
      and clr: "\<forall>nd\<in>set (nodes w'). old \<notin> set (node_slots nd)"
      using d by (auto simp: debts_settled_def)
    have "slot_val w' s = (if slot_val w s = old then debt_none else slot_val w s)" for s
      using slot_val_no_new_debts [OF nn ex, of s] slot_val_clear [OF clr old(2), of s] by auto
    moreover have "rc_count k (heap w) old + owed w old \<le> rc_count k (heap w') old" if "counted k old"
    proof -
      have "owed w' old = 0"
        using clr by (simp add: owed_def node_owed_def count_list_0_iff)
      moreover have "ledger k w' old = ledger k w old" "mailed w old \<le> mailed w' old"
        using d that old(2) by (auto simp: debts_settled_def same_ledger_def)
      ultimately show ?thesis by (simp add: ledger_def)
    qed
    moreover have bound: "length (nodes w') \<le> node_bound t w" "node_bound t w' \<le> node_bound t w"
      using d ownsD(2) [OF own] by (auto simp: debts_settled_def node_bound_def split: if_splits)
    moreover have "control (helping (nodes w' ! j)) = IDLE"
      if "j < length (nodes w')" "j < length (nodes w) \<longrightarrow> control (helping (nodes w ! j)) = IDLE" for j
      using that nn ex by (cases "j < length (nodes w)") (auto simp: no_new_debts_def extended_def blank_def)
    ultimately have "settled k True t old w w'"
      using d ex no_new_debts_slots [OF nn ex] ownsD(1) [OF own]
      by (simp add: settled_def debts_settled_def op_frame_def no_less_def extended_def)
    moreover have "room (Thread t) (c * (length (nodes w') + 2)) w'"
    proof -
      have "length (nodes w') + c * (length (nodes w') + 2) \<le> Suc c * (node_bound t w + 2)"
        using bound(1) mult_le_mono2 [of "length (nodes w') + 2" "node_bound t w + 2" c]
        unfolding mult_Suc by linarith
      then have "room (Thread t) (length (nodes w') + c * (length (nodes w') + 2)) w"
        by (rule room_mono [of _ "Suc c * (node_bound t w + 2)", rotated]) (use r in \<open>simp only: ready_def\<close>)
      then show ?thesis using d by (simp add: debts_settled_def)
    qed
    moreover have "\<not> tls_gone w' t" using d r by (simp add: debts_settled_def ready_def)
    ultimately show "settled k True t old w w' \<and> ready t c w'"
      using owns_ready [OF own] by blast
  qed
qed

section \<open>Giving a protection up\<close>

lemma ready_heap [simp]: "ready t c (w\<lparr>heap := h\<rparr>) \<longleftrightarrow> ready t c w"
  by (simp add: ready_def wf_world_def chained_def offers_ok_def locals_ok_def at_rest_def can_grow_def
      room_def node_bound_def)

lemma ready_storage [simp]: "ready t c (w\<lparr>storage := st\<rparr>) \<longleftrightarrow> ready t c w"
  by (simp add: ready_def wf_world_def chained_def offers_ok_def locals_ok_def at_rest_def can_grow_def
      room_def node_bound_def)

lemma ready_spurious [simp]: "ready t c (w\<lparr>spurious := sp\<rparr>) \<longleftrightarrow> ready t c w"
  by (simp add: ready_def wf_world_def chained_def offers_ok_def locals_ok_def at_rest_def can_grow_def
      room_def node_bound_def)

lemma wf_write_none:
  assumes wf: "wf_world w" and s: "slot_ok w s"
  shows "wf_world (write_slot s debt_none w)"
proof (cases s)
  case (FastSlot m i)
  have "node_ok (nodes w ! m)" using s FastSlot wf_nodeD [OF wf] by (simp add: slot_ok_def)
  then show ?thesis
    using s FastSlot by (auto simp: slot_ok_def node_ok_def intro!: wf_upd_node [OF wf])
next
  case (HelpSlot m)
  have "node_ok (nodes w ! m)" using s HelpSlot wf_nodeD [OF wf] by (simp add: slot_ok_def)
  then show ?thesis
    using s HelpSlot
    by (auto simp: slot_ok_def node_ok_def idle_helping_def offer_def upd_helping_def
        intro!: wf_upd_node [OF wf])
qed

lemma slot_write_none: "slot (helping (nodes w ! j)) = debt_none \<Longrightarrow>
    slot (helping (nodes (write_slot s debt_none w) ! j)) = debt_none"
  by (cases s) (auto simp: upd_helping_def nth_update)

lemma ready_write_none: "ready t c w \<Longrightarrow> slot_ok w s \<Longrightarrow> ready t c (write_slot s debt_none w)"
  using wf_write_none [of w s] slot_write_none [of w _ s]
  by (auto simp: ready_def at_rest_def idle_helping_def can_grow_def room_def node_bound_def)

lemma wf_heap [simp]: "wf_world (w\<lparr>heap := h\<rparr>) = wf_world w"
  by (simp add: wf_world_def chained_def offers_ok_def locals_ok_def)

lemma wf_storage [simp]: "wf_world (w\<lparr>storage := st\<rparr>) = wf_world w"
  by (simp add: wf_world_def chained_def offers_ok_def locals_ok_def)

lemma wf_spurious [simp]: "wf_world (w\<lparr>spurious := sp\<rparr>) = wf_world w"
  by (simp add: wf_world_def chained_def offers_ok_def locals_ok_def)

lemma op_frame_heap: "op_frame t w (w\<lparr>heap := h\<rparr>)"
  by (simp add: op_frame_def node_bound_def)

lemma slot_ok_storage [simp]: "slot_ok (w\<lparr>storage := st\<rparr>) s = slot_ok w s"
  by (simp add: slot_ok_def split: slot_ref.splits)

lemma slot_ok_spurious [simp]: "slot_ok (w\<lparr>spurious := sp\<rparr>) s = slot_ok w s"
  by (simp add: slot_ok_def split: slot_ref.splits)

lemma op_frame_storage: "op_frame t w (w\<lparr>storage := st\<rparr>)"
  by (simp add: op_frame_def node_bound_def)

lemma op_frame_write: "slot_ok w s \<Longrightarrow> op_frame t w (write_slot s debt_none w)"
  by (simp add: op_frame_def node_bound_def wf_write_none)

lemma slot_val_heap [simp]: "slot_val (w\<lparr>heap := h\<rparr>) = slot_val w"
  by (rule slot_val_cong) simp_all

lemma slot_val_storage [simp]: "slot_val (w\<lparr>storage := st\<rparr>) = slot_val w"
  by (rule slot_val_cong) simp_all

lemma slot_val_spurious [simp]: "slot_val (w\<lparr>spurious := sp\<rparr>) = slot_val w"
  by (rule slot_val_cong) simp_all

text \<open>
  A protection that is given up: the debt is paid back if it is still there, a counted reference is
  given back otherwise. Whoever does it, the reference is off the ledger.
\<close>

definition returned :: "kind \<Rightarrow> tid \<Rightarrow> usize \<Rightarrow> slot_ref option \<Rightarrow> 'v world \<Rightarrow> 'v world \<Rightarrow> bool" where
  "returned k t p d w w' \<longleftrightarrow>
     op_frame t w w' \<and> storage w' = storage w \<and>
     (\<forall>q. q \<noteq> debt_none \<longrightarrow> counted k q \<longrightarrow> ledger k w' q = ledger k w q - (if q = p then 1 else 0)) \<and>
     (if \<exists>s. d = Some s \<and> slot_val w s = p
      then heap w' = heap w \<and> slot_val w' = (slot_val w)(the d := debt_none)
      else heap w' = dec_at k p (heap w) \<and> slot_val w' = slot_val w)"

lemma protection_drop_wp:
  assumes g: "prot_ptr g = from_ptr k p" and s: "\<And>s. debt g = Some s \<Longrightarrow> slot_ok w s"
    and live: "\<nexists>s. debt g = Some s \<and> slot_val w s = p \<Longrightarrow> live k (heap w) p"
  shows "wp (protection_drop g) (\<lambda>_ w'. returned k t p (debt g) w w' \<and>
      (\<forall>t c. ready t c w \<longrightarrow> ready t c w')) w"
proof (cases "\<exists>s. debt g = Some s \<and> slot_val w s = p")
  case True
  then obtain d where d: "debt g = Some d" and v: "slot_val w d = p" by blast
  have ok: "slot_ok w d" by (rule s [OF d])
  have rd: "read_slot d w = p" using v ok by (simp add: slot_val_def)
  have "returned k t p (debt g) w (write_slot d debt_none w)"
    using ledger_write_slot [OF ok, of k debt_none] slot_val_write [OF ok] op_frame_write [OF ok] rd v
    by (auto simp: returned_def d)
  then show ?thesis
    using ok rd by (simp add: protection_drop_def d g wp_debt_pay ready_write_none)
next
  case False
  have lv: "live k (heap w) p" by (rule live [OF False])
  have "read_slot d w \<noteq> p" if "debt g = Some d" for d
    using False s [OF that] that by (simp add: slot_val_def)
  moreover have "returned k t p (debt g) w (w\<lparr>heap := dec_at k p (heap w)\<rparr>)"
    using False op_frame_heap ledger_dec [OF lv] by (auto simp: returned_def)
  ultimately show ?thesis
    using lv g by (cases "debt g") (simp_all add: protection_drop_def wp_debt_pay wp_t_drop)
qed

lemma ledger_storage [simp]: "ledger k (w\<lparr>storage := st\<rparr>) q = ledger k w q"
  by (rule ledger_cong) simp_all

lemma ledger_spurious [simp]: "ledger k (w\<lparr>spurious := sp\<rparr>) q = ledger k w q"
  by (rule ledger_cong) simp_all

text \<open>The owned pointer that a protection is turned into: the debt, if it is still there, is paid.\<close>

definition cashed :: "kind \<Rightarrow> tid \<Rightarrow> usize \<Rightarrow> slot_ref option \<Rightarrow> 'v world \<Rightarrow> 'v world \<Rightarrow> bool" where
  "cashed k t p d w w' \<longleftrightarrow>
     op_frame t w w' \<and> storage w' = storage w \<and> same_ledger k w w' \<and>
     (if \<exists>s. d = Some s \<and> slot_val w s = p
      then heap w' = inc_at k p (heap w) \<and> slot_val w' = (slot_val w)(the d := debt_none)
      else heap w' = heap w \<and> slot_val w' = slot_val w)"

lemma protection_into_inner_wp:
  assumes g: "prot_ptr g = from_ptr k p" and s: "\<And>s. debt g = Some s \<Longrightarrow> slot_ok w s"
    and live: "live k (heap w) p"
  shows "wp (protection_into_inner k g) (\<lambda>v w'. v = from_ptr k p \<and> cashed k t p (debt g) w w' \<and>
      (\<forall>t c. ready t c w \<longrightarrow> ready t c w')) w"
proof (cases "\<exists>s. debt g = Some s \<and> slot_val w s = p")
  case True
  then obtain d where d: "debt g = Some d" and v: "slot_val w d = p" by blast
  have ok: "slot_ok w d" by (rule s [OF d])
  have rd: "read_slot d w = p" using v ok by (simp add: slot_val_def)
  let ?w1 = "w\<lparr>heap := inc_at k p (heap w)\<rparr>"
  have ok1: "slot_ok ?w1 d" using ok by simp
  have "cashed k t p (debt g) w (write_slot d debt_none ?w1)"
    using ledger_write_slot [OF ok1, of k debt_none] slot_val_write [OF ok1] rd v
      op_frame_trans [OF op_frame_heap op_frame_write [OF ok1]] ledger_inc [OF live]
    by (auto simp: cashed_def d same_ledger_def)
  then show ?thesis
    using ok1 rd live by (simp add: protection_into_inner_def d g wp_t_inc wp_debt_pay ready_write_none)
next
  case False
  have ne: "read_slot d w \<noteq> p" if "debt g = Some d" for d
    using False s [OF that] that by (simp add: slot_val_def)
  have up: "live k (inc_at k p (heap w)) p"
    using live rc_count_inc_mono [OF live, of p] by (auto simp: live_def)
  have "cashed k t p (debt g) w w"
    using False by (auto simp: cashed_def op_frame_refl same_ledger_refl)
  then show ?thesis
    using ne live up
    by (cases "debt g")
      (simp_all add: protection_into_inner_def g wp_t_inc wp_debt_pay wp_t_dec dec_inc_at)
qed

section \<open>Compare and swap\<close>

text \<open>
  The outcome of a compare-and-swap of the pointer \<open>q\<close> for the expected \<open>cur\<close>, when the storage held \<open>p\<close>.
  The reference to \<open>p\<close> in the storage goes to the caller; or the caller gets a new one and \<open>q\<close> is dropped.
\<close>

definition exchanged ::
  "kind \<Rightarrow> bool \<Rightarrow> tid \<Rightarrow> usize \<Rightarrow> usize \<Rightarrow> usize \<Rightarrow> usize \<Rightarrow> slot_ref option \<Rightarrow> 'v world \<Rightarrow> 'v world \<Rightarrow> bool" where
  "exchanged k leases t a cur p q d w w' \<longleftrightarrow>
     op_frame t w w' \<and> (\<forall>s. d = Some s \<longrightarrow> slot_ok w' s \<and> (\<exists>n i. s = FastSlot n i)) \<and>
     (if p = cur then
        storage w' = (storage w)(a := Some q) \<and> same_ledger k w w' \<and>
        (\<forall>s. slot_val w' s = (if leases \<and> slot_val w s = p then debt_none else slot_val w s)) \<and>
        live k (heap w') p
      else
        storage w' = storage w \<and>
        (\<forall>x. x \<noteq> debt_none \<longrightarrow> counted k x \<longrightarrow>
           ledger k w' x = ledger k w x + (if x = p then 1 else 0) - (if x = q then 1 else 0)) \<and>
        (case d of None \<Rightarrow> slot_val w' = slot_val w
         | Some s \<Rightarrow> slot_val w s = debt_none \<and> slot_val w' = (slot_val w)(s := p)))"

text \<open>A load that is given back leaves nothing behind.\<close>

lemma leased_returned:
  assumes l: "leased k t p d w u" and r: "returned k t p d u w'" and live: "live k (heap w) p"
  shows "op_frame t w w'" "storage w' = storage w" "heap w' = heap w" "same_ledger k w w'"
    "slot_val w' = slot_val w"
proof -
  show "op_frame t w w'" "storage w' = storage w" "same_ledger k w w'"
    using l r op_frame_trans by (auto simp: leased_def returned_def same_ledger_def)
  show "heap w' = heap w" "slot_val w' = slot_val w"
    using l r dec_inc_at [OF live] by (auto simp: leased_def returned_def split: option.splits)
qed

lemma live_leased: "leased k t p d w w' \<Longrightarrow> live k (heap w) p \<Longrightarrow> live k (heap w) x \<Longrightarrow> live k (heap w') x"
  using rc_count_inc_mono [of k "heap w" p x] by (auto simp: leased_def live_def)

lemma wp_ptr_cas_weak:
  "storage w a = Some p \<Longrightarrow> wp (ptr_cas_weak a cur new) Q w \<longleftrightarrow>
     (case spurious w of
        [] \<Rightarrow> if p = cur then Q (True, p) (w\<lparr>storage := (storage w)(a := Some new)\<rparr>) else Q (False, p) w
      | b # bs \<Rightarrow> if \<not> b \<and> p = cur
          then Q (True, p) (w\<lparr>spurious := bs, storage := (storage w)(a := Some new)\<rparr>)
          else Q (False, p) (w\<lparr>spurious := bs\<rparr>))"
  by (auto simp: ptr_cas_weak_def ptr_cas_def wp_fails_spuriously wp_ptr_load wp_ptr_store split: list.splits)

text \<open>
  The end of a successful round: the storage was changed, the readers are paid for, and the reference of the
  storage is given up.
\<close>

lemma owed_pos:
  assumes "slot_ok w s"
  shows "0 < owed w (read_slot s w)"
proof -
  obtain j where j: "j < length (nodes w)" and m: "read_slot s w \<in> set (node_slots (nodes w ! j))"
    using assms by (cases s) (auto simp: slot_ok_def node_slots_def)
  have "0 < node_owed (read_slot s w) (nodes w ! j)"
    using m count_list_0_iff [of "node_slots (nodes w ! j)" "read_slot s w"] by (simp add: node_owed_def)
  also have "\<dots> \<le> owed w (read_slot s w)"
    unfolding owed_def by (rule member_le_sum_list_map [OF j])
  finally show ?thesis .
qed

lemma cas_success_wp:
  assumes r: "ready t (Suc c) u" and l: "leased k t p d w u" and st: "storage w a = Some p"
    and live: "live k (heap w) p" "live k (heap w) q" and p: "p \<noteq> debt_none"
    and sp: "length sp \<le> length (spurious u)"
  shows "wp (bnd (wait_for_readers uf k t p a) (\<lambda>_. bnd (t_dec k p) (\<lambda>_. ret g)))
     (\<lambda>g' w'. g' = g \<and> exchanged k True t a p p q d w w' \<and> ready t c w')
     (u\<lparr>spurious := sp, storage := (storage u)(a := Some q)\<rparr>)"
    (is "wp _ ?Q ?u1")
proof -
  have lv: "live k (heap u) p" "live k (heap u) q" using live_leased [OF l] live by auto
  have "wp (wait_for_readers uf k t p a) (\<lambda>_ w'. settled k True t p ?u1 w' \<and> ready t c w') ?u1"
    by (rule wait_for_readers_wp [where q = q, OF _ _ _ _ p]) (use r lv in simp_all)
  then show ?thesis
    unfolding wp_bnd [of "wait_for_readers uf k t p a"]
  proof (rule wp_mono, elim conjE)
    fix w2 assume s: "settled k True t p ?u1 w2" and r2: "ready t c w2"
    let ?w3 = "w2\<lparr>heap := dec_at k p (heap w2)\<rparr>"
    have "rc_count k (heap u) p \<le> rc_count k (heap w2) p" using s by (simp add: settled_def no_less_def)
    then have lv2: "live k (heap w2) p" using lv(1) by (auto simp: live_def)
    have "ledger k ?w3 x = ledger k w x" if "x \<noteq> debt_none" "counted k x" for x
    proof -
      have "ledger k w2 x = ledger k u x" using s that by (simp add: settled_def same_ledger_def)
      then show ?thesis using ledger_dec [OF lv2 that(2)] l that by (simp add: leased_def)
    qed
    then have led: "same_ledger k w ?w3" by (simp add: same_ledger_def)
    have "op_frame t w u" "op_frame t u ?u1" "op_frame t ?u1 w2" "op_frame t w2 ?w3"
      using l s sp op_frame_heap by (simp_all add: leased_def settled_def op_frame_def node_bound_def)
    then have fr: "op_frame t w ?w3" by (blast intro: op_frame_trans)
    have s2: "slot_val w2 x = (if slot_val u x = p then debt_none else slot_val u x)" for x
      using s by (simp add: settled_def)
    have slots: "slot_val w2 x = (if slot_val w x = p then debt_none else slot_val w x)" for x
    proof (cases d)
      case None
      then show ?thesis using l s2 [of x] by (simp add: leased_def)
    next
      case (Some y)
      then show ?thesis using l s2 [of x] p by (auto simp: leased_def)
    qed
    have ds: "slot_ok w2 x \<and> (\<exists>n i. x = FastSlot n i)" if "d = Some x" for x
    proof -
      have x: "slot_ok u x" "\<exists>n i. x = FastSlot n i" using l that by (auto simp: leased_def)
      have "slot_ok w2 x" using x(1) s by (simp add: settled_def op_frame_def)
      with x show ?thesis by blast
    qed
    have "live k (heap ?w3) p"
    proof -
      have "rc_count k (heap w) p < rc_count k (heap w2) p" if c: "counted k p"
      proof -
        have le: "rc_count k (heap u) p + owed u p \<le> rc_count k (heap w2) p"
          using s c owed_cong [of ?u1 u p] by (simp add: settled_def)
        show ?thesis
        proof (cases d)
          case None
          then have "rc_count k (heap u) p = Suc (rc_count k (heap w) p)"
            using l c rc_count_inc_at [OF live(1), of p] by (simp add: leased_def)
          with le show ?thesis by simp
        next
          case (Some x)
          then have "heap u = heap w" and "0 < owed u p"
            using l owed_pos [of u x] by (auto simp: leased_def slot_val_def dest: fun_cong [of _ _ x])
          with le show ?thesis by simp
        qed
      qed
      then show ?thesis
        using rc_count_dec_at [OF lv2, of p] live(1) by (auto simp: live_def)
    qed
    moreover have "storage w2 = (storage w)(a := Some q)" using s l by (simp add: settled_def leased_def)
    ultimately have "exchanged k True t a p p q d w ?w3"
      using fr led slots ds by (simp add: exchanged_def)
    then show "wp (bnd (t_dec k p) (\<lambda>_. ret g)) ?Q w2"
      using lv2 r2 by (simp add: wp_t_dec)
  qed
qed

lemma exchanged_trans:
  assumes "op_frame t w v" "storage v = storage w" "heap v = heap w" "same_ledger k w v" "slot_val v = slot_val w"
    and "exchanged k b t a cur p q d v w'"
  shows "exchanged k b t a cur p q d w w'"
  using assms op_frame_trans [OF assms(1)]
  by (auto simp: exchanged_def same_ledger_def split: option.splits)

lemma cas_loop_wp:
  "length (spurious w) < fuel \<Longrightarrow> ready t (length (spurious w) + 2 + c) w \<Longrightarrow> storage w a = Some p \<Longrightarrow>
   live k (heap w) p \<Longrightarrow> live k (heap w) q \<Longrightarrow> p \<noteq> debt_none \<Longrightarrow>
   wp (cas_loop fuel uf k t a cur (from_ptr k q))
     (\<lambda>g w'. prot_ptr g = from_ptr k p \<and> exchanged k True t a cur p q (debt g) w w' \<and> ready t c w') w"
proof (induction fuel arbitrary: w)
  case 0
  then show ?case by simp
next
  case (Suc fuel)
  let ?Q = "\<lambda>w (g :: protection) w'. prot_ptr g = from_ptr k p \<and> exchanged k True t a cur p q (debt g) w w' \<and> ready t c w'"
  let ?body = "\<lambda>old. if protection_as_ptr old \<noteq> cur then bnd (t_drop (from_ptr k q)) (\<lambda>_. ret old)
     else let new_raw = as_ptr (from_ptr k q) in
       bnd (ptr_cas_weak a cur new_raw) (\<lambda>(ok, _).
       if ok then bnd (wait_for_readers uf k t (protection_as_ptr old) a) (\<lambda>_.
         bnd (t_dec k (protection_as_ptr old)) (\<lambda>_. ret old))
       else bnd (protection_drop old) (\<lambda>_. cas_loop fuel uf k t a cur (from_ptr k q)))"
  have "wp (hybrid_load uf k t a) (\<lambda>g u. prot_ptr g = from_ptr k p \<and> leased k t p (debt g) w u \<and>
      ready t (length (spurious w) + 1 + c) u) w"
    by (rule hybrid_load_wp) (use Suc.prems in simp_all)
  then have "wp (hybrid_load uf k t a) (\<lambda>g u. wp (?body g) (?Q w) u) w"
  proof (rule wp_mono, elim conjE)
    fix g :: protection and u assume g: "prot_ptr g = from_ptr k p" and l: "leased k t p (debt g) w u"
      and r: "ready t (length (spurious w) + 1 + c) u"
    have gp: "protection_as_ptr g = p" by (simp add: protection_as_ptr_def g)
    have st: "storage u a = Some p" and sp: "length (spurious u) \<le> length (spurious w)"
      using l Suc.prems by (auto simp: leased_def op_frame_def)
    have lv: "live k (heap u) p" "live k (heap u) q" using live_leased [OF l] Suc.prems by auto
    have rc: "ready t c u" "ready t (Suc c) u" using ready_mono [OF r] by auto
    show "wp (?body g) (?Q w) u"
    proof (cases "p = cur")
      case False
      have "exchanged k True t a cur p q (debt g) w (u\<lparr>heap := dec_at k q (heap u)\<rparr>)"
        using False l ledger_dec [OF lv(2)] op_frame_trans [OF _ op_frame_heap]
        by (auto simp: exchanged_def leased_def split: option.splits)
      then show ?thesis using False gp g lv rc by (simp add: wp_t_drop)
    next
      case True
      have succ: "wp (bnd (wait_for_readers uf k t p a) (\<lambda>_. bnd (t_dec k p) (\<lambda>_. ret g))) (?Q w)
          (u\<lparr>spurious := bs, storage := (storage u)(a := Some q)\<rparr>)"
        if "length bs \<le> length (spurious u)" for bs
        using cas_success_wp [OF rc(2) l Suc.prems(3-6) that, of uf g] True g
        by (auto elim!: wp_mono)
      have fail: "wp (bnd (protection_drop g) (\<lambda>_. cas_loop fuel uf k t a cur (from_ptr k q))) (?Q w)
          (u\<lparr>spurious := bs\<rparr>)" if bs: "spurious u = b # bs" for b bs
      proof -
        have l': "leased k t p (debt g) w (u\<lparr>spurious := bs\<rparr>)"
          using l sp bs by (auto simp: leased_def op_frame_def node_bound_def split: option.splits)
        have "wp (protection_drop g) (\<lambda>_ v. returned k t p (debt g) (u\<lparr>spurious := bs\<rparr>) v \<and>
            (\<forall>t c. ready t c (u\<lparr>spurious := bs\<rparr>) \<longrightarrow> ready t c v)) (u\<lparr>spurious := bs\<rparr>)"
          by (rule protection_drop_wp [OF g]) (use l' lv in \<open>auto simp: leased_def\<close>)
        then show ?thesis
          unfolding wp_bnd
        proof (rule wp_mono, elim conjE)
          fix v assume rt: "returned k t p (debt g) (u\<lparr>spurious := bs\<rparr>) v"
            and rd: "\<forall>t c. ready t c (u\<lparr>spurious := bs\<rparr>) \<longrightarrow> ready t c v"
          note lr = leased_returned [OF l' rt Suc.prems(4)]
          have spv: "length (spurious v) \<le> length bs" using rt by (simp add: returned_def op_frame_def)
          have "ready t (length (spurious v) + 2 + c) v"
            using rd ready_mono [OF r, of "length (spurious v) + 2 + c"] spv sp bs by simp
          then have "wp (cas_loop fuel uf k t a cur (from_ptr k q)) (?Q v) v"
            using Suc.IH [of v] Suc.prems lr spv sp bs by simp
          then show "wp (cas_loop fuel uf k t a cur (from_ptr k q)) (?Q w) v"
            by (rule wp_mono) (use exchanged_trans [OF lr] in blast)
        qed
      qed
      show ?thesis
        using True gp succ [of "spurious u"] succ fail
        by (simp add: wp_ptr_cas_weak [OF st] split: list.splits)
    qed
  qed
  then show ?case by simp
qed

theorem hybrid_cas_wp:
  assumes "ready t (length (spurious w) + 2 + c) w" and "storage w a = Some p"
    and "live k (heap w) p" and "live k (heap w) q" and "p \<noteq> debt_none"
  shows "wp (hybrid_compare_and_swap uf k t a cur (from_ptr k q))
     (\<lambda>g w'. prot_ptr g = from_ptr k p \<and> exchanged k True t a cur p q (debt g) w w' \<and> ready t c w') w"
  using cas_loop_wp [of w "Suc (length (spurious w))" t c a p k q uf cur] assms
  by (simp add: hybrid_compare_and_swap_def del: cas_loop.simps)

end
