(* ===== verification/Strategy.thy ===== *)
theory Strategy
  imports Hybrid
begin

text \<open>
  The strategies a storage can be protected with: the lock-based one (strategy/rw_lock.rs), the choice
  between it and the hybrid one with or without fast slots (strategy/mod.rs, strategy/test_strategies.rs,
  the traits \<open>InnerStrategy\<close>, \<open>Protected\<close> and \<open>CaS\<close>), and the arguments of compare-and-swap
  (as_raw.rs).
\<close>

section \<open>The lock-based strategy\<close>

text \<open>A lock that cannot be taken stays so for ever: nobody else runs.\<close>

definition lock_read :: "usize \<Rightarrow> ('v world, unit) op" where
  "lock_read a =
     bnd (gets (\<lambda>w. rwlocks w a)) (\<lambda>lk.
     bnd (require Would_Block (\<not> writing lk)) (\<lambda>_.
     modify (\<lambda>w. w\<lparr>rwlocks := (rwlocks w)(a := lk\<lparr>readers := Suc (readers lk)\<rparr>)\<rparr>)))"

definition unlock_read :: "usize \<Rightarrow> ('v world, unit) op" where
  "unlock_read a =
     modify (\<lambda>w. w\<lparr>rwlocks := (rwlocks w)
        (a := (rwlocks w a)\<lparr>readers := readers (rwlocks w a) - 1\<rparr>)\<rparr>)"

definition lock_write :: "usize \<Rightarrow> ('v world, unit) op" where
  "lock_write a =
     bnd (gets (\<lambda>w. rwlocks w a)) (\<lambda>lk.
     bnd (require Would_Block (\<not> writing lk \<and> readers lk = 0)) (\<lambda>_.
     modify (\<lambda>w. w\<lparr>rwlocks := (rwlocks w)(a := lk\<lparr>writing := True\<rparr>)\<rparr>)))"

definition unlock_write :: "usize \<Rightarrow> ('v world, unit) op" where
  "unlock_write a =
     modify (\<lambda>w. w\<lparr>rwlocks := (rwlocks w)(a := (rwlocks w a)\<lparr>writing := False\<rparr>)\<rparr>)"

definition rw_load :: "kind \<Rightarrow> usize \<Rightarrow> ('v world, smart) op" where
  "rw_load k a =
     bnd (lock_read a) (\<lambda>_.
     bnd (ptr_load a) (\<lambda>p.
     let v = from_ptr k p in
     bnd (t_inc v) (\<lambda>_.
     bnd (unlock_read a) (\<lambda>_.
     ret v))))"

definition rw_wait_for_readers :: "usize \<Rightarrow> ('v world, unit) op" where
  "rw_wait_for_readers a = bnd (lock_write a) (\<lambda>_. unlock_write a)"

text \<open>\<open>cur\<close> is the raw pointer of \<open>current\<close>, and \<open>drop_current\<close> the drop of that argument.\<close>

definition rw_compare_and_swap ::
  "kind \<Rightarrow> usize \<Rightarrow> usize \<Rightarrow> ('v world, unit) op \<Rightarrow> smart \<Rightarrow> ('v world, smart) op" where
  "rw_compare_and_swap k a cur drop_current new =
     bnd (lock_write a) (\<lambda>_.
     let new_raw = into_ptr new in
     bnd (ptr_cas a cur new_raw) (\<lambda>(swapped, old_raw).
     let old = from_ptr k old_raw in
     bnd (if swapped then ret ()
          else bnd (t_inc old) (\<lambda>_. t_drop (from_ptr k new_raw))) (\<lambda>_.
     bnd drop_current (\<lambda>_.
     bnd (unlock_write a) (\<lambda>_.
     ret old)))))"

section \<open>The choice of a strategy\<close>

text \<open>
  \<open>HybridStrategy\<close> with its configuration (\<open>USE_FAST\<close>; \<open>DefaultStrategy\<close> is the one with fast slots,
  \<open>FillFastSlots\<close> the one without), or \<open>RwLock<()>\<close>. The protected pointers of the two differ.
\<close>

datatype strategy = HybridStrategy bool | RwLockStrategy

abbreviation DefaultStrategy :: strategy where "DefaultStrategy \<equiv> HybridStrategy True"

abbreviation FillFastSlots :: strategy where "FillFastSlots \<equiv> HybridStrategy False"

datatype protected = Lease protection | Owned smart

fun protected_borrow :: "protected \<Rightarrow> smart" where
  "protected_borrow (Lease g) = prot_ptr g"
| "protected_borrow (Owned v) = v"

fun protected_into_inner :: "kind \<Rightarrow> protected \<Rightarrow> ('v world, smart) op" where
  "protected_into_inner k (Lease g) = protection_into_inner k g"
| "protected_into_inner k (Owned v) = ret v"

fun protected_from_inner :: "strategy \<Rightarrow> smart \<Rightarrow> protected" where
  "protected_from_inner (HybridStrategy _) v = Lease (from_inner v)"
| "protected_from_inner RwLockStrategy v = Owned v"

fun protected_drop :: "protected \<Rightarrow> ('v world, unit) op" where
  "protected_drop (Lease g) = protection_drop g"
| "protected_drop (Owned v) = t_drop v"

fun strategy_load :: "strategy \<Rightarrow> kind \<Rightarrow> tid \<Rightarrow> usize \<Rightarrow> ('v world, protected) op" where
  "strategy_load (HybridStrategy uf) k t a = bnd (hybrid_load uf k t a) (\<lambda>g. ret (Lease g))"
| "strategy_load RwLockStrategy k t a = bnd (rw_load k a) (\<lambda>v. ret (Owned v))"

fun strategy_wait :: "strategy \<Rightarrow> kind \<Rightarrow> tid \<Rightarrow> usize \<Rightarrow> usize \<Rightarrow> ('v world, unit) op" where
  "strategy_wait (HybridStrategy uf) k t old a = wait_for_readers uf k t old a"
| "strategy_wait RwLockStrategy k t old a = rw_wait_for_readers a"

section \<open>The argument of compare-and-swap\<close>

text \<open>The types that implement \<open>AsRaw\<close>: references, guards by reference or by value, raw pointers.\<close>

datatype raw_arg = RefArg smart | GuardRefArg protected | GuardArg protected | PtrArg usize

fun as_raw :: "raw_arg \<Rightarrow> usize" where
  "as_raw (RefArg v) = as_ptr v"
| "as_raw (GuardRefArg g) = as_ptr (protected_borrow g)"
| "as_raw (GuardArg g) = as_ptr (protected_borrow g)"
| "as_raw (PtrArg p) = p"

text \<open>Only a guard passed by value has something to drop.\<close>

fun drop_arg :: "raw_arg \<Rightarrow> ('v world, unit) op" where
  "drop_arg (GuardArg g) = protected_drop g"
| "drop_arg _ = ret ()"

fun strategy_cas ::
  "strategy \<Rightarrow> kind \<Rightarrow> tid \<Rightarrow> usize \<Rightarrow> raw_arg \<Rightarrow> smart \<Rightarrow> ('v world, protected) op" where
  "strategy_cas (HybridStrategy uf) k t a current new =
     bnd (hybrid_compare_and_swap uf k t a (as_raw current) new) (\<lambda>old.
     bnd (drop_arg current) (\<lambda>_. ret (Lease old)))"
| "strategy_cas RwLockStrategy k t a current new =
     bnd (rw_compare_and_swap k a (as_raw current) (drop_arg current) new) (\<lambda>old.
     ret (Owned old))"

definition ptr_eq :: "raw_arg \<Rightarrow> raw_arg \<Rightarrow> bool" where
  "ptr_eq x y \<longleftrightarrow> as_raw x = as_raw y"

section \<open>The contract of a strategy\<close>

fun protected_debt :: "protected \<Rightarrow> slot_ref option" where
  "protected_debt (Lease g) = debt g"
| "protected_debt (Owned v) = None"

text \<open>
  A guard on the pointer \<open>p\<close>; its debt, if it was given one, sits in an existing slot.
\<close>

definition guards :: "kind \<Rightarrow> usize \<Rightarrow> protected \<Rightarrow> 'v world \<Rightarrow> bool" where
  "guards k p g w \<longleftrightarrow> protected_borrow g = from_ptr k p \<and>
     (\<forall>s. protected_debt g = Some s \<longrightarrow> slot_ok w s)"

lemma protected_drop_wp:
  assumes g: "guards k p g w"
    and live: "\<nexists>s. protected_debt g = Some s \<and> slot_val w s = p \<Longrightarrow> live k (heap w) p"
  shows "wp (protected_drop g) (\<lambda>_ w'. returned k t p (protected_debt g) w w' \<and>
      (\<forall>t c. ready t c w \<longrightarrow> ready t c w')) w"
proof (cases g)
  case (Lease x)
  then show ?thesis using protection_drop_wp [of x k p w t] g live by (auto simp: guards_def)
next
  case (Owned v)
  then have "v = from_ptr k p" "live k (heap w) p" using g live by (auto simp: guards_def)
  then show ?thesis
    using Owned ledger_dec [of k w p] op_frame_heap by (auto simp: wp_t_drop returned_def)
qed

lemma protected_into_inner_wp:
  assumes g: "guards k p g w" and live: "live k (heap w) p"
  shows "wp (protected_into_inner k g) (\<lambda>v w'. v = from_ptr k p \<and> cashed k t p (protected_debt g) w w' \<and>
      (\<forall>t c. ready t c w \<longrightarrow> ready t c w')) w"
proof (cases g)
  case (Lease x)
  then show ?thesis using protection_into_inner_wp [of x k p w t] g live by (auto simp: guards_def)
next
  case (Owned v)
  then show ?thesis using g by (simp add: guards_def cashed_def op_frame_refl same_ledger_refl)
qed

fun by_value :: "raw_arg \<Rightarrow> bool" where
  "by_value (GuardArg g) = True"
| "by_value _ = False"

lemma drop_arg_ref: "\<not> by_value cur \<Longrightarrow> drop_arg cur = ret ()"
  by (cases cur) simp_all

text \<open>
  What \<open>ArcSwapAny\<close> relies on. \<open>prepared c\<close> is the condition for \<open>c\<close> more operations of the thread on the
  storage; \<open>leases\<close> tells whether the strategy hands out debts.
\<close>

locale inner_strategy =
  fixes s :: strategy and k :: kind and t :: tid and a :: usize
    and prepared :: "nat \<Rightarrow> 'v world \<Rightarrow> bool" and leases :: bool
  assumes load: "prepared (Suc c) w \<Longrightarrow> storage w a = Some p \<Longrightarrow> live k (heap w) p \<Longrightarrow>
      wp (strategy_load s k t a) (\<lambda>g w'. guards k p g w' \<and> leased k t p (protected_debt g) w w' \<and>
         (protected_debt g \<noteq> None \<longrightarrow> leases) \<and> prepared c w') w"
    and wait: "prepared (Suc c) w \<Longrightarrow> storage w a = Some q \<Longrightarrow> live k (heap w) q \<Longrightarrow>
      live k (heap w) old \<Longrightarrow> old \<noteq> debt_none \<Longrightarrow>
      wp (strategy_wait s k t old a) (\<lambda>_ w'. settled k leases t old w w' \<and> prepared c w') w"
    and cas: "prepared (length (spurious w) + 2 + c) w \<Longrightarrow> storage w a = Some p \<Longrightarrow>
      live k (heap w) p \<Longrightarrow> live k (heap w) q \<Longrightarrow> p \<noteq> debt_none \<Longrightarrow> \<not> by_value cur \<Longrightarrow>
      wp (strategy_cas s k t a cur (from_ptr k q)) (\<lambda>g w'. guards k p g w' \<and>
         exchanged k leases t a (as_raw cur) p q (protected_debt g) w w' \<and>
         (protected_debt g \<noteq> None \<longrightarrow> leases) \<and> prepared c w') w"
    and prepared_mono: "prepared c w \<Longrightarrow> c' \<le> c \<Longrightarrow> prepared c' w"
    and prepared_heap: "prepared c (w\<lparr>heap := h\<rparr>) \<longleftrightarrow> prepared c w"
    and prepared_storage: "prepared c (w\<lparr>storage := st\<rparr>) \<longleftrightarrow> prepared c w"
    and prepared_paid: "prepared c w \<Longrightarrow> slot_ok w x \<Longrightarrow> prepared c (write_slot x debt_none w)"

section \<open>The lock-based strategy keeps the contract\<close>

abbreviation unlocked :: rwlock where
  "unlocked \<equiv> \<lparr>readers = 0, writing = False\<rparr>"

fun strategy_ready :: "strategy \<Rightarrow> tid \<Rightarrow> usize \<Rightarrow> nat \<Rightarrow> 'v world \<Rightarrow> bool" where
  "strategy_ready (HybridStrategy uf) t a c w = ready t c w"
| "strategy_ready RwLockStrategy t a c w = (rwlocks w a = unlocked)"

fun strategy_leases :: "strategy \<Rightarrow> bool" where
  "strategy_leases (HybridStrategy uf) = True"
| "strategy_leases RwLockStrategy = False"

lemma relocked: "rwlocks w a = lk \<Longrightarrow> w\<lparr>rwlocks := (rwlocks w)(a := lk)\<rparr> = w"
  by (cases w) (simp add: fun_upd_idem)

lemma world_locks:
  "rwlocks_update f (heap_update g w) = heap_update g (rwlocks_update f w)"
  "rwlocks_update f (storage_update h w) = storage_update h (rwlocks_update f w)"
  by simp_all

lemma rw_load_run:
  assumes "rwlocks w a = unlocked" and "storage w a = Some p" and "live k (heap w) p"
  shows "wp (rw_load k a) Q w \<longleftrightarrow> Q (from_ptr k p) (w\<lparr>heap := inc_at k p (heap w)\<rparr>)"
  using assms relocked [of w a unlocked]
  by (simp add: rw_load_def lock_read_def unlock_read_def wp_ptr_load wp_t_inc world_locks Let_def)

lemma rw_wait_run:
  assumes "rwlocks w a = unlocked"
  shows "wp (rw_wait_for_readers a) Q w \<longleftrightarrow> Q () w"
  using assms relocked [of w a unlocked]
  by (simp add: rw_wait_for_readers_def lock_write_def unlock_write_def)

lemma rw_cas_run:
  assumes "rwlocks w a = unlocked" and "storage w a = Some p" and "live k (heap w) p" "live k (heap w) q"
  shows "wp (rw_compare_and_swap k a cur (ret ()) (from_ptr k q)) Q w \<longleftrightarrow>
    (if p = cur then Q (from_ptr k p) (w\<lparr>storage := (storage w)(a := Some q)\<rparr>)
     else Q (from_ptr k p) (w\<lparr>heap := dec_at k q (inc_at k p (heap w))\<rparr>))"
proof -
  have "live k (inc_at k p (heap w)) q"
    using assms(3,4) rc_count_inc_mono [OF assms(3), of q] by (auto simp: live_def)
  then show ?thesis
    using assms relocked [of w a unlocked]
    by (simp add: rw_compare_and_swap_def lock_write_def unlock_write_def ptr_cas_def wp_ptr_load
        wp_ptr_store wp_t_inc wp_t_drop world_locks Let_def)
qed

interpretation rw_lock: inner_strategy RwLockStrategy k t a "strategy_ready RwLockStrategy t a" False for k t a
proof
  fix c :: nat and w :: "'v world" and p q old :: usize and cur
  assume r: "strategy_ready RwLockStrategy t a (Suc c) w"
  show "wp (strategy_load RwLockStrategy k t a) (\<lambda>g w'. guards k p g w' \<and>
      leased k t p (protected_debt g) w w' \<and> (protected_debt g \<noteq> None \<longrightarrow> False) \<and>
      strategy_ready RwLockStrategy t a c w') w"
    if st: "storage w a = Some p" and live: "live k (heap w) p"
    using r rw_load_run [OF _ st live] ledger_inc [OF live] op_frame_heap
    by (simp add: guards_def leased_def)
  show "wp (strategy_wait RwLockStrategy k t old a)
      (\<lambda>_ w'. settled k False t old w w' \<and> strategy_ready RwLockStrategy t a c w') w"
    using r rw_wait_run [of w a]
    by (simp add: settled_def op_frame_refl no_less_def same_ledger_refl del: fun_upd_apply)
next
  fix c :: nat and w :: "'v world" and p q :: usize and cur
  assume r: "strategy_ready RwLockStrategy t a (length (spurious w) + 2 + c) w"
    and st: "storage w a = Some p" and live: "live k (heap w) p" "live k (heap w) q"
    and cur: "\<not> by_value cur"
  let ?h = "w\<lparr>heap := inc_at k p (heap w)\<rparr>"
  have "live k (heap ?h) q"
    using live rc_count_inc_mono [OF live(1), of q] by (auto simp: live_def)
  then have "ledger k (w\<lparr>heap := dec_at k q (inc_at k p (heap w))\<rparr>) x
      = ledger k w x + (if x = p then 1 else 0) - (if x = q then 1 else 0)" if "counted k x" for x
    using ledger_dec [of k ?h q x] ledger_inc [OF live(1), of x] that by simp
  then show "wp (strategy_cas RwLockStrategy k t a cur (from_ptr k q)) (\<lambda>g w'. guards k p g w' \<and>
      exchanged k False t a (as_raw cur) p q (protected_debt g) w w' \<and>
      (protected_debt g \<noteq> None \<longrightarrow> False) \<and> strategy_ready RwLockStrategy t a c w') w"
    using r rw_cas_run [OF _ st live] live(1)
    by (auto simp: op_frame_heap op_frame_storage drop_arg_ref [OF cur] guards_def exchanged_def same_ledger_refl same_ledger_def)
qed simp_all

interpretation hybrid: inner_strategy "HybridStrategy uf" k t a "strategy_ready (HybridStrategy uf) t a" True
  for uf k t a
proof
  fix c :: nat and w :: "'v world" and p q old :: usize and cur
  assume r: "strategy_ready (HybridStrategy uf) t a (Suc c) w"
  show "wp (strategy_load (HybridStrategy uf) k t a) (\<lambda>g w'. guards k p g w' \<and>
      leased k t p (protected_debt g) w w' \<and> (protected_debt g \<noteq> None \<longrightarrow> True) \<and>
      strategy_ready (HybridStrategy uf) t a c w') w"
    if st: "storage w a = Some p" and live: "live k (heap w) p"
    using hybrid_load_wp [of t c w a p k uf] r st live
    by (auto simp: guards_def leased_def elim!: wp_mono)
  show "wp (strategy_wait (HybridStrategy uf) k t old a)
      (\<lambda>_ w'. settled k True t old w w' \<and> strategy_ready (HybridStrategy uf) t a c w') w"
    if "storage w a = Some q" "live k (heap w) q" "live k (heap w) old" "old \<noteq> debt_none"
    using wait_for_readers_wp [of t c w a q k old uf] r that by simp
next
  fix c :: nat and w :: "'v world" and p q :: usize and cur
  assume a: "strategy_ready (HybridStrategy uf) t a (length (spurious w) + 2 + c) w"
    "storage w a = Some p" "live k (heap w) p" "live k (heap w) q" "p \<noteq> debt_none"
    and cur: "\<not> by_value cur"
  have "wp (hybrid_compare_and_swap uf k t a (as_raw cur) (from_ptr k q))
      (\<lambda>g w'. prot_ptr g = from_ptr k p \<and>
         exchanged k True t a (as_raw cur) p q (debt g) w w' \<and> ready t c w') w"
    by (rule hybrid_cas_wp) (use a in simp_all)
  then show "wp (strategy_cas (HybridStrategy uf) k t a cur (from_ptr k q)) (\<lambda>g w'. guards k p g w' \<and>
      exchanged k True t a (as_raw cur) p q (protected_debt g) w w' \<and>
      (protected_debt g \<noteq> None \<longrightarrow> True) \<and> strategy_ready (HybridStrategy uf) t a c w') w"
    unfolding strategy_cas.simps drop_arg_ref [OF cur] wp_bnd
    by (rule wp_mono) (simp add: guards_def, auto simp: exchanged_def)
qed (auto elim: ready_mono ready_write_none)

interpretation any_strategy: inner_strategy s k t a "strategy_ready s t a" "strategy_leases s" for s k t a
proof (cases s)
  case (HybridStrategy uf)
  then show "inner_strategy s k t a (strategy_ready s t a) (strategy_leases s)"
    using hybrid.inner_strategy_axioms by simp
next
  case RwLockStrategy
  then show "inner_strategy s k t a (strategy_ready s t a) (strategy_leases s)"
    using rw_lock.inner_strategy_axioms by simp
qed

end
