(* ===== verification/Arc_Swap.thy ===== *)
theory Arc_Swap
  imports Strategy
begin

text \<open>
  The storage \<open>ArcSwapAny\<close> and the guards of lib.rs. A storage is known by the address of its pointer
  cell; the strategy, the kind of smart pointer and the running thread are arguments.
\<close>

section \<open>Allocation\<close>

text \<open>\<open>Arc::new\<close>: the allocator returns a free address that is neither null nor the mark of no debt.\<close>

definition arc_new :: "usize \<Rightarrow> 'v \<Rightarrow> ('v world, smart) op" where
  "arc_new p v =
     bnd (gets (\<lambda>w. heap w p)) (\<lambda>c.
     bnd (require (Bad_Pointer p) (c = None \<and> p \<noteq> 0 \<and> p \<noteq> debt_none)) (\<lambda>_.
     bnd (modify (\<lambda>w. w\<lparr>heap := (heap w)(p := Some \<lparr>strong = 1, weak = 0, pointee = v\<rparr>)\<rparr>)) (\<lambda>_.
     ret (ArcP p))))"

text \<open>\<open>Arc::downgrade\<close>.\<close>

definition arc_downgrade :: "smart \<Rightarrow> ('v world, smart) op" where
  "arc_downgrade v = (\<lambda>w. case heap w (as_ptr v) of
      None \<Rightarrow> Inl (Use_After_Free (as_ptr v))
    | Some c \<Rightarrow> Inr (WeakP (Some (as_ptr v)),
        w\<lparr>heap := (heap w)(as_ptr v := Some (c\<lparr>weak := Suc (weak c)\<rparr>))\<rparr>))"

definition strong_count :: "'v world \<Rightarrow> smart \<Rightarrow> nat" where
  "strong_count w v = rc_count KArc (heap w) (as_ptr v)"

definition weak_count :: "'v world \<Rightarrow> smart \<Rightarrow> nat" where
  "weak_count w v = rc_count KWeak (heap w) (as_ptr v)"

section \<open>Guards\<close>

definition guard_into_inner :: "kind \<Rightarrow> protected \<Rightarrow> ('v world, smart) op" where
  "guard_into_inner k lease = protected_into_inner k lease"

definition guard_from_inner :: "strategy \<Rightarrow> smart \<Rightarrow> protected" where
  "guard_from_inner s inner = protected_from_inner s inner"

definition guard_deref :: "protected \<Rightarrow> smart" where
  "guard_deref g = protected_borrow g"

text \<open>
  \<open>From\<close> and \<open>Default\<close> of a guard, and its \<open>Debug\<close> and \<open>Display\<close>. What the type of the pointer does for
  \<open>Default\<close>, and how it is formatted, are the arguments \<open>dflt\<close> and \<open>fmt\<close>.
\<close>

definition guard_from :: "strategy \<Rightarrow> smart \<Rightarrow> protected" where
  "guard_from s inner = guard_from_inner s inner"

definition guard_default :: "strategy \<Rightarrow> ('v world, smart) op \<Rightarrow> ('v world, protected) op" where
  "guard_default s dflt = bnd dflt (\<lambda>v. ret (guard_from s v))"

definition guard_debug_fmt :: "(smart \<Rightarrow> ('v world, string) op) \<Rightarrow> protected \<Rightarrow> ('v world, string) op" where
  "guard_debug_fmt fmt g = fmt (guard_deref g)"

definition guard_display_fmt :: "(smart \<Rightarrow> ('v world, string) op) \<Rightarrow> protected \<Rightarrow> ('v world, string) op" where
  "guard_display_fmt fmt g = fmt (guard_deref g)"

section \<open>Construction\<close>

definition with_strategy :: "usize \<Rightarrow> smart \<Rightarrow> ('v world, unit) op" where
  "with_strategy a val = ptr_store a (into_ptr val)"

definition arc_swap_from :: "usize \<Rightarrow> smart \<Rightarrow> ('v world, unit) op" where
  "arc_swap_from a val = with_strategy a val"

definition arc_swap_new :: "usize \<Rightarrow> smart \<Rightarrow> ('v world, unit) op" where
  "arc_swap_new a val = arc_swap_from a val"

definition arc_swap_default :: "usize \<Rightarrow> ('v world, smart) op \<Rightarrow> ('v world, unit) op" where
  "arc_swap_default a dflt = bnd dflt (arc_swap_new a)"

definition from_pointee :: "usize \<Rightarrow> usize \<Rightarrow> 'v \<Rightarrow> ('v world, unit) op" where
  "from_pointee a p v = bnd (arc_new p v) (arc_swap_from a)"

text \<open>\<open>ArcSwapOption::from_pointee\<close>, with the value already turned into an option.\<close>

definition from_pointee_option :: "usize \<Rightarrow> usize \<Rightarrow> 'v option \<Rightarrow> ('v world, unit) op" where
  "from_pointee_option a p val =
     bnd (case val of None \<Rightarrow> ret NoneP
          | Some v \<Rightarrow> bnd (arc_new p v) (\<lambda>arc. ret (SomeP arc)))
     (arc_swap_new a)"

definition arc_swap_empty :: "usize \<Rightarrow> ('v world, unit) op" where
  "arc_swap_empty a = arc_swap_new a NoneP"

definition const_empty :: "usize \<Rightarrow> ('v world, unit) op" where
  "const_empty a = ptr_store a 0"

section \<open>Operations\<close>

definition arc_swap_load :: "strategy \<Rightarrow> kind \<Rightarrow> tid \<Rightarrow> usize \<Rightarrow> ('v world, protected) op" where
  "arc_swap_load s k t a = strategy_load s k t a"

definition load_full :: "strategy \<Rightarrow> kind \<Rightarrow> tid \<Rightarrow> usize \<Rightarrow> ('v world, smart) op" where
  "load_full s k t a = bnd (arc_swap_load s k t a) (guard_into_inner k)"

definition arc_swap_swap ::
  "strategy \<Rightarrow> kind \<Rightarrow> tid \<Rightarrow> usize \<Rightarrow> smart \<Rightarrow> ('v world, smart) op" where
  "arc_swap_swap s k t a new =
     (let new_raw = into_ptr new in
      bnd (ptr_swap a new_raw) (\<lambda>old.
      bnd (strategy_wait s k t old a) (\<lambda>_.
      ret (from_ptr k old))))"

definition arc_swap_store ::
  "strategy \<Rightarrow> kind \<Rightarrow> tid \<Rightarrow> usize \<Rightarrow> smart \<Rightarrow> ('v world, unit) op" where
  "arc_swap_store s k t a val = bnd (arc_swap_swap s k t a val) t_drop"

definition compare_and_swap ::
  "strategy \<Rightarrow> kind \<Rightarrow> tid \<Rightarrow> usize \<Rightarrow> raw_arg \<Rightarrow> smart \<Rightarrow> ('v world, protected) op" where
  "compare_and_swap s k t a current new = strategy_cas s k t a current new"

text \<open>
  The loop of \<open>rcu\<close>. The closure of the user is an operation on the world; it returns the new pointer, or
  the panic it raised, on which the guard is dropped by the unwinding and the storage stays as it is.
\<close>

fun rcu_loop ::
  "nat \<Rightarrow> strategy \<Rightarrow> kind \<Rightarrow> tid \<Rightarrow> usize \<Rightarrow> (smart \<Rightarrow> ('v world, fault + smart) op) \<Rightarrow>
   protected \<Rightarrow> ('v world, fault + smart) op" where
  "rcu_loop 0 s k t a f cur = raise Out_Of_Fuel"
| "rcu_loop (Suc fuel) s k t a f cur =
     bnd (f (guard_deref cur)) (\<lambda>r.
     case r of
       Inl e \<Rightarrow> bnd (protected_drop cur) (\<lambda>_. ret (Inl e))
     | Inr new \<Rightarrow>
         bnd (compare_and_swap s k t a (RefArg (guard_deref cur)) new) (\<lambda>prev.
         if ptr_eq (RefArg (guard_deref cur)) (RefArg (guard_deref prev)) then
           bnd (guard_into_inner k prev) (\<lambda>v.
           bnd (protected_drop cur) (\<lambda>_.
           ret (Inr v)))
         else
           bnd (protected_drop cur) (\<lambda>_.
           rcu_loop fuel s k t a f prev)))"

definition rcu ::
  "nat \<Rightarrow> strategy \<Rightarrow> kind \<Rightarrow> tid \<Rightarrow> usize \<Rightarrow> (smart \<Rightarrow> ('v world, fault + smart) op) \<Rightarrow>
   ('v world, fault + smart) op" where
  "rcu fuel s k t a f = bnd (arc_swap_load s k t a) (rcu_loop fuel s k t a f)"

section \<open>Destruction\<close>

text \<open>Both take the storage apart: its pointer cell does not exist afterwards.\<close>

definition free_storage :: "usize \<Rightarrow> ('v world, unit) op" where
  "free_storage a = modify (\<lambda>w. w\<lparr>storage := (storage w)(a := None)\<rparr>)"

definition arc_swap_into_inner :: "strategy \<Rightarrow> kind \<Rightarrow> tid \<Rightarrow> usize \<Rightarrow> ('v world, smart) op" where
  "arc_swap_into_inner s k t a =
     bnd (ptr_load a) (\<lambda>p.
     bnd (strategy_wait s k t p a) (\<lambda>_.
     bnd (free_storage a) (\<lambda>_.
     ret (from_ptr k p))))"

definition arc_swap_drop :: "strategy \<Rightarrow> kind \<Rightarrow> tid \<Rightarrow> usize \<Rightarrow> ('v world, unit) op" where
  "arc_swap_drop s k t a =
     bnd (ptr_load a) (\<lambda>p.
     bnd (strategy_wait s k t p a) (\<lambda>_.
     bnd (t_dec k p) (\<lambda>_.
     free_storage a)))"

section \<open>What the operations do, for any strategy that keeps the contract\<close>

text \<open>
  The outcome of taking the pointer \<open>p\<close> out of the storage and putting \<open>x\<close> there: the debts on \<open>p\<close> are paid. The
  reference of the storage to \<open>p\<close> is either handed to the caller or \<open>lost\<close>, that is, given up.
\<close>

definition superseded ::
  "kind \<Rightarrow> bool \<Rightarrow> tid \<Rightarrow> usize \<Rightarrow> usize option \<Rightarrow> usize \<Rightarrow> bool \<Rightarrow> 'v world \<Rightarrow> 'v world \<Rightarrow> bool" where
  "superseded k leases t a x p lost w w' \<longleftrightarrow>
     op_frame t w w' \<and> storage w' = (storage w)(a := x) \<and>
     (\<forall>s. slot_val w' s = (if leases \<and> slot_val w s = p then debt_none else slot_val w s)) \<and>
     (\<forall>q. q \<noteq> debt_none \<longrightarrow> counted k q \<longrightarrow>
        ledger k w' q = ledger k w q - (if lost \<and> q = p then 1 else 0)) \<and>
     (\<not> lost \<longrightarrow> no_less k w w')"

text \<open>What a closure of \<open>rcu\<close> does that makes a new pointer \<open>q\<close>: one more reference to it, nothing else.\<close>

definition made :: "kind \<Rightarrow> tid \<Rightarrow> usize \<Rightarrow> 'v world \<Rightarrow> 'v world \<Rightarrow> bool" where
  "made k t q w w' \<longleftrightarrow>
     op_frame t w w' \<and> storage w' = storage w \<and> slot_val w' = slot_val w \<and> no_less k w w' \<and>
     live k (heap w') q \<and>
     (\<forall>x. x \<noteq> debt_none \<longrightarrow> counted k x \<longrightarrow> ledger k w' x = ledger k w x + (if x = q then 1 else 0))"

lemma leased_cashed:
  assumes l: "leased k t p d w u" and c: "cashed k t p d u w'"
  shows "leased k t p None w w'"
proof -
  have fr: "op_frame t w w'" using l c op_frame_trans unfolding leased_def cashed_def by blast
  have "heap w' = inc_at k p (heap w) \<and> slot_val w' = slot_val w"
    using l c by (auto simp: leased_def cashed_def split: option.splits if_splits)
  then show ?thesis
    using l c fr by (simp add: leased_def cashed_def same_ledger_def)
qed

lemma settled_superseded:
  "settled k leases t p (w\<lparr>storage := (storage w)(a := x)\<rparr>) w' \<Longrightarrow> superseded k leases t a x p False w w'"
  using op_frame_trans [OF op_frame_storage]
  by (auto simp: settled_def superseded_def no_less_def same_ledger_def)

lemma superseded_lost:
  assumes s: "superseded k leases t a x p False w u" and live: "live k (heap w) p"
  shows "live k (heap u) p" and "superseded k leases t a x p True w (u\<lparr>heap := dec_at k p (heap u)\<rparr>)"
proof -
  have "rc_count k (heap w) p \<le> rc_count k (heap u) p" using s by (simp add: superseded_def no_less_def)
  then show lv: "live k (heap u) p" using live by (auto simp: live_def)
  show "superseded k leases t a x p True w (u\<lparr>heap := dec_at k p (heap u)\<rparr>)"
    using s op_frame_trans [OF _ op_frame_heap, of t w u] ledger_dec [OF lv]
    by (simp add: superseded_def)
qed

lemma wp_free_storage: "wp (free_storage a) Q w \<longleftrightarrow> Q () (w\<lparr>storage := (storage w)(a := None)\<rparr>)"
  by (simp add: free_storage_def)

lemma superseded_freed:
  assumes "superseded k leases t a (Some p) p lost w u"
  shows "superseded k leases t a None p lost w (u\<lparr>storage := (storage u)(a := None)\<rparr>)"
  using assms op_frame_trans [OF _ op_frame_storage, of t w u]
  by (simp add: superseded_def no_less_def)

context inner_strategy
begin

lemma into_inner_prepared:
  assumes "guards k p g w" and "live k (heap w) p"
  shows "wp (guard_into_inner k g) (\<lambda>v w'. v = from_ptr k p \<and> cashed k t p (protected_debt g) w w' \<and>
      (\<forall>c. prepared c w \<longrightarrow> prepared c w')) w"
proof -
  have "wp (protected_into_inner k g) (\<lambda>v w'. \<forall>c. prepared c w \<longrightarrow> prepared c w') w"
    using assms
    by (cases g) (auto simp: guards_def protection_into_inner_def wp_t_inc wp_debt_pay wp_t_dec
        prepared_heap dec_inc_at live_def rc_count_inc_at intro: prepared_paid split: option.splits)
  from wp_conj [OF this protected_into_inner_wp [OF assms, of t]]
  show ?thesis unfolding guard_into_inner_def by (rule wp_mono) blast
qed

lemma drop_prepared:
  assumes "guards k p g w" and "\<nexists>s. protected_debt g = Some s \<and> slot_val w s = p \<Longrightarrow> live k (heap w) p"
  shows "wp (protected_drop g) (\<lambda>_ w'. returned k t p (protected_debt g) w w' \<and>
      (\<forall>c. prepared c w \<longrightarrow> prepared c w')) w"
proof -
  have "wp (protected_drop g) (\<lambda>_ w'. \<forall>c. prepared c w \<longrightarrow> prepared c w') w"
    using assms
    by (cases g) (auto simp: guards_def slot_val_def protection_drop_def wp_debt_pay wp_t_drop
        prepared_heap intro: prepared_paid split: option.splits)
  from wp_conj [OF this protected_drop_wp [OF assms, of t]]
  show ?thesis by (rule wp_mono) simp_all
qed

lemma load_full_wp:
  assumes "prepared (Suc c) w" and "storage w a = Some p" and "live k (heap w) p"
  shows "wp (load_full s k t a) (\<lambda>v w'. v = from_ptr k p \<and> leased k t p None w w' \<and> prepared c w') w"
  unfolding load_full_def arc_swap_load_def wp_bnd
proof (rule wp_mono [OF load [OF assms]], elim conjE)
  fix g u assume g: "guards k p g u" and l: "leased k t p (protected_debt g) w u" and r: "prepared c u"
  show "wp (guard_into_inner k g) (\<lambda>v w'. v = from_ptr k p \<and> leased k t p None w w' \<and> prepared c w') u"
    by (rule wp_mono [OF into_inner_prepared [OF g live_leased [OF l assms(3,3)]]])
      (use r leased_cashed [OF l] in blast)
qed

lemma swap_wp:
  assumes "prepared (Suc c) w" and "storage w a = Some p" and "live k (heap w) p" "live k (heap w) q"
    and "p \<noteq> debt_none"
  shows "wp (arc_swap_swap s k t a (from_ptr k q)) (\<lambda>v w'. v = from_ptr k p \<and>
      superseded k leases t a (Some q) p False w w' \<and> prepared c w') w"
proof -
  let ?u = "w\<lparr>storage := (storage w)(a := Some q)\<rparr>"
  have "wp (strategy_wait s k t p a) (\<lambda>_ w'. settled k leases t p ?u w' \<and> prepared c w') ?u"
    by (rule wait [where q = q]) (use assms in \<open>simp_all add: prepared_storage\<close>)
  then have "wp (strategy_wait s k t p a) (\<lambda>_ w'. superseded k leases t a (Some q) p False w w' \<and> prepared c w') ?u"
    by (rule wp_mono) (use settled_superseded in blast)
  then show ?thesis using assms(2) by (simp add: arc_swap_swap_def Let_def wp_ptr_swap)
qed

lemma store_wp:
  assumes "prepared (Suc c) w" and "storage w a = Some p" and "live k (heap w) p" "live k (heap w) q"
    and "p \<noteq> debt_none"
  shows "wp (arc_swap_store s k t a (from_ptr k q)) (\<lambda>_ w'.
      superseded k leases t a (Some q) p True w w' \<and> prepared c w') w"
  unfolding arc_swap_store_def wp_bnd
  by (rule wp_mono [OF swap_wp [OF assms]])
    (use superseded_lost [OF _ assms(3)] in \<open>auto simp: wp_t_drop prepared_heap\<close>)

lemma wait_current:
  assumes "prepared (Suc c) w" and "storage w a = Some p" and "live k (heap w) p" and "p \<noteq> debt_none"
  shows "wp (strategy_wait s k t p a) (\<lambda>_ w'. superseded k leases t a (Some p) p False w w' \<and> prepared c w') w"
proof -
  have "w\<lparr>storage := (storage w)(a := Some p)\<rparr> = w" using assms(2) by (cases w) (simp add: fun_upd_idem)
  then show ?thesis
    using wp_mono [OF wait [OF assms(1,2,3,3,4)]] settled_superseded [of k leases t p w a "Some p"]
    by (simp add: wp_mono)
qed

lemma into_inner_wp:
  assumes "prepared (Suc c) w" and "storage w a = Some p" and "live k (heap w) p" and "p \<noteq> debt_none"
  shows "wp (arc_swap_into_inner s k t a) (\<lambda>v w'. v = from_ptr k p \<and>
      superseded k leases t a None p False w w' \<and> prepared c w') w"
proof -
  have "wp (strategy_wait s k t p a) (\<lambda>_ u. superseded k leases t a None p False w
      (u\<lparr>storage := (storage u)(a := None)\<rparr>) \<and> prepared c u) w"
    by (rule wp_mono [OF wait_current [OF assms]]) (use superseded_freed in blast)
  then show ?thesis
    using assms(2) by (simp add: arc_swap_into_inner_def wp_ptr_load wp_free_storage prepared_storage)
qed

lemma drop_wp:
  assumes "prepared (Suc c) w" and "storage w a = Some p" and "live k (heap w) p" and "p \<noteq> debt_none"
  shows "wp (arc_swap_drop s k t a) (\<lambda>_ w'. superseded k leases t a None p True w w' \<and> prepared c w') w"
proof -
  have "wp (strategy_wait s k t p a) (\<lambda>_ u. wp (bnd (t_dec k p) (\<lambda>_. free_storage a))
      (\<lambda>_ w'. superseded k leases t a None p True w w' \<and> prepared c w') u) w"
  proof (rule wp_mono [OF wait_current [OF assms]], elim conjE)
    fix u assume s: "superseded k leases t a (Some p) p False w u" and r: "prepared c u"
    show "wp (bnd (t_dec k p) (\<lambda>_. free_storage a))
        (\<lambda>_ w'. superseded k leases t a None p True w w' \<and> prepared c w') u"
      using superseded_lost [OF s assms(3)] superseded_freed [OF superseded_lost(2) [OF s assms(3)]] r
      by (simp add: wp_t_dec wp_free_storage prepared_heap prepared_storage)
  qed
  then show ?thesis using assms(2) by (simp add: arc_swap_drop_def wp_ptr_load)
qed

end

section \<open>Read, copy, update\<close>

lemma exchanged_superseded:
  "exchanged k leases t a p p q d w w' \<Longrightarrow> op_frame t w w' \<and> storage w' = (storage w)(a := Some q) \<and>
     same_ledger k w w' \<and> live k (heap w') p \<and>
     (\<forall>s. slot_val w' s = (if leases \<and> slot_val w s = p then debt_none else slot_val w s)) \<and>
     (\<forall>s. d = Some s \<longrightarrow> slot_ok w' s)"
  by (simp add: exchanged_def)

lemma guards_frame: "guards k p g w \<Longrightarrow> op_frame t w w' \<Longrightarrow> guards k p g w'"
  by (auto simp: guards_def op_frame_def)

text \<open>
  The outcome of an update of \<open>p\<close> to \<open>q\<close>: the new reference made by the closure is in the storage, the one that was
  there is handed to the caller.
\<close>

definition updated :: "kind \<Rightarrow> bool \<Rightarrow> tid \<Rightarrow> usize \<Rightarrow> usize \<Rightarrow> usize \<Rightarrow> 'v world \<Rightarrow> 'v world \<Rightarrow> bool" where
  "updated k leases t a p q w w' \<longleftrightarrow>
     op_frame t w w' \<and> storage w' = (storage w)(a := Some q) \<and>
     (\<forall>s. slot_val w' s = (if leases \<and> slot_val w s = p then debt_none else slot_val w s)) \<and>
     (\<forall>x. x \<noteq> debt_none \<longrightarrow> counted k x \<longrightarrow> ledger k w' x = ledger k w x + (if x = q then 1 else 0))"

lemma updated_chain:
  assumes l: "leased k t p d w u" and m: "made k t q u v" and e: "exchanged k leases t a p p q e v x"
    and c: "cashed k t p e x y" and r: "returned k t p d y w'" and p: "p \<noteq> debt_none"
    and lease: "d \<noteq> None \<longrightarrow> leases" "e \<noteq> None \<longrightarrow> leases"
  shows "updated k leases t a p q w w'"
proof -
  have fr: "op_frame t w w'"
    using l m e c r op_frame_trans unfolding leased_def made_def exchanged_def cashed_def returned_def
    by meson
  have sv: "slot_val v = slot_val u" using m by (simp add: made_def)
  have sx: "slot_val x s = (if leases \<and> slot_val u s = p then debt_none else slot_val u s)" for s
    using e by (simp add: exchanged_def sv)
  have su: "leases \<Longrightarrow> (if slot_val u s = p then debt_none else slot_val u s)
      = (if slot_val w s = p then debt_none else slot_val w s)" for s
    using l p by (auto simp: leased_def split: option.splits)
  have nx: "\<nexists>s. e = Some s \<and> slot_val x s = p" using sx lease(2) p by auto
  have sy: "slot_val y = slot_val x" using c nx by (simp add: cashed_def)
  have ny: "\<nexists>s. d = Some s \<and> slot_val y s = p" using sx sy lease(1) p by auto
  have sw: "slot_val w' = slot_val y" using r ny unfolding returned_def by (simp split: if_splits)
  have "slot_val w' s = (if leases \<and> slot_val w s = p then debt_none else slot_val w s)" for s
  proof (cases leases)
    case True
    then show ?thesis using su [of s] sx [of s] sy sw by simp
  next
    case False
    then have "d = None" using lease(1) by blast
    then have "slot_val u = slot_val w" using l by (simp add: leased_def)
    then show ?thesis using False sx [of s] sy sw by simp
  qed
  moreover have "storage w' = (storage w)(a := Some q)"
    using l m e c r by (simp add: leased_def made_def exchanged_def cashed_def returned_def)
  moreover have "ledger k w' z = ledger k w z + (if z = q then 1 else 0)"
    if z: "z \<noteq> debt_none" "counted k z" for z
  proof -
    have "ledger k u z = ledger k w z + (if z = p then 1 else 0)" using l z by (simp add: leased_def)
    moreover have "ledger k v z = ledger k u z + (if z = q then 1 else 0)" using m z by (simp add: made_def)
    moreover have "ledger k x z = ledger k v z" using e z by (simp add: exchanged_def same_ledger_def)
    moreover have "ledger k y z = ledger k x z" using c z by (simp add: cashed_def same_ledger_def)
    moreover have "ledger k w' z = ledger k y z - (if z = p then 1 else 0)" using r z by (simp add: returned_def)
    ultimately show ?thesis by simp
  qed
  ultimately show ?thesis using fr by (simp add: updated_def)
qed

context inner_strategy
begin

lemma rcu_wp:
  assumes r: "prepared (length (spurious w) + 3 + c) w" and st: "storage w a = Some p"
    and live: "live k (heap w) p" and p: "p \<noteq> debt_none"
    and f: "\<And>u d. leased k t p d w u \<Longrightarrow> wp (f (from_ptr k p)) (\<lambda>r u'. r = Inr (from_ptr k q) \<and>
        made k t q u u' \<and> (\<forall>c. prepared c u \<longrightarrow> prepared c u')) u"
  shows "wp (rcu (Suc fuel) s k t a f) (\<lambda>r w'. r = Inr (from_ptr k p) \<and>
      updated k leases t a p q w w' \<and> prepared c w') w"
proof -
  let ?Q = "\<lambda>(r :: fault + smart) w'. r = Inr (from_ptr k p) \<and> updated k leases t a p q w w' \<and> prepared c w'"
  have r1: "prepared (Suc (length (spurious w) + 2 + c)) w" using r by (simp add: numeral_3_eq_3)
  have fin: "wp (bnd (guard_into_inner k prev) (\<lambda>v. bnd (protected_drop cur) (\<lambda>_. ret (Inr v)))) ?Q x"
    if l: "leased k t p (protected_debt cur) w u" and gu: "guards k p cur u"
      and m: "made k t q u v" and e: "exchanged k leases t a p p q (protected_debt prev) v x"
      and gx: "guards k p prev x" and rx: "prepared c x"
      and ls: "protected_debt cur \<noteq> None \<longrightarrow> leases" "protected_debt prev \<noteq> None \<longrightarrow> leases"
    for cur prev u v x
  proof -
    have lx: "live k (heap x) p" using e by (simp add: exchanged_def)
    show ?thesis
      unfolding wp_bnd [of "guard_into_inner k prev"]
    proof (rule wp_mono [OF into_inner_prepared [OF gx lx]], elim conjE)
      fix val y assume v: "val = from_ptr k p" and c: "cashed k t p (protected_debt prev) x y"
        and ry: "\<forall>c. prepared c x \<longrightarrow> prepared c y"
      have ly: "live k (heap y) p"
        using c lx rc_count_inc_mono [OF lx, of p] by (auto simp: cashed_def live_def split: if_splits)
      have fry: "op_frame t u y"
        using m e c op_frame_trans unfolding made_def exchanged_def cashed_def by meson
      show "wp (bnd (protected_drop cur) (\<lambda>_. ret (Inr val))) ?Q y"
        unfolding wp_bnd wp_ret
        by (rule wp_mono [OF drop_prepared [OF guards_frame [OF gu fry] ly]])
          (use updated_chain [OF l m e c _ p ls] v rx ry in blast)
    qed
  qed
  show ?thesis
    unfolding rcu_def arc_swap_load_def wp_bnd
  proof (rule wp_mono [OF load [OF r1 st live]], elim conjE)
    fix cur u
    assume gu: "guards k p cur u" and l: "leased k t p (protected_debt cur) w u"
      and ls: "protected_debt cur \<noteq> None \<longrightarrow> leases" and ru: "prepared (length (spurious w) + 2 + c) u"
    have cur: "guard_deref cur = from_ptr k p" using gu by (simp add: guards_def guard_deref_def)
    show "wp (rcu_loop (Suc fuel) s k t a f cur) ?Q u"
      unfolding rcu_loop.simps cur wp_bnd [of "f (from_ptr k p)"]
    proof (rule wp_mono [OF f [OF l]], elim conjE)
      fix r :: "fault + smart" and v assume rv: "r = Inr (from_ptr k q)" and m: "made k t q u v"
        and pv: "\<forall>c. prepared c u \<longrightarrow> prepared c v"
      have stv: "storage v a = Some p" using m l st by (simp add: made_def leased_def)
      have lv: "live k (heap v) p" "live k (heap v) q"
      proof -
        have "rc_count k (heap u) p \<le> rc_count k (heap v) p" using m by (simp add: made_def no_less_def)
        then show "live k (heap v) p" using live_leased [OF l live live] by (auto simp: live_def)
        show "live k (heap v) q" using m by (simp add: made_def)
      qed
      have sp: "length (spurious v) \<le> length (spurious w)"
        using l m by (simp add: leased_def made_def op_frame_def)
      have prv: "prepared (length (spurious v) + 2 + c) v"
        using pv ru by (blast intro: prepared_mono [of "length (spurious w) + 2 + c"] add_le_mono1 sp)
      have "wp (strategy_cas s k t a (RefArg (from_ptr k p)) (from_ptr k q)) (\<lambda>prev x.
          guards k p prev x \<and> exchanged k leases t a p p q (protected_debt prev) v x \<and>
          (protected_debt prev \<noteq> None \<longrightarrow> leases) \<and> prepared c x) v"
        using cas [OF prv stv lv p, of "RefArg (from_ptr k p)"] by simp
      then have "wp (compare_and_swap s k t a (RefArg (from_ptr k p)) (from_ptr k q)) (\<lambda>prev x.
          wp (if ptr_eq (RefArg (from_ptr k p)) (RefArg (guard_deref prev))
              then bnd (guard_into_inner k prev) (\<lambda>v. bnd (protected_drop cur) (\<lambda>_. ret (Inr v)))
              else bnd (protected_drop cur) (\<lambda>_. rcu_loop fuel s k t a f prev)) ?Q x) v"
        unfolding compare_and_swap_def
      proof (rule wp_mono, elim conjE)
        fix prev x assume gx: "guards k p prev x"
          and e: "exchanged k leases t a p p q (protected_debt prev) v x"
          and lp: "protected_debt prev \<noteq> None \<longrightarrow> leases" and rx: "prepared c x"
        have "ptr_eq (RefArg (from_ptr k p)) (RefArg (guard_deref prev))"
          using gx by (simp add: ptr_eq_def guards_def guard_deref_def)
        then show "wp (if ptr_eq (RefArg (from_ptr k p)) (RefArg (guard_deref prev))
              then bnd (guard_into_inner k prev) (\<lambda>v. bnd (protected_drop cur) (\<lambda>_. ret (Inr v)))
              else bnd (protected_drop cur) (\<lambda>_. rcu_loop fuel s k t a f prev)) ?Q x"
          using fin [OF l gu m e gx rx ls lp] by simp
      qed
      then show "wp (case r of Inl e \<Rightarrow> bnd (protected_drop cur) (\<lambda>_. ret (Inl e))
          | Inr new \<Rightarrow> bnd (compare_and_swap s k t a (RefArg (from_ptr k p)) new) (\<lambda>prev.
              if ptr_eq (RefArg (from_ptr k p)) (RefArg (guard_deref prev))
              then bnd (guard_into_inner k prev) (\<lambda>v. bnd (protected_drop cur) (\<lambda>_. ret (Inr v)))
              else bnd (protected_drop cur) (\<lambda>_. rcu_loop fuel s k t a f prev))) ?Q v"
        by (simp add: rv)
    qed
  qed
qed

text \<open>A closure that panics: the guard is dropped by the unwinding, and nothing is left of the attempt.\<close>

lemma rcu_panic_wp:
  assumes r: "prepared (Suc c) w" and st: "storage w a = Some p" and live: "live k (heap w) p"
    and f: "\<And>u. f (from_ptr k p) u = Inr (Inl e, u)"
  shows "wp (rcu (Suc fuel) s k t a f) (\<lambda>r w'. r = Inl e \<and> op_frame t w w' \<and> storage w' = storage w \<and>
      heap w' = heap w \<and> slot_val w' = slot_val w \<and> prepared c w') w"
  unfolding rcu_def arc_swap_load_def wp_bnd
proof (rule wp_mono [OF load [OF r st live]], elim conjE)
  fix g u assume g: "guards k p g u" and l: "leased k t p (protected_debt g) w u" and ru: "prepared c u"
  have "wp (protected_drop g) (\<lambda>_ w'. op_frame t w w' \<and> storage w' = storage w \<and>
      heap w' = heap w \<and> slot_val w' = slot_val w \<and> prepared c w') u"
    by (rule wp_mono [OF drop_prepared [OF g live_leased [OF l live live]]])
      (use leased_returned [OF l _ live] ru in blast)
  moreover have "guard_deref g = from_ptr k p" using g by (simp add: guards_def guard_deref_def)
  moreover have "wp (f (from_ptr k p)) Q u \<longleftrightarrow> Q (Inl e) u" for Q by (rule wp_Inr) (rule f)
  ultimately show "wp (rcu_loop (Suc fuel) s k t a f g) (\<lambda>r w'. r = Inl e \<and> op_frame t w w' \<and>
      storage w' = storage w \<and> heap w' = heap w \<and> slot_val w' = slot_val w \<and> prepared c w') u"
    by simp
qed

end

end
