(* ===== verification/Ledger.thy ===== *)
theory Ledger
  imports Hybrid
begin

text \<open>
  Counting what belongs to whom: cells of the storages that hold a pointer, slots that hold it, and lists
  a position is taken out of. Shared by the machine of whole operations and the machine of single accesses.
\<close>

section \<open>Lists of handles\<close>

definition del_nth :: "nat \<Rightarrow> 'a list \<Rightarrow> 'a list" where
  "del_nth i xs = take i xs @ drop (Suc i) xs"

lemma set_del_nth_subset: "set (del_nth i xs) \<subseteq> set xs"
  by (auto simp: del_nth_def dest: in_set_takeD in_set_dropD)

lemma set_del_nth:
  assumes "i < length xs"
  shows "set xs = insert (xs ! i) (set (del_nth i xs))"
proof -
  have "set xs = set (take i xs @ xs ! i # drop (Suc i) xs)" using assms by (simp add: id_take_nth_drop [symmetric])
  then show ?thesis by (simp add: del_nth_def)
qed

section \<open>Cells\<close>

definition stored :: "(usize \<Rightarrow> usize option) \<Rightarrow> usize \<Rightarrow> nat" where
  "stored cells q = card {a. cells a = Some q}"

lemma finite_stored: "finite (dom cells) \<Longrightarrow> finite {a. cells a = Some q}"
  by (rule finite_subset [of _ "dom cells"]) auto

lemma stored_upd:
  assumes "finite (dom cells)"
  shows "stored (cells(a := x)) q + (if cells a = Some q then 1 else 0)
    = stored cells q + (if x = Some q then 1 else 0)"
proof -
  let ?A = "{b. b \<noteq> a \<and> cells b = Some q}"
  have fin: "finite ?A" by (rule finite_subset [OF _ finite_stored [OF assms, of q]]) auto
  have "{b. cells b = Some q} = (if cells a = Some q then insert a ?A else ?A)" by auto
  then have old: "stored cells q = card ?A + (if cells a = Some q then 1 else 0)"
    using fin by (simp add: stored_def)
  have "{b. (cells(a := x)) b = Some q} = (if x = Some q then insert a ?A else ?A)" by auto
  then have "stored (cells(a := x)) q = card ?A + (if x = Some q then 1 else 0)"
    using fin by (simp add: stored_def)
  with old show ?thesis by simp
qed

lemma stored_pos: "finite (dom cells) \<Longrightarrow> cells a = Some p \<Longrightarrow> 0 < stored cells p"
  using finite_stored [of cells p] by (auto simp: stored_def card_gt_0_iff)

section \<open>Slots\<close>

text \<open>All slots of the list, and what is owed in terms of them.\<close>

definition slot_list :: "'v world \<Rightarrow> slot_ref list" where
  "slot_list w = concat (map (\<lambda>j. all_slots j w) [0..<length (nodes w)])"

lemma distinct_slot_list: "distinct (slot_list w)"
proof -
  have "distinct (concat (map (\<lambda>j. all_slots j w) [0..<n]))" for n
  proof (induction n)
    case (Suc n)
    have "distinct (all_slots n w)" by (auto simp: all_slots_def distinct_map inj_on_def)
    with Suc show ?case by (auto simp: all_slots_def)
  qed simp
  then show ?thesis by (simp add: slot_list_def)
qed

lemma slot_list_iff: "s \<in> set (slot_list w) \<longleftrightarrow> slot_ok w s"
  by (cases s) (auto simp: slot_list_def all_slots_def slot_ok_def image_iff)

lemma owed_slots: "owed w q = length (filter (\<lambda>s. read_slot s w = q) (slot_list w))"
proof -
  have "node_slots (nodes w ! j) = map (\<lambda>s. read_slot s w) (all_slots j w)" for j
    by (simp add: node_slots_def all_slots_def comp_def map_nth)
  then have "node_owed q (nodes w ! j) = length (filter (\<lambda>s. read_slot s w = q) (all_slots j w))" for j
    by (simp add: node_owed_def count_list_eq_length_filter filter_map comp_def eq_commute)
  moreover have "owed w q = sum_list (map (\<lambda>j. node_owed q (nodes w ! j)) [0..<length (nodes w)])"
    unfolding owed_def by (rule arg_cong [of _ _ sum_list], rule nth_equalityI) simp_all
  ultimately show ?thesis
    by (simp add: slot_list_def filter_concat length_concat comp_def)
qed

end
