(* ===== verification/System.thy ===== *)
theory System
  imports Arc_Swap Ledger
begin

text \<open>
  A program that uses the crate: storages of one kind of pointer, each with its strategy, and the handles the
  program holds, owned pointers and guards. The machine runs one operation of the public interface of
  lib.rs after the other, by any thread. Its invariant accounts for every reference.
\<close>

section \<open>The machine\<close>

record 'v sys =
  sw :: "'v world"
  handles :: "protected list"

text \<open>
  The operations name a handle by its position in the list; a handle that is consumed leaves the list, a
  new one is added at its end. The pointer of an allocation is chosen by the allocator.
\<close>

datatype 'v api =
    Load tid usize
  | LoadFull tid usize
  | Store tid usize nat
  | Swap tid usize nat
  | Cas tid usize raw_arg nat
  | Create usize nat
  | IntoInner tid usize
  | DropStorage tid usize
  | DropHandle nat
  | CashHandle nat
  | CloneHandle nat
  | Alloc usize 'v
  | Null
  | ThreadExit tid

definition on_world :: "('v world, 'a) op \<Rightarrow> ('v sys, 'a) op" where
  "on_world m = (\<lambda>S. case m (sw S) of Inl e \<Rightarrow> Inl e | Inr (r, w') \<Rightarrow> Inr (r, S\<lparr>sw := w'\<rparr>))"

definition gain :: "protected \<Rightarrow> ('v sys, unit) op" where
  "gain h = modify (\<lambda>S. S\<lparr>handles := handles S @ [h]\<rparr>)"

text \<open>Take the handle at a position out of the list.\<close>

definition take_out :: "nat \<Rightarrow> ('v sys, protected) op" where
  "take_out i =
     bnd (gets (\<lambda>S. handles S ! i)) (\<lambda>h.
     bnd (modify (\<lambda>S. S\<lparr>handles := del_nth i (handles S)\<rparr>)) (\<lambda>_. ret h))"

fun api_run :: "kind \<Rightarrow> (usize \<Rightarrow> strategy) \<Rightarrow> 'v api \<Rightarrow> ('v sys, unit) op" where
  "api_run k strat (Load t a) = bnd (on_world (arc_swap_load (strat a) k t a)) gain"
| "api_run k strat (LoadFull t a) = bnd (on_world (load_full (strat a) k t a)) (\<lambda>v. gain (Owned v))"
| "api_run k strat (Store t a i) =
     bnd (take_out i) (\<lambda>h. on_world (arc_swap_store (strat a) k t a (protected_borrow h)))"
| "api_run k strat (Swap t a i) =
     bnd (take_out i) (\<lambda>h.
     bnd (on_world (arc_swap_swap (strat a) k t a (protected_borrow h))) (\<lambda>v. gain (Owned v)))"
| "api_run k strat (Cas t a cur i) =
     bnd (take_out i) (\<lambda>h.
     bnd (on_world (compare_and_swap (strat a) k t a cur (protected_borrow h))) gain)"
| "api_run k strat (Create a i) =
     bnd (take_out i) (\<lambda>h. on_world (arc_swap_new a (protected_borrow h)))"
| "api_run k strat (IntoInner t a) =
     bnd (on_world (arc_swap_into_inner (strat a) k t a)) (\<lambda>v. gain (Owned v))"
| "api_run k strat (DropStorage t a) = on_world (arc_swap_drop (strat a) k t a)"
| "api_run k strat (DropHandle i) = bnd (take_out i) (\<lambda>h. on_world (protected_drop h))"
| "api_run k strat (CashHandle i) =
     bnd (take_out i) (\<lambda>h. bnd (on_world (guard_into_inner k h)) (\<lambda>v. gain (Owned v)))"
| "api_run k strat (CloneHandle i) =
     bnd (gets (\<lambda>S. handles S ! i)) (\<lambda>h.
     bnd (on_world (t_clone (protected_borrow h))) (\<lambda>_. gain (Owned (protected_borrow h))))"
| "api_run k strat (Alloc p v) =
     bnd (on_world (arc_new p v)) (\<lambda>_. gain (Owned (from_ptr k p)))"
| "api_run k strat Null = gain (Owned (from_ptr k 0))"
| "api_run k strat (ThreadExit t) = on_world (thread_exit t)"

text \<open>
  When the program may call an operation: the storages and handles it names exist (what is consumed is an owned
  pointer), memory for a new allocation is free, and the thread can get a node and has generations left.
\<close>

definition fit :: "(usize \<Rightarrow> strategy) \<Rightarrow> tid \<Rightarrow> usize \<Rightarrow> nat \<Rightarrow> 'v world \<Rightarrow> bool" where
  "fit strat t a c w \<longleftrightarrow> storage w a \<noteq> None \<and>
     (strategy_leases (strat a) \<longrightarrow>
        (ln_node (locals w (Thread t)) = None \<longrightarrow> can_grow w) \<and>
        room (Thread t) (c * (node_bound t w + 2)) w)"

definition owned_at :: "nat \<Rightarrow> protected list \<Rightarrow> bool" where
  "owned_at i hs \<longleftrightarrow> i < length hs \<and> protected_debt (hs ! i) = None"

fun api_pre :: "kind \<Rightarrow> (usize \<Rightarrow> strategy) \<Rightarrow> 'v api \<Rightarrow> 'v sys \<Rightarrow> bool" where
  "api_pre k strat (Load t a) S = fit strat t a 1 (sw S)"
| "api_pre k strat (LoadFull t a) S = fit strat t a 1 (sw S)"
| "api_pre k strat (Store t a i) S = (fit strat t a 1 (sw S) \<and> owned_at i (handles S))"
| "api_pre k strat (Swap t a i) S = (fit strat t a 1 (sw S) \<and> owned_at i (handles S))"
| "api_pre k strat (Cas t a cur i) S =
     (fit strat t a (length (spurious (sw S)) + 2) (sw S) \<and> owned_at i (handles S) \<and> \<not> by_value cur)"
| "api_pre k strat (Create a i) S = (storage (sw S) a = None \<and> owned_at i (handles S))"
| "api_pre k strat (IntoInner t a) S = fit strat t a 1 (sw S)"
| "api_pre k strat (DropStorage t a) S = fit strat t a 1 (sw S)"
| "api_pre k strat (DropHandle i) S = (i < length (handles S))"
| "api_pre k strat (CashHandle i) S = (i < length (handles S))"
| "api_pre k strat (CloneHandle i) S = (i < length (handles S))"
| "api_pre k strat (Alloc p v) S =
     (\<not> weak_kind k \<and> heap (sw S) p = None \<and> p \<noteq> 0 \<and> p \<noteq> debt_none)"
| "api_pre k strat Null S = nullable k"
| "api_pre k strat (ThreadExit t) S = True"

section \<open>The books\<close>

text \<open>
  The abstract side: slots, cells of the storages, handles. Every pointer in a slot is the debt of a handle, and a
  storage that hands out debts holds it.
\<close>

definition hptr :: "protected \<Rightarrow> usize" where
  "hptr h = as_ptr (protected_borrow h)"

definition held :: "protected list \<Rightarrow> usize \<Rightarrow> nat" where
  "held hs q = length (filter (\<lambda>h. hptr h = q) hs)"

definition backed ::
  "(usize \<Rightarrow> bool) \<Rightarrow> (slot_ref \<Rightarrow> usize) \<Rightarrow> (usize \<Rightarrow> usize option) \<Rightarrow> protected list \<Rightarrow> bool" where
  "backed lends slots cells hs \<longleftrightarrow>
     finite (dom cells) \<and> (\<forall>a p. cells a = Some p \<longrightarrow> p \<noteq> debt_none) \<and>
     (\<forall>h\<in>set hs. hptr h \<noteq> debt_none \<and> (\<forall>s. protected_debt h = Some s \<longrightarrow> (\<exists>n i. s = FastSlot n i))) \<and>
     (\<forall>s. slots s \<noteq> debt_none \<longrightarrow>
        (\<exists>h\<in>set hs. protected_debt h = Some s \<and> hptr h = slots s) \<and>
        (\<exists>a. cells a = Some (slots s) \<and> lends a))"

lemma held_del_nth:
  assumes "i < length hs"
  shows "held (del_nth i hs) q + (if hptr (hs ! i) = q then 1 else 0) = held hs q"
proof -
  have "held hs q = length (filter (\<lambda>h. hptr h = q) (take i hs @ hs ! i # drop (Suc i) hs))"
    unfolding held_def using assms by (simp add: id_take_nth_drop [symmetric])
  then show ?thesis by (simp add: del_nth_def held_def)
qed

lemma held_snoc [simp]: "held (hs @ [h]) q = held hs q + (if hptr h = q then 1 else 0)"
  by (simp add: held_def)

section \<open>Moves on the books\<close>

lemma backedI:
  assumes "finite (dom cells)" and "\<And>a. cells a \<noteq> Some debt_none"
    and "\<And>h. h \<in> set hs \<Longrightarrow> hptr h \<noteq> debt_none"
    and "\<And>h s. h \<in> set hs \<Longrightarrow> protected_debt h = Some s \<Longrightarrow> \<exists>n i. s = FastSlot n i"
    and "\<And>s. slots s \<noteq> debt_none \<Longrightarrow> \<exists>h\<in>set hs. protected_debt h = Some s \<and> hptr h = slots s"
    and "\<And>s. slots s \<noteq> debt_none \<Longrightarrow> \<exists>a. cells a = Some (slots s) \<and> lends a"
  shows "backed lends slots cells hs"
  using assms by (auto simp: backed_def)

lemma backedD:
  assumes "backed lends slots cells hs"
  shows "finite (dom cells)" and "cells a \<noteq> Some debt_none"
    and "h \<in> set hs \<Longrightarrow> hptr h \<noteq> debt_none"
    and "h \<in> set hs \<Longrightarrow> protected_debt h = Some s \<Longrightarrow> \<exists>n i. s = FastSlot n i"
    and "slots s \<noteq> debt_none \<Longrightarrow> \<exists>h\<in>set hs. protected_debt h = Some s \<and> hptr h = slots s"
    and "slots s \<noteq> debt_none \<Longrightarrow> \<exists>a. cells a = Some (slots s) \<and> lends a"
  using assms by (auto simp: backed_def)

lemma backed_gain:
  assumes "backed lends slots cells hs" and "hptr h \<noteq> debt_none"
    and "\<And>s. protected_debt h = Some s \<Longrightarrow> \<exists>n i. s = FastSlot n i"
  shows "backed lends slots cells (hs @ [h])"
  using assms unfolding backed_def by auto

lemma backed_lease:
  assumes b: "backed lends slots cells hs" and h: "hptr h = p" "p \<noteq> debt_none" "protected_debt h = Some s"
    and s: "\<exists>n i. s = FastSlot n i" and a: "cells a = Some p" "lends a"
  shows "backed lends (slots(s := p)) cells (hs @ [h])"
  using b h a s unfolding backed_def by auto

text \<open>The slots after the handle with the debt \<open>d\<close> on \<open>p\<close> was given up.\<close>

fun give_back :: "slot_ref option \<Rightarrow> usize \<Rightarrow> (slot_ref \<Rightarrow> usize) \<Rightarrow> slot_ref \<Rightarrow> usize" where
  "give_back None p slots = slots"
| "give_back (Some s) p slots = (if slots s = p then slots(s := debt_none) else slots)"

lemma give_back_same: "give_back d p slots s \<noteq> debt_none \<Longrightarrow> give_back d p slots s = slots s"
  by (cases d) (auto split: if_splits)

lemma give_back_clear: "give_back (Some s) p slots s \<noteq> debt_none \<Longrightarrow> slots s \<noteq> p"
  by (auto split: if_splits)

lemma backed_drop:
  assumes b: "backed lends slots cells hs" and i: "i < length hs"
  shows "backed lends (give_back (protected_debt (hs ! i)) (hptr (hs ! i)) slots) cells (del_nth i hs)"
    (is "backed _ ?slots _ _")
proof (rule backedI)
  have sub: "h \<in> set hs" if "h \<in> set (del_nth i hs)" for h
    by (rule subsetD [OF set_del_nth_subset that])
  show "finite (dom cells)" by (rule backedD(1) [OF b])
  show "cells a \<noteq> Some debt_none" for a by (rule backedD(2) [OF b])
  show "hptr h \<noteq> debt_none" if "h \<in> set (del_nth i hs)" for h
    by (rule backedD(3) [OF b sub [OF that]])
  show "\<exists>n i. s = FastSlot n i" if "h \<in> set (del_nth i hs)" and "protected_debt h = Some s" for h s
    by (rule backedD(4) [OF b sub [OF that(1)] that(2)])
  fix s assume s: "?slots s \<noteq> debt_none"
  note same = give_back_same [OF s]
  have t: "slots s \<noteq> debt_none" using same s by simp
  show "\<exists>a. cells a = Some (?slots s) \<and> lends a"
    unfolding same by (rule backedD(6) [OF b t])
  obtain h where h: "h \<in> set hs" "protected_debt h = Some s" "hptr h = slots s"
    using backedD(5) [OF b t] by blast
  have "h \<noteq> hs ! i"
  proof
    assume eq: "h = hs ! i"
    have "give_back (Some s) (hptr h) slots s \<noteq> debt_none" using s h(2) eq by metis
    from give_back_clear [OF this] h(3) show False by simp
  qed
  then have "h \<in> set (del_nth i hs)" using h(1) set_del_nth [OF i] by simp
  then show "\<exists>h\<in>set (del_nth i hs). protected_debt h = Some s \<and> hptr h = ?slots s"
    unfolding same using h(2,3) by blast
qed

lemma backed_take_owned:
  assumes "backed lends slots cells hs" and "owned_at i hs"
  shows "backed lends slots cells (del_nth i hs)"
  using backed_drop [OF assms(1), of i] assms(2) by (simp add: owned_at_def)

lemma backed_settle:
  assumes b: "backed lends slots cells hs" and a: "cells a = Some p"
    and slots': "\<And>s. slots' s = (if lends a \<and> slots s = p then debt_none else slots s)"
    and x: "x \<noteq> Some debt_none"
  shows "backed lends slots' (cells(a := x)) hs"
proof -
  have "(\<exists>h\<in>set hs. protected_debt h = Some s \<and> hptr h = slots' s) \<and>
      (\<exists>a'. (cells(a := x)) a' = Some (slots' s) \<and> lends a')" if s: "slots' s \<noteq> debt_none" for s
  proof -
    have same: "slots' s = slots s" using s slots' [of s] by (auto split: if_splits)
    then obtain a' where a': "cells a' = Some (slots s)" "lends a'"
      using b s by (auto simp: backed_def)
    moreover have "a' \<noteq> a" using a a' s slots' [of s] by (auto split: if_splits)
    ultimately show ?thesis using b s same by (auto simp: backed_def)
  qed
  moreover have "finite (dom (cells(a := x)))" using b by (simp add: backed_def)
  ultimately show ?thesis using b x unfolding backed_def by auto
qed

lemma backed_create:
  assumes b: "backed lends slots cells hs" and a: "cells a = None" and q: "q \<noteq> debt_none"
  shows "backed lends slots (cells(a := Some q)) hs"
proof (rule backedI)
  show "finite (dom (cells(a := Some q)))" using backedD(1) [OF b] by simp
  show "(cells(a := Some q)) b' \<noteq> Some debt_none" for b' using q backedD(2) [OF b, of b'] by simp
  fix s assume s: "slots s \<noteq> debt_none"
  show "\<exists>h\<in>set hs. protected_debt h = Some s \<and> hptr h = slots s" by (rule backedD(5) [OF b s])
  obtain a' where "cells a' = Some (slots s)" and "lends a'" using backedD(6) [OF b s] by blast
  moreover then have "a' \<noteq> a" using a by auto
  ultimately show "\<exists>a'. (cells(a := Some q)) a' = Some (slots s) \<and> lends a'" by auto
qed (use backedD(3,4) [OF b] in blast)+

section \<open>The invariant\<close>

text \<open>Between two operations no transaction is open and no lock is taken.\<close>

definition calm :: "'v world \<Rightarrow> bool" where
  "calm w \<longleftrightarrow> wf_world w \<and> (\<forall>nd\<in>set (nodes w). control (helping nd) = IDLE) \<and>
     (\<forall>t. \<not> tls_gone w t) \<and> (\<forall>a. rwlocks w a = unlocked)"

text \<open>
  The accounts: what the ledger of a pointer says is the number of handles and of storages with that pointer.
\<close>

definition accounted :: "kind \<Rightarrow> 'v world \<Rightarrow> protected list \<Rightarrow> bool" where
  "accounted k w hs \<longleftrightarrow> (\<forall>q. q \<noteq> debt_none \<longrightarrow> counted k q \<longrightarrow>
     ledger k w q = int (held hs q) + int (stored (storage w) q))"

abbreviation lending :: "(usize \<Rightarrow> strategy) \<Rightarrow> usize \<Rightarrow> bool" where
  "lending strat \<equiv> \<lambda>a. strategy_leases (strat a)"

definition books :: "kind \<Rightarrow> (usize \<Rightarrow> strategy) \<Rightarrow> 'v world \<Rightarrow> protected list \<Rightarrow> bool" where
  "books k strat w hs \<longleftrightarrow> calm w \<and> backed (lending strat) (slot_val w) (storage w) hs \<and>
     (\<forall>h\<in>set hs. guards k (hptr h) h w) \<and> accounted k w hs"

definition sys_inv :: "kind \<Rightarrow> (usize \<Rightarrow> strategy) \<Rightarrow> 'v sys \<Rightarrow> bool" where
  "sys_inv k strat S \<longleftrightarrow> books k strat (sw S) (handles S)"

lemma invD:
  assumes "books k strat w hs"
  shows "calm w" "backed (lending strat) (slot_val w) (storage w) hs"
    "h \<in> set hs \<Longrightarrow> guards k (hptr h) h w" "accounted k w hs"
  using assms by (auto simp: books_def)

lemma calm_frame: "calm w \<Longrightarrow> op_frame t w w' \<Longrightarrow> calm w'"
  by (auto simp: calm_def op_frame_def all_set_conv_all_nth)

lemma calm_mailed: "calm w \<Longrightarrow> mailed w q = 0"
  by (auto simp: calm_def mailed_def node_mailed_def sum_list_eq_0_iff)

lemma inv_at_rest:
  assumes i: "books k strat w hs"
  shows "at_rest l w"
proof -
  note b = invD(2) [OF i]
  have "slot (helping (nodes w ! n)) = debt_none" if n: "n < length (nodes w)" for n
  proof (rule ccontr)
    assume "slot (helping (nodes w ! n)) \<noteq> debt_none"
    then have "slot_val w (HelpSlot n) \<noteq> debt_none" using n by (simp add: slot_val_def slot_ok_def)
    from backedD(5) [OF b this] obtain h where h: "h \<in> set hs" "protected_debt h = Some (HelpSlot n)" by blast
    from backedD(4) [OF b this] show False by simp
  qed
  moreover have "n < length (nodes w)" if "ln_node (locals w l) = Some n" for n
    using that invD(1) [OF i] wf_ownD [of w l n] by (simp add: calm_def)
  ultimately show ?thesis
    using invD(1) [OF i] by (auto simp: at_rest_def idle_helping_def calm_def)
qed

lemma inv_ready:
  assumes i: "books k strat w hs" and f: "fit strat t a c w"
  shows "strategy_ready (strat a) t a c w"
proof (cases "strat a")
  case (HybridStrategy uf)
  then show ?thesis
    using f invD(1) [OF i] inv_at_rest [OF i] by (simp add: fit_def ready_def calm_def)
next
  case RwLockStrategy
  then show ?thesis using invD(1) [OF i] by (simp add: calm_def)
qed

lemma owed_le_held:
  assumes b: "backed lends (slot_val w) cells hs" and q: "q \<noteq> debt_none"
  shows "owed w q \<le> held hs q" and "0 < owed w q \<Longrightarrow> 0 < stored cells q"
proof -
  let ?L = "filter (\<lambda>s. read_slot s w = q) (slot_list w)"
  have L: "slot_val w s = q" if "s \<in> set ?L" for s
    using that by (auto simp: slot_list_iff slot_val_def)
  have "set ?L \<subseteq> (\<lambda>h. the (protected_debt h)) ` set (filter (\<lambda>h. hptr h = q) hs)"
  proof
    fix s assume s: "s \<in> set ?L"
    then obtain h where "h \<in> set hs" "protected_debt h = Some s" "hptr h = q"
      using backedD(5) [OF b, of s] L [OF s] q by auto
    then show "s \<in> (\<lambda>h. the (protected_debt h)) ` set (filter (\<lambda>h. hptr h = q) hs)" by force
  qed
  then have "card (set ?L) \<le> card (set (filter (\<lambda>h. hptr h = q) hs))"
    by (meson List.finite_set card_image_le card_mono finite_imageI le_trans)
  then show "owed w q \<le> held hs q"
    using distinct_card [of ?L] distinct_slot_list [of w] card_length [of "filter (\<lambda>h. hptr h = q) hs"]
    by (simp add: owed_slots held_def)
  assume "0 < owed w q"
  then obtain s where s: "s \<in> set ?L" unfolding owed_slots
    by (metis length_greater_0_conv last_in_set)
  then obtain a where "cells a = Some q" using backedD(6) [OF b, of s] L [OF s] q by auto
  then show "0 < stored cells q"
    using finite_stored [OF backedD(1) [OF b], of q] by (auto simp: stored_def card_gt_0_iff)
qed

text \<open>Every pointer a handle or a storage has is alive.\<close>

lemma inv_live:
  assumes i: "books k strat w hs" and q: "q \<noteq> debt_none" and pos: "0 < held hs q + stored (storage w) q"
  shows "live k (heap w) q"
proof -
  have "0 < rc_count k (heap w) q" if c: "counted k q"
  proof -
    have "ledger k w q = int (held hs q) + int (stored (storage w) q)"
      using invD(4) [OF i] q c by (simp add: accounted_def)
    then have "int (rc_count k (heap w) q) + int (owed w q) = int (held hs q) + int (stored (storage w) q)"
      using calm_mailed [OF invD(1) [OF i]] by (simp add: ledger_def)
    with owed_le_held [OF invD(2) [OF i] q] pos show ?thesis by linarith
  qed
  then show ?thesis by (simp add: live_def)
qed

lemma held_pos: "h \<in> set hs \<Longrightarrow> 0 < held hs (hptr h)"
  by (auto simp: held_def length_greater_0_conv filter_empty_conv simp del: length_0_conv)

lemma inv_live_handle: "books k strat w hs \<Longrightarrow> h \<in> set hs \<Longrightarrow> live k (heap w) (hptr h)"
  using inv_live [of k strat w hs "hptr h"] held_pos [of h hs]
    backedD(3) [OF invD(2), of k strat w hs h] by auto

lemma inv_live_storage: "books k strat w hs \<Longrightarrow> storage w a = Some p \<Longrightarrow> live k (heap w) p \<and> p \<noteq> debt_none"
  using inv_live [of k strat w hs p] stored_pos [OF backedD(1) [OF invD(2)], of k strat w hs a p]
    backedD(2) [OF invD(2), of k strat w hs a] by auto

section \<open>The specification\<close>

text \<open>
  What the program sees: which pointer every storage holds and the pointers of its handles. There are no
  debts, nodes, counts or threads in it.
\<close>

type_synonym abs_state = "(usize \<Rightarrow> usize option) \<times> usize list"

definition view :: "'v sys \<Rightarrow> abs_state" where
  "view S = (storage (sw S), map hptr (handles S))"

fun api_spec :: "'v api \<Rightarrow> abs_state \<Rightarrow> abs_state" where
  "api_spec (Load t a) (cells, ps) = (cells, ps @ [the (cells a)])"
| "api_spec (LoadFull t a) (cells, ps) = (cells, ps @ [the (cells a)])"
| "api_spec (Store t a i) (cells, ps) = (cells(a := Some (ps ! i)), del_nth i ps)"
| "api_spec (Swap t a i) (cells, ps) = (cells(a := Some (ps ! i)), del_nth i ps @ [the (cells a)])"
| "api_spec (Cas t a cur i) (cells, ps) =
     (if the (cells a) = as_raw cur then cells(a := Some (ps ! i)) else cells, del_nth i ps @ [the (cells a)])"
| "api_spec (Create a i) (cells, ps) = (cells(a := Some (ps ! i)), del_nth i ps)"
| "api_spec (IntoInner t a) (cells, ps) = (cells(a := None), ps @ [the (cells a)])"
| "api_spec (DropStorage t a) (cells, ps) = (cells(a := None), ps)"
| "api_spec (DropHandle i) (cells, ps) = (cells, del_nth i ps)"
| "api_spec (CashHandle i) (cells, ps) = (cells, del_nth i ps @ [ps ! i])"
| "api_spec (CloneHandle i) (cells, ps) = (cells, ps @ [ps ! i])"
| "api_spec (Alloc p v) (cells, ps) = (cells, ps @ [p])"
| "api_spec Null (cells, ps) = (cells, ps @ [0])"
| "api_spec (ThreadExit t) (cells, ps) = (cells, ps)"

definition tracks :: "kind \<Rightarrow> (usize \<Rightarrow> strategy) \<Rightarrow> 'v api \<Rightarrow> 'v sys \<Rightarrow> 'v sys \<Rightarrow> bool" where
  "tracks k strat x S S' \<longleftrightarrow> sys_inv k strat S' \<and> view S' = api_spec x (view S)"

lemma map_del_nth: "map f (del_nth i xs) = del_nth i (map f xs)"
  by (simp add: del_nth_def take_map drop_map)

section \<open>Every operation keeps the invariant and follows the specification\<close>

lemma hptr_Owned [simp]: "hptr (Owned (from_ptr k p)) = p"
  by (simp add: hptr_def)

lemma guards_hptr: "guards k p h w \<Longrightarrow> hptr h = p"
  by (simp add: guards_def hptr_def)

lemma guards_Owned [simp]: "guards k p (Owned (from_ptr k p)) w"
  by (simp add: guards_def)

lemma guards_kept:
  assumes "books k strat w hs" and "op_frame t w w'" and "set hs' \<subseteq> set hs"
  shows "\<forall>h\<in>set hs'. guards k (hptr h) h w'"
  using guards_frame [OF invD(3) [OF assms(1)] assms(2)] assms(3) by (simp add: subset_iff)

lemma books_lease:
  assumes i: "books k strat w hs" and a: "storage w a = Some p" and g: "guards k p g w'"
    and l: "leased k t p (protected_debt g) w w'" and d: "protected_debt g \<noteq> None \<longrightarrow> strategy_leases (strat a)"
  shows "books k strat w' (hs @ [g])"
proof -
  note b = invD(2) [OF i]
  have fr: "op_frame t w w'" and st: "storage w' = storage w" using l by (auto simp: leased_def)
  have p: "p \<noteq> debt_none" using backedD(2) [OF b, of a] a by auto
  have hp: "hptr g = p" by (rule guards_hptr [OF g])
  have "backed (lending strat) (slot_val w') (storage w) (hs @ [g])"
  proof (cases "protected_debt g")
    case None
    then show ?thesis using l backed_gain [OF b, of g] p hp by (simp add: leased_def)
  next
    case (Some s)
    then show ?thesis
      using l backed_lease [OF b hp p Some _ a] d by (auto simp: leased_def)
  qed
  moreover have "accounted k w' (hs @ [g])"
    using invD(4) [OF i] l hp by (simp add: accounted_def leased_def)
  moreover have "\<forall>h\<in>set (hs @ [g]). guards k (hptr h) h w'"
    using g hp invD(3) [OF i] guards_frame [OF _ fr] by auto
  ultimately show ?thesis
    using calm_frame [OF invD(1) [OF i] fr] st by (simp add: books_def)
qed

text \<open>A handle that is given up, and one that is turned into an owned pointer.\<close>

lemma books_return:
  assumes i: "books k strat w hs" and n: "n < length hs"
    and r: "returned k t (hptr (hs ! n)) (protected_debt (hs ! n)) w w'"
  shows "books k strat w' (del_nth n hs)"
proof -
  let ?h = "hs ! n"
  have fr: "op_frame t w w'" and st: "storage w' = storage w" using r by (auto simp: returned_def)
  have "slot_val w' = give_back (protected_debt ?h) (hptr ?h) (slot_val w)"
    using r by (cases "protected_debt ?h") (auto simp: returned_def split: if_splits)
  then have "backed (lending strat) (slot_val w') (storage w') (del_nth n hs)"
    using backed_drop [OF invD(2) [OF i] n] st by simp
  moreover have "accounted k w' (del_nth n hs)"
    unfolding accounted_def
  proof (intro allI impI)
    fix q assume q: "q \<noteq> debt_none" "counted k q"
    show "ledger k w' q = int (held (del_nth n hs) q) + int (stored (storage w') q)"
      using invD(4) [OF i] r q st held_del_nth [OF n, of q]
      by (auto simp: accounted_def returned_def split: if_splits)
  qed
  moreover have "\<forall>h\<in>set (del_nth n hs). guards k (hptr h) h w'"
    by (rule guards_kept [OF i fr set_del_nth_subset])
  ultimately show ?thesis
    using calm_frame [OF invD(1) [OF i] fr] by (simp add: books_def)
qed

lemma books_cash:
  assumes i: "books k strat w hs" and n: "n < length hs"
    and c: "cashed k t (hptr (hs ! n)) (protected_debt (hs ! n)) w w'"
  shows "books k strat w' (del_nth n hs @ [Owned (from_ptr k (hptr (hs ! n)))])"
proof -
  let ?h = "hs ! n"
  have fr: "op_frame t w w'" and st: "storage w' = storage w" using c by (auto simp: cashed_def)
  have "slot_val w' = give_back (protected_debt ?h) (hptr ?h) (slot_val w)"
    using c by (cases "protected_debt ?h") (auto simp: cashed_def split: if_splits)
  then have "backed (lending strat) (slot_val w') (storage w') (del_nth n hs @ [Owned (from_ptr k (hptr ?h))])"
    using backed_gain [OF backed_drop [OF invD(2) [OF i] n], of "Owned (from_ptr k (hptr ?h))"]
      backedD(3) [OF invD(2) [OF i] nth_mem [OF n]] st by simp
  moreover have "accounted k w' (del_nth n hs @ [Owned (from_ptr k (hptr ?h))])"
    unfolding accounted_def
  proof (intro allI impI)
    fix q assume q: "q \<noteq> debt_none" "counted k q"
    show "ledger k w' q = int (held (del_nth n hs @ [Owned (from_ptr k (hptr ?h))]) q)
        + int (stored (storage w') q)"
      using invD(4) [OF i] c q st held_del_nth [OF n, of q]
      by (auto simp: accounted_def cashed_def same_ledger_def split: if_splits)
  qed
  moreover have "\<forall>h\<in>set (del_nth n hs @ [Owned (from_ptr k (hptr ?h))]). guards k (hptr h) h w'"
    using guards_kept [OF i fr set_del_nth_subset] by simp
  ultimately show ?thesis
    using calm_frame [OF invD(1) [OF i] fr] by (simp add: books_def)
qed

text \<open>
  The pointer of a storage is replaced: \<open>rest\<close> are the handles without the one that went into the storage, and
  \<open>out\<close> is the handle that the reference of the storage became, if it was not lost.
\<close>

lemma books_settle:
  assumes i: "books k strat w hs" and a: "storage w a = Some p" and x: "x \<noteq> Some debt_none"
    and fr: "op_frame t w w'" and st: "storage w' = (storage w)(a := x)"
    and slots: "\<And>s. slot_val w' s = (if strategy_leases (strat a) \<and> slot_val w s = p then debt_none else slot_val w s)"
    and led: "\<And>q. q \<noteq> debt_none \<Longrightarrow> counted k q \<Longrightarrow>
       ledger k w' q = ledger k w q - (if out = [] \<and> q = p then 1 else 0)"
    and rest: "backed (lending strat) (slot_val w) (storage w) rest" "set rest \<subseteq> set hs"
      "\<And>q. held rest q + (if x = Some q then 1 else 0) = held hs q"
    and out: "out = [] \<or> (\<exists>g. out = [g] \<and> guards k p g w' \<and> (\<forall>s. protected_debt g = Some s \<longrightarrow> (\<exists>n i. s = FastSlot n i)))"
  shows "books k strat w' (rest @ out)"
proof -
  have p: "p \<noteq> debt_none" using backedD(2) [OF invD(2) [OF i], of a] a by auto
  have hp: "hptr g = p" if "out = [g]" for g using out that guards_hptr by auto
  have b: "backed (lending strat) (slot_val w') (storage w') rest"
    using backed_settle [OF rest(1) a slots x] st by simp
  have "backed (lending strat) (slot_val w') (storage w') (rest @ out)"
    using out b backed_gain [OF b] hp p by auto
  moreover have "accounted k w' (rest @ out)"
    unfolding accounted_def
  proof (intro allI impI)
    fix q assume q: "q \<noteq> debt_none" "counted k q"
    have "held (rest @ out) q = held rest q + (if out \<noteq> [] \<and> q = p then 1 else 0)"
      using out hp by (auto simp: held_def)
    then show "ledger k w' q = int (held (rest @ out) q) + int (stored (storage w') q)"
      using invD(4) [OF i] q led [OF q] rest(3) [of q] stored_upd [OF backedD(1) [OF invD(2) [OF i]], of a x q] a st
      by (auto simp: accounted_def split: if_splits)
  qed
  moreover have "\<forall>h\<in>set (rest @ out). guards k (hptr h) h w'"
    using guards_kept [OF i fr rest(2)] out hp by auto
  ultimately show ?thesis
    using calm_frame [OF invD(1) [OF i] fr] by (simp add: books_def)
qed

lemma wp_on_world: "wp (on_world m) Q S \<longleftrightarrow> wp m (\<lambda>r w'. Q r (S\<lparr>sw := w'\<rparr>)) (sw S)"
  by (simp add: wp_def on_world_def split: sum.splits prod.splits)

lemma wp_gain: "wp (gain h) Q S \<longleftrightarrow> Q () (S\<lparr>handles := handles S @ [h]\<rparr>)"
  by (simp add: gain_def)

lemma wp_take_out:
  "wp (take_out i) Q S \<longleftrightarrow> Q (handles S ! i) (S\<lparr>handles := del_nth i (handles S)\<rparr>)"
  by (simp add: take_out_def)

lemmas api_wp = wp_on_world wp_gain wp_take_out sys_inv_def tracks_def view_def

text \<open>The handle that goes into a storage: an owned pointer of the kind.\<close>

lemma owned_handle:
  assumes i: "books k strat w hs" and n: "owned_at n hs"
  obtains q where "protected_borrow (hs ! n) = from_ptr k q" "hptr (hs ! n) = q" "q \<noteq> debt_none"
    "live k (heap w) q" "backed (lending strat) (slot_val w) (storage w) (del_nth n hs)"
    "\<And>x. held (del_nth n hs) x + (if Some q = Some x then 1 else 0) = held hs x"
proof
  have m: "hs ! n \<in> set hs" using n by (simp add: owned_at_def)
  show "protected_borrow (hs ! n) = from_ptr k (hptr (hs ! n))"
    using invD(3) [OF i m] by (simp add: guards_def)
  show "hptr (hs ! n) \<noteq> debt_none" by (rule backedD(3) [OF invD(2) [OF i] m])
  show "live k (heap w) (hptr (hs ! n))" by (rule inv_live_handle [OF i m])
  show "backed (lending strat) (slot_val w) (storage w) (del_nth n hs)"
    by (rule backed_take_owned [OF invD(2) [OF i] n])
  show "held (del_nth n hs) x + (if Some (hptr (hs ! n)) = Some x then 1 else 0) = held hs x" for x
    using held_del_nth [of n hs x] n by (simp add: owned_at_def)
qed simp

lemma fit_storage: "fit strat t a c w \<Longrightarrow> \<exists>p. storage w a = Some p"
  by (auto simp: fit_def)

lemma step_Load:
  assumes i: "sys_inv k strat S" and f: "fit strat t a 1 (sw S)"
  shows "wp (api_run k strat (Load t a)) (\<lambda>_. tracks k strat (Load t a) S) S"
    and "wp (api_run k strat (LoadFull t a)) (\<lambda>_. tracks k strat (LoadFull t a) S) S"
proof -
  have b: "books k strat (sw S) (handles S)" using i by (simp add: sys_inv_def)
  obtain p where p: "storage (sw S) a = Some p" using fit_storage [OF f] by blast
  have lv: "live k (heap (sw S)) p" using inv_live_storage [OF b p] by blast
  have r: "strategy_ready (strat a) t a (Suc 0) (sw S)" using inv_ready [OF b f] by simp
  show "wp (api_run k strat (Load t a)) (\<lambda>_. tracks k strat (Load t a) S) S"
    by (simp add: api_wp arc_swap_load_def)
      (rule wp_mono [OF any_strategy.load [OF r p lv]],
        use books_lease [OF b p] p guards_hptr in \<open>auto simp: leased_def\<close>)
  show "wp (api_run k strat (LoadFull t a)) (\<lambda>_. tracks k strat (LoadFull t a) S) S"
    by (simp add: api_wp) (rule wp_mono [OF any_strategy.load_full_wp [OF r p lv]],
        use books_lease [OF b p, of "Owned (from_ptr k p)"] p in \<open>auto simp: leased_def\<close>)
qed

lemma books_superseded:
  assumes i: "books k strat w hs" and a: "storage w a = Some p" and x: "x \<noteq> Some debt_none"
    and s: "superseded k (strategy_leases (strat a)) t a x p lost w w'"
    and rest: "backed (lending strat) (slot_val w) (storage w) rest" "set rest \<subseteq> set hs"
      "\<And>q. held rest q + (if x = Some q then 1 else 0) = held hs q"
  shows "books k strat w' (rest @ (if lost then [] else [Owned (from_ptr k p)]))"
  by (rule books_settle [OF i a x _ _ _ _ rest]) (use s in \<open>auto simp: superseded_def\<close>)

lemma step_Swap:
  assumes i: "sys_inv k strat S" and f: "fit strat t a 1 (sw S)" and n: "owned_at n (handles S)"
  shows "wp (api_run k strat (Swap t a n)) (\<lambda>_. tracks k strat (Swap t a n) S) S"
    and "wp (api_run k strat (Store t a n)) (\<lambda>_. tracks k strat (Store t a n) S) S"
proof -
  have b: "books k strat (sw S) (handles S)" using i by (simp add: sys_inv_def)
  obtain p where p: "storage (sw S) a = Some p" using fit_storage [OF f] by blast
  obtain q where q: "protected_borrow (handles S ! n) = from_ptr k q" "q \<noteq> debt_none" "live k (heap (sw S)) q"
    and rest: "backed (lending strat) (slot_val (sw S)) (storage (sw S)) (del_nth n (handles S))"
      "\<And>x. held (del_nth n (handles S)) x + (if Some q = Some x then 1 else 0) = held (handles S) x"
    using owned_handle [OF b n] by blast
  have lv: "live k (heap (sw S)) p" "p \<noteq> debt_none" using inv_live_storage [OF b p] by auto
  have r: "strategy_ready (strat a) t a (Suc 0) (sw S)" using inv_ready [OF b f] by simp
  note sup = books_superseded [OF b p _ _ rest(1) set_del_nth_subset rest(2)]
  show "wp (api_run k strat (Swap t a n)) (\<lambda>_. tracks k strat (Swap t a n) S) S"
    by (simp add: api_wp q(1)) (rule wp_mono [OF any_strategy.swap_wp [OF r p lv(1) q(3) lv(2)]],
        use sup [of t False] q(2) p n in \<open>auto simp: superseded_def map_del_nth owned_at_def hptr_def q(1)\<close>)
  show "wp (api_run k strat (Store t a n)) (\<lambda>_. tracks k strat (Store t a n) S) S"
    by (simp add: api_wp q(1)) (rule wp_mono [OF any_strategy.store_wp [OF r p lv(1) q(3) lv(2)]],
        use sup [of t True] q(2) p n in \<open>auto simp: superseded_def map_del_nth owned_at_def hptr_def q(1)\<close>)
qed

lemma step_IntoInner:
  assumes i: "sys_inv k strat S" and f: "fit strat t a 1 (sw S)"
  shows "wp (api_run k strat (IntoInner t a)) (\<lambda>_. tracks k strat (IntoInner t a) S) S"
    and "wp (api_run k strat (DropStorage t a)) (\<lambda>_. tracks k strat (DropStorage t a) S) S"
proof -
  have b: "books k strat (sw S) (handles S)" using i by (simp add: sys_inv_def)
  obtain p where p: "storage (sw S) a = Some p" using fit_storage [OF f] by blast
  have lv: "live k (heap (sw S)) p" "p \<noteq> debt_none" using inv_live_storage [OF b p] by auto
  have r: "strategy_ready (strat a) t a (Suc 0) (sw S)" using inv_ready [OF b f] by simp
  note sup = books_superseded [OF b p, of None, OF _ _ invD(2) [OF b]]
  show "wp (api_run k strat (IntoInner t a)) (\<lambda>_. tracks k strat (IntoInner t a) S) S"
    by (simp add: api_wp) (rule wp_mono [OF any_strategy.into_inner_wp [OF r p lv]],
        use sup [of t False] p in \<open>auto simp: superseded_def\<close>)
  show "wp (api_run k strat (DropStorage t a)) (\<lambda>_. tracks k strat (DropStorage t a) S) S"
    by (simp add: api_wp) (rule wp_mono [OF any_strategy.drop_wp [OF r p lv]], use sup [of t True] p in \<open>auto simp: superseded_def\<close>)
qed

lemma step_Cas:
  assumes i: "sys_inv k strat S" and f: "fit strat t a (length (spurious (sw S)) + 2) (sw S)"
    and n: "owned_at n (handles S)" and cur: "\<not> by_value cur"
  shows "wp (api_run k strat (Cas t a cur n)) (\<lambda>_. tracks k strat (Cas t a cur n) S) S"
proof -
  have b: "books k strat (sw S) (handles S)" using i by (simp add: sys_inv_def)
  obtain p where p: "storage (sw S) a = Some p" using fit_storage [OF f] by blast
  obtain q where q: "protected_borrow (handles S ! n) = from_ptr k q" "hptr (handles S ! n) = q"
      "q \<noteq> debt_none" "live k (heap (sw S)) q"
    and rest: "backed (lending strat) (slot_val (sw S)) (storage (sw S)) (del_nth n (handles S))"
      "\<And>x. held (del_nth n (handles S)) x + (if Some q = Some x then 1 else 0) = held (handles S) x"
    using owned_handle [OF b n] by blast
  have lv: "live k (heap (sw S)) p" "p \<noteq> debt_none" using inv_live_storage [OF b p] by auto
  have r: "strategy_ready (strat a) t a (length (spurious (sw S)) + 2 + 0) (sw S)"
    using inv_ready [OF b f] by simp
  have "books k strat w' (del_nth n (handles S) @ [g])"
    if g: "guards k p g w'" and d: "protected_debt g \<noteq> None \<longrightarrow> strategy_leases (strat a)"
      and e: "exchanged k (strategy_leases (strat a)) t a (as_raw cur) p q (protected_debt g) (sw S) w'" for g w'
  proof (cases "p = as_raw cur")
    case True
    show ?thesis
      by (rule books_settle [OF b p _ _ _ _ _ rest(1) set_del_nth_subset rest(2)])
        (use e True g q(3) in \<open>auto simp: exchanged_def same_ledger_def\<close>)
  next
    case False
    have hp: "hptr g = p" by (rule guards_hptr [OF g])
    have fr: "op_frame t (sw S) w'" and st: "storage w' = storage (sw S)"
      using e False by (auto simp: exchanged_def)
    have "backed (lending strat) (slot_val w') (storage w') (del_nth n (handles S) @ [g])"
    proof (cases "protected_debt g")
      case None
      then show ?thesis using e False backed_gain [OF rest(1), of g] hp lv st by (simp add: exchanged_def)
    next
      case (Some s)
      then show ?thesis
        using e False backed_lease [OF rest(1) hp lv(2) Some _ p] d st by (auto simp: exchanged_def)
    qed
    moreover have "accounted k w' (del_nth n (handles S) @ [g])"
      unfolding accounted_def
    proof (intro allI impI)
      fix x assume x: "x \<noteq> debt_none" "counted k x"
      show "ledger k w' x = int (held (del_nth n (handles S) @ [g]) x) + int (stored (storage w') x)"
        using invD(4) [OF b] e False x st hp rest(2) [of x]
        by (auto simp: accounted_def exchanged_def split: if_splits)
    qed
    moreover have "\<forall>h\<in>set (del_nth n (handles S) @ [g]). guards k (hptr h) h w'"
      using guards_kept [OF b fr set_del_nth_subset] g hp by simp
    ultimately show ?thesis using calm_frame [OF invD(1) [OF b] fr] by (simp add: books_def)
  qed
  then have "wp (strategy_cas (strat a) k t a cur (from_ptr k q)) (\<lambda>g w'.
      books k strat w' (del_nth n (handles S) @ [g]) \<and> hptr g = p \<and>
      storage w' = (if p = as_raw cur then (storage (sw S))(a := Some q) else storage (sw S))) (sw S)"
    by (intro wp_mono [OF any_strategy.cas [OF r p lv(1) q(4) lv(2) cur]])
      (auto simp: exchanged_def dest: guards_hptr)
  then show ?thesis
    using p n by (simp add: api_wp q(1,2) compare_and_swap_def map_del_nth owned_at_def)
      (auto elim!: wp_mono)
qed

lemma books_heap:
  assumes i: "books k strat w hs" and hp: "hptr h \<noteq> debt_none" "protected_debt h = None" "guards k (hptr h) h w"
    and led: "\<And>q. q \<noteq> debt_none \<Longrightarrow> counted k q \<Longrightarrow>
       ledger k (w\<lparr>heap := h'\<rparr>) q = ledger k w q + (if q = hptr h then 1 else 0)"
  shows "books k strat (w\<lparr>heap := h'\<rparr>) (hs @ [h])"
proof -
  have fr: "op_frame t w (w\<lparr>heap := h'\<rparr>)" for t by (rule op_frame_heap)
  have "\<forall>x\<in>set (hs @ [h]). guards k (hptr x) x (w\<lparr>heap := h'\<rparr>)"
    using guards_kept [OF i fr subset_refl] guards_frame [OF hp(3) fr] by simp
  moreover have "accounted k (w\<lparr>heap := h'\<rparr>) (hs @ [h])"
    using invD(4) [OF i] led by (auto simp: accounted_def)
  ultimately show ?thesis
    using calm_frame [OF invD(1) [OF i] fr] backed_gain [OF invD(2) [OF i] hp(1)] hp(2)
    by (simp add: books_def)
qed

lemma wp_t_clone:
  "wp (t_clone (from_ptr k p)) Q w \<longleftrightarrow> live k (heap w) p \<and> Q () (w\<lparr>heap := inc_at k p (heap w)\<rparr>)"
  by (simp add: wp_def t_clone_def heap_op_def clone_from_ptr_eq)

lemma step_CloneHandle:
  assumes i: "sys_inv k strat S" and n: "n < length (handles S)"
  shows "wp (api_run k strat (CloneHandle n)) (\<lambda>_. tracks k strat (CloneHandle n) S) S"
proof -
  have b: "books k strat (sw S) (handles S)" using i by (simp add: sys_inv_def)
  let ?p = "hptr (handles S ! n)"
  have m: "handles S ! n \<in> set (handles S)" using n by simp
  have g: "protected_borrow (handles S ! n) = from_ptr k ?p" using invD(3) [OF b m] by (simp add: guards_def)
  have lv: "live k (heap (sw S)) ?p" by (rule inv_live_handle [OF b m])
  have "books k strat ((sw S)\<lparr>heap := inc_at k ?p (heap (sw S))\<rparr>) (handles S @ [Owned (from_ptr k ?p)])"
    by (rule books_heap [OF b]) (use backedD(3) [OF invD(2) [OF b] m] ledger_inc [OF lv] in simp_all)
  then show ?thesis using lv n by (simp add: api_wp g wp_t_clone)
qed

lemma step_DropHandle:
  assumes i: "sys_inv k strat S" and n: "n < length (handles S)"
  shows "wp (api_run k strat (DropHandle n)) (\<lambda>_. tracks k strat (DropHandle n) S) S"
    and "wp (api_run k strat (CashHandle n)) (\<lambda>_. tracks k strat (CashHandle n) S) S"
proof -
  have b: "books k strat (sw S) (handles S)" using i by (simp add: sys_inv_def)
  have m: "handles S ! n \<in> set (handles S)" using n by simp
  note g = invD(3) [OF b m] and lv = inv_live_handle [OF b m]
  show "wp (api_run k strat (DropHandle n)) (\<lambda>_. tracks k strat (DropHandle n) S) S"
    by (simp add: api_wp) (rule wp_mono [OF protected_drop_wp [OF g lv, where t = 0]],
        use books_return [OF b n] n in \<open>auto simp: returned_def map_del_nth\<close>)
  show "wp (api_run k strat (CashHandle n)) (\<lambda>_. tracks k strat (CashHandle n) S) S"
    by (simp add: api_wp guard_into_inner_def) (rule wp_mono [OF protected_into_inner_wp [OF g lv, where t = 0]],
        use books_cash [OF b n] n in \<open>auto simp: cashed_def map_del_nth\<close>)
qed

lemma step_Create:
  assumes i: "sys_inv k strat S" and a: "storage (sw S) a = None" and n: "owned_at n (handles S)"
  shows "wp (api_run k strat (Create a n)) (\<lambda>_. tracks k strat (Create a n) S) S"
proof -
  have b: "books k strat (sw S) (handles S)" using i by (simp add: sys_inv_def)
  obtain q where q: "protected_borrow (handles S ! n) = from_ptr k q" "q \<noteq> debt_none"
    and rest: "backed (lending strat) (slot_val (sw S)) (storage (sw S)) (del_nth n (handles S))"
      "\<And>x. held (del_nth n (handles S)) x + (if Some q = Some x then 1 else 0) = held (handles S) x"
    using owned_handle [OF b n] by blast
  let ?w = "(sw S)\<lparr>storage := (storage (sw S))(a := Some q)\<rparr>"
  have fr: "op_frame t (sw S) ?w" for t by (rule op_frame_storage)
  have "accounted k ?w (del_nth n (handles S))"
    unfolding accounted_def
  proof (intro allI impI)
    fix x assume x: "x \<noteq> debt_none" "counted k x"
    show "ledger k ?w x = int (held (del_nth n (handles S)) x) + int (stored (storage ?w) x)"
      using invD(4) [OF b] x rest(2) [of x] a stored_upd [OF backedD(1) [OF rest(1)], of a "Some q" x]
      by (auto simp: accounted_def split: if_splits)
  qed
  moreover have "backed (lending strat) (slot_val ?w) (storage ?w) (del_nth n (handles S))"
    using backed_create [OF rest(1) a q(2)] by simp
  ultimately have "books k strat ?w (del_nth n (handles S))"
    using calm_frame [OF invD(1) [OF b] fr] guards_kept [OF b fr set_del_nth_subset] by (simp add: books_def)
  then show ?thesis
    using n by (simp add: api_wp q(1) arc_swap_new_def arc_swap_from_def with_strategy_def wp_ptr_store
        map_del_nth owned_at_def hptr_def)
qed

lemma step_Alloc:
  assumes i: "sys_inv k strat S" and p: "\<not> weak_kind k" "heap (sw S) p = None" "p \<noteq> 0" "p \<noteq> debt_none"
  shows "wp (api_run k strat (Alloc p v)) (\<lambda>_. tracks k strat (Alloc p v) S) S"
proof -
  have b: "books k strat (sw S) (handles S)" using i by (simp add: sys_inv_def)
  let ?h = "(heap (sw S))(p := Some \<lparr>strong = 1, weak = 0, pointee = v\<rparr>)"
  have "ledger k ((sw S)\<lparr>heap := ?h\<rparr>) q = ledger k (sw S) q + (if q = p then 1 else 0)" for q
    using p by (simp add: ledger_def rc_count_def owed_def mailed_def)
  then have "books k strat ((sw S)\<lparr>heap := ?h\<rparr>) (handles S @ [Owned (from_ptr k p)])"
    by (intro books_heap [OF b]) (use p in simp_all)
  then show ?thesis using p by (simp add: api_wp arc_new_def)
qed

lemma step_Null:
  assumes i: "sys_inv k strat S" and k: "nullable k"
  shows "wp (api_run k strat Null) (\<lambda>_. tracks k strat Null S) S"
proof -
  have b: "books k strat (sw S) (handles S)" using i by (simp add: sys_inv_def)
  have "books k strat ((sw S)\<lparr>heap := heap (sw S)\<rparr>) (handles S @ [Owned (from_ptr k 0)])"
    by (rule books_heap [OF b]) (use k in \<open>auto simp: debt_none_def counted_def\<close>)
  then show ?thesis by (simp add: api_wp)
qed

lemma step_ThreadExit:
  assumes i: "sys_inv k strat S"
  shows "wp (api_run k strat (ThreadExit t)) (\<lambda>_. tracks k strat (ThreadExit t) S) S"
proof -
  have b: "books k strat (sw S) (handles S)" using i by (simp add: sys_inv_def)
  have wf: "wf_world (sw S)" using invD(1) [OF b] by (simp add: calm_def)
  show ?thesis
    unfolding api_run.simps wp_on_world
  proof (rule wp_mono [OF thread_exit_wp [OF wf inv_at_rest [OF b]]], elim conjE)
    fix w' assume w': "wf_world w'" "heap w' = heap (sw S)" "storage w' = storage (sw S)"
        "handover w' = handover (sw S)" "tls_gone w' = tls_gone (sw S)" "rwlocks w' = rwlocks (sw S)"
      and len: "length (nodes w') = length (nodes (sw S))"
      and nd: "\<forall>j<length (nodes (sw S)). fast (nodes w' ! j) = fast (nodes (sw S) ! j) \<and>
          helping (nodes w' ! j) = helping (nodes (sw S) ! j)"
    have "calm w'" using invD(1) [OF b] w' len nd by (auto simp: calm_def all_set_conv_all_nth)
    moreover have sv: "slot_val w' = slot_val (sw S)"
      by (rule slot_val_cong) (use len nd in \<open>simp_all add: node_slots_def\<close>)
    moreover have "slot_ok w' s = slot_ok (sw S) s" for s
      using len nd by (cases s) (auto simp: slot_ok_def)
    then have "\<forall>h\<in>set (handles S). guards k (hptr h) h w'"
      using invD(3) [OF b] by (simp add: guards_def)
    moreover have "accounted k w' (handles S)"
    proof -
      have "map (node_owed q) (nodes w') = map (node_owed q) (nodes (sw S))" for q
        by (rule nth_equalityI) (use len nd in \<open>simp_all add: node_owed_def node_slots_def\<close>)
      moreover have "map (node_mailed (handover (sw S)) q) (nodes w')
          = map (node_mailed (handover (sw S)) q) (nodes (sw S))" for q
        by (rule nth_equalityI) (use len nd in \<open>simp_all add: node_mailed_def\<close>)
      ultimately show ?thesis
        using invD(4) [OF b] w' by (simp add: accounted_def ledger_def owed_def mailed_def)
    qed
    ultimately show "tracks k strat (ThreadExit t) S (S\<lparr>sw := w'\<rparr>)"
      using invD(2) [OF b] w' by (simp add: tracks_def view_def sys_inv_def books_def)
  qed
qed

lemma api_step_wp:
  assumes "sys_inv k strat S" and "api_pre k strat x S"
  shows "wp (api_run k strat x) (\<lambda>_. tracks k strat x S) S"
proof (cases x)
  case (Load t a)
  then show ?thesis using step_Load(1) [of k strat S t a] assms by (simp only: api_pre.simps)
next
  case (LoadFull t a)
  then show ?thesis using step_Load(2) [of k strat S t a] assms by (simp only: api_pre.simps)
next
  case (Store t a n)
  then show ?thesis using step_Swap(2) [of k strat S t a n] assms by (simp only: api_pre.simps)
next
  case (Swap t a n)
  then show ?thesis using step_Swap(1) [of k strat S t a n] assms by (simp only: api_pre.simps)
next
  case (Cas t a cur n)
  then show ?thesis using step_Cas [of k strat S t a n cur] assms by (simp del: api_run.simps)
next
  case (Create a n)
  then show ?thesis using step_Create [of k strat S a n] assms by (simp only: api_pre.simps)
next
  case (IntoInner t a)
  then show ?thesis using step_IntoInner(1) [of k strat S t a] assms by (simp only: api_pre.simps)
next
  case (DropStorage t a)
  then show ?thesis using step_IntoInner(2) [of k strat S t a] assms by (simp only: api_pre.simps)
next
  case (DropHandle n)
  then show ?thesis using step_DropHandle(1) [of k strat S n] assms by (simp only: api_pre.simps)
next
  case (CashHandle n)
  then show ?thesis using step_DropHandle(2) [of k strat S n] assms by (simp only: api_pre.simps)
next
  case (CloneHandle n)
  then show ?thesis using step_CloneHandle [of k strat S n] assms by (simp only: api_pre.simps)
next
  case (Alloc p v)
  then show ?thesis using step_Alloc [of k strat S p v] assms by (simp del: api_run.simps)
next
  case Null
  then show ?thesis using step_Null [of k strat S] assms by (simp only: api_pre.simps)
next
  case (ThreadExit t)
  then show ?thesis using step_ThreadExit [of k strat S t] assms by (simp only: api_pre.simps)
qed

section \<open>Runs of a program\<close>

definition start_sys :: "(nid \<Rightarrow> usize) \<Rightarrow> bool list \<Rightarrow> 'v sys" where
  "start_sys pl sp = \<lparr>sw = start_world pl sp, handles = []\<rparr>"

inductive api_step :: "kind \<Rightarrow> (usize \<Rightarrow> strategy) \<Rightarrow> 'v sys \<Rightarrow> 'v sys \<Rightarrow> bool"
  for k :: kind and strat :: "usize \<Rightarrow> strategy" where
  call: "api_pre k strat x S \<Longrightarrow> api_run k strat x S = Inr ((), S') \<Longrightarrow> api_step k strat S S'"

inductive reachable :: "kind \<Rightarrow> (usize \<Rightarrow> strategy) \<Rightarrow> (nid \<Rightarrow> usize) \<Rightarrow> bool list \<Rightarrow> 'v sys \<Rightarrow> bool"
  for k :: kind and strat :: "usize \<Rightarrow> strategy" and pl :: "nid \<Rightarrow> usize" and sp :: "bool list" where
  start: "reachable k strat pl sp (start_sys pl sp)"
| step: "reachable k strat pl sp S \<Longrightarrow> api_step k strat S S' \<Longrightarrow> reachable k strat pl sp S'"

inductive_cases api_stepE: "api_step k strat S S'"

lemma start_inv: "sys_inv k strat (start_sys pl sp)"
proof -
  have "slot_val (start_world pl sp) s = debt_none" for s
    by (cases s) (simp_all add: slot_val_def slot_ok_def start_world_def)
  moreover have "wf_world (start_world pl sp)"
    by (simp add: wf_world_def chained_def offers_ok_def locals_ok_def place_ok_def start_world_def
        local_default_def tag_defs)
  ultimately show ?thesis
    by (auto simp: sys_inv_def books_def start_sys_def calm_def backed_def accounted_def held_def stored_def
        ledger_def owed_def mailed_def rc_count_def) (simp_all add: start_world_def)
qed

lemma reachable_inv: "reachable k strat pl sp S \<Longrightarrow> sys_inv k strat S"
proof (induction rule: reachable.induct)
  case start
  show ?case by (rule start_inv)
next
  case (step S S')
  then obtain x where "api_pre k strat x S" and run: "api_run k strat x S = Inr ((), S')"
    by (auto elim: api_stepE)
  with api_step_wp [OF step.IH] have "wp (api_run k strat x) (\<lambda>_. tracks k strat x S) S" by blast
  then show ?case using run by (simp add: wp_def tracks_def)
qed

text \<open>
  A program is a sequence of calls. It is admissible when every call is allowed in the state the calls before it
  led to; a call that would fault does not make it inadmissible.
\<close>

fun program :: "kind \<Rightarrow> (usize \<Rightarrow> strategy) \<Rightarrow> 'v api list \<Rightarrow> ('v sys, unit) op" where
  "program k strat [] = ret ()"
| "program k strat (x # xs) = bnd (api_run k strat x) (\<lambda>_. program k strat xs)"

fun admissible :: "kind \<Rightarrow> (usize \<Rightarrow> strategy) \<Rightarrow> 'v api list \<Rightarrow> 'v sys \<Rightarrow> bool" where
  "admissible k strat [] S = True"
| "admissible k strat (x # xs) S =
     (api_pre k strat x S \<and> (case api_run k strat x S of Inl e \<Rightarrow> True | Inr (_, S') \<Rightarrow> admissible k strat xs S'))"

lemma program_wp:
  "sys_inv k strat S \<Longrightarrow> admissible k strat xs S \<Longrightarrow>
   wp (program k strat xs) (\<lambda>_ S'. sys_inv k strat S' \<and> view S' = fold api_spec xs (view S)) S"
proof (induction xs arbitrary: S)
  case Nil
  then show ?case by simp
next
  case (Cons x xs)
  have "wp (api_run k strat x) (\<lambda>_. tracks k strat x S) S"
    using api_step_wp [OF Cons.prems(1)] Cons.prems(2) by simp
  then obtain S1 where run: "api_run k strat x S = Inr ((), S1)" and tr: "tracks k strat x S S1"
    by (auto simp: wp_result)
  have "wp (program k strat xs) (\<lambda>_ S'. sys_inv k strat S' \<and> view S' = fold api_spec xs (view S1)) S1"
    by (rule Cons.IH) (use tr run Cons.prems(2) in \<open>simp_all add: tracks_def\<close>)
  then show ?case using run tr by (simp add: wp_Inr tracks_def)
qed

section \<open>Null pointers\<close>

text \<open>No null pointer gets into a program whose pointers cannot be null.\<close>

definition no_null :: "abs_state \<Rightarrow> bool" where
  "no_null v \<longleftrightarrow> (\<forall>a. fst v a \<noteq> Some 0) \<and> 0 \<notin> set (snd v)"

lemma no_null_spec:
  assumes "no_null (view S)" and "api_pre k strat x S" and "\<not> nullable k"
  shows "no_null (api_spec x (view S))"
proof -
  have cell: "the (storage (sw S) a) \<noteq> 0" if "fit strat t a c (sw S)" for t a c
    using assms(1) that by (auto simp: no_null_def view_def fit_def)
  have hd: "map hptr (handles S) ! i \<noteq> 0" if "i < length (handles S)" for i
    using assms(1) that by (auto simp: no_null_def view_def)
  have del: "0 \<notin> set (del_nth i (map hptr (handles S)))" for i
    using assms(1) set_del_nth_subset [of i "map hptr (handles S)"] by (auto simp: no_null_def view_def)
  show ?thesis
    using assms cell hd del
    by (cases x) (auto simp: view_def no_null_def owned_at_def)
qed

lemma reachable_no_null: "reachable k strat pl sp S \<Longrightarrow> \<not> nullable k \<Longrightarrow> no_null (view S)"
proof (induction rule: reachable.induct)
  case start
  then show ?case by (simp add: no_null_def view_def start_sys_def start_world_def)
next
  case (step S S')
  then obtain x where x: "api_pre k strat x S" and run: "api_run k strat x S = Inr ((), S')" by (auto elim: api_stepE)
  have "wp (api_run k strat x) (\<lambda>_. tracks k strat x S) S"
    by (rule api_step_wp [OF reachable_inv [OF step.hyps(1)] x])
  then have "view S' = api_spec x (view S)" using run by (simp add: wp_def tracks_def)
  then show ?case using no_null_spec [OF step.IH x] step.prems by simp
qed

end
