(* ===== verification/Cache.thy ===== *)
theory Cache
  imports System
begin

text \<open>
  The caching handle (cache.rs): a storage and an owned copy of the pointer that was loaded last.
  A load compares the copy with the storage and replaces it when the two differ.
\<close>

section \<open>The handle\<close>

record cache =
  cache_arc_swap :: usize
  cached :: smart

definition cache_new :: "strategy \<Rightarrow> kind \<Rightarrow> tid \<Rightarrow> usize \<Rightarrow> ('v world, cache) op" where
  "cache_new s k t a =
     bnd (load_full s k t a) (\<lambda>v. ret \<lparr>cache_arc_swap = a, cached = v\<rparr>)"

text \<open>\<open>From\<close>.\<close>

definition cache_from :: "strategy \<Rightarrow> kind \<Rightarrow> tid \<Rightarrow> usize \<Rightarrow> ('v world, cache) op" where
  "cache_from s k t a = cache_new s k t a"

definition load_no_revalidate :: "cache \<Rightarrow> smart" where
  "load_no_revalidate c = cached c"

text \<open>The assignment to \<open>cached\<close> drops the old copy after the new pointer was loaded.\<close>

definition revalidate :: "strategy \<Rightarrow> kind \<Rightarrow> tid \<Rightarrow> cache \<Rightarrow> ('v world, cache) op" where
  "revalidate s k t c =
     (let cached_ptr = as_ptr (cached c) in
      bnd (ptr_load (cache_arc_swap c)) (\<lambda>shared_ptr.
      if cached_ptr \<noteq> shared_ptr then
        bnd (load_full s k t (cache_arc_swap c)) (\<lambda>v.
        bnd (t_drop (cached c)) (\<lambda>_. ret (c\<lparr>cached := v\<rparr>)))
      else ret c))"

text \<open>The reference that is returned, and the handle afterwards.\<close>

definition cache_load :: "strategy \<Rightarrow> kind \<Rightarrow> tid \<Rightarrow> cache \<Rightarrow> ('v world, smart \<times> cache) op" where
  "cache_load s k t c =
     bnd (revalidate s k t c) (\<lambda>c'. ret (load_no_revalidate c', c'))"

text \<open>The derived \<open>Clone\<close>, and the drop of the handle.\<close>

definition cache_clone :: "cache \<Rightarrow> ('v world, cache) op" where
  "cache_clone c = bnd (t_clone (cached c)) (\<lambda>_. ret c)"

definition cache_drop :: "cache \<Rightarrow> ('v world, unit) op" where
  "cache_drop c = t_drop (cached c)"

text \<open>The value behind a strong pointer.\<close>

definition arc_deref :: "smart \<Rightarrow> ('v world, 'v) op" where
  "arc_deref v = (\<lambda>w. case heap w (as_ptr v) of
      None \<Rightarrow> Inl (Use_After_Free (as_ptr v))
    | Some c \<Rightarrow> if strong c = 0 then Inl (Use_After_Free (as_ptr v)) else Inr (pointee c, w))"

text \<open>The trait \<open>Access\<close> of the module: for the handle itself, and for one with a projection.\<close>

definition cache_access_load :: "strategy \<Rightarrow> kind \<Rightarrow> tid \<Rightarrow> cache \<Rightarrow> ('v world, 'v \<times> cache) op" where
  "cache_access_load s k t c =
     bnd (cache_load s k t c) (\<lambda>(v, c').
     bnd (arc_deref v) (\<lambda>x. ret (x, c')))"

record ('w, 'u) map_cache =
  mc_inner :: cache
  mc_projection :: "smart \<Rightarrow> ('w, 'u) op"

definition cache_map :: "cache \<Rightarrow> (smart \<Rightarrow> ('w, 'u) op) \<Rightarrow> ('w, 'u) map_cache" where
  "cache_map c f = \<lparr>mc_inner = c, mc_projection = f\<rparr>"

definition map_cache_load ::
  "strategy \<Rightarrow> kind \<Rightarrow> tid \<Rightarrow> ('v world, 'u) map_cache \<Rightarrow> ('v world, 'u \<times> ('v world, 'u) map_cache) op" where
  "map_cache_load s k t m =
     bnd (cache_load s k t (mc_inner m)) (\<lambda>(v, c').
     bnd (mc_projection m v) (\<lambda>u. ret (u, m\<lparr>mc_inner := c'\<rparr>)))"

section \<open>What a load through the cache does\<close>

text \<open>
  The cost of revalidation: nothing when the storage still has the pointer \<open>q\<close> of the copy; otherwise
  one reference to the new pointer \<open>p\<close> is counted and the one to \<open>q\<close> is given up.
\<close>

definition refreshed :: "kind \<Rightarrow> tid \<Rightarrow> usize \<Rightarrow> usize \<Rightarrow> 'v world \<Rightarrow> 'v world \<Rightarrow> bool" where
  "refreshed k t q p w w' \<longleftrightarrow>
     (if p = q then w' = w
      else op_frame t w w' \<and> storage w' = storage w \<and> slot_val w' = slot_val w \<and>
        heap w' = dec_at k q (inc_at k p (heap w)) \<and>
        (\<forall>x. x \<noteq> debt_none \<longrightarrow> counted k x \<longrightarrow>
           ledger k w' x = ledger k w x + (if x = p then 1 else 0) - (if x = q then 1 else 0)))"

context inner_strategy
begin

lemma cache_load_wp:
  assumes r: "prepared (Suc c) w" and st: "storage w a = Some p"
    and live: "live k (heap w) p" "live k (heap w) q"
  shows "wp (cache_load s k t \<lparr>cache_arc_swap = a, cached = from_ptr k q\<rparr>)
    (\<lambda>(v, ch) w'. v = from_ptr k p \<and> ch = \<lparr>cache_arc_swap = a, cached = from_ptr k p\<rparr> \<and>
       refreshed k t q p w w' \<and> prepared c w') w"
proof (cases "q = p")
  case True
  then show ?thesis
    using st r prepared_mono [OF r, of c]
    by (simp add: cache_load_def revalidate_def load_no_revalidate_def wp_ptr_load refreshed_def Let_def)
next
  case False
  have "wp (load_full s k t a) (\<lambda>v u. v = from_ptr k p \<and> live k (heap u) q \<and>
      refreshed k t q p w (u\<lparr>heap := dec_at k q (heap u)\<rparr>) \<and> prepared c u) w"
  proof (rule wp_mono [OF load_full_wp [OF r st live(1)]], elim conjE, intro conjI)
    fix v u assume v: "v = from_ptr k p" and l: "leased k t p None w u" and ru: "prepared c u"
    show "v = from_ptr k p" and "prepared c u" by fact+
    show lq: "live k (heap u) q" by (rule live_leased [OF l live])
    show "refreshed k t q p w (u\<lparr>heap := dec_at k q (heap u)\<rparr>)"
      using l False ledger_dec [OF lq] op_frame_trans [OF _ op_frame_heap, of t w u]
      by (simp add: refreshed_def leased_def)
  qed
  then show ?thesis
    using False st
    by (simp add: cache_load_def revalidate_def load_no_revalidate_def wp_ptr_load Let_def)
      (erule wp_mono, simp add: wp_t_drop prepared_heap)
qed

end

end
