(* ===== verification/Access.thy ===== *)
theory Access
  imports Cache
begin

text \<open>
  Access to a part of a stored value (access.rs, \<open>ArcSwapAny::map\<close> of lib.rs): the trait \<open>Access\<close> with its
  guards, its object-safe companion \<open>DynAccess\<close>, projections and constants.
\<close>

section \<open>The trait and its implementations\<close>

text \<open>
  An implementation of \<open>Access\<close> is its loading method, together with what the \<open>Deref\<close> and the \<open>Drop\<close> of its
  guard do.
\<close>

record ('w, 'g, 't) access =
  acc_load :: "('w, 'g) op"
  acc_deref :: "'g \<Rightarrow> ('w, 't) op"
  acc_drop :: "'g \<Rightarrow> ('w, unit) op"

text \<open>\<open>Access<T>\<close> for \<open>ArcSwapAny<T, S>\<close>: the guard dereferences to the smart pointer.\<close>

definition arc_swap_access :: "strategy \<Rightarrow> kind \<Rightarrow> tid \<Rightarrow> usize \<Rightarrow> ('v world, protected, smart) access" where
  "arc_swap_access s k t a =
     \<lparr>acc_load = arc_swap_load s k t a, acc_deref = (\<lambda>g. ret (guard_deref g)), acc_drop = protected_drop\<rparr>"

text \<open>\<open>Access<T>\<close> for \<open>ArcSwapAny<Arc<T>, S>\<close> and \<open>Rc\<close>: \<open>DirectDeref\<close> goes one step further, to the value.\<close>

definition direct_deref :: "protected \<Rightarrow> ('v world, 'v) op" where
  "direct_deref g = arc_deref (guard_deref g)"

definition direct_access :: "strategy \<Rightarrow> kind \<Rightarrow> tid \<Rightarrow> usize \<Rightarrow> ('v world, protected, 'v) access" where
  "direct_access s k t a =
     \<lparr>acc_load = arc_swap_load s k t a, acc_deref = direct_deref, acc_drop = protected_drop\<rparr>"

text \<open>\<open>Map\<close>: its guard keeps the guard of the bigger structure and a copy of the projection.\<close>

record ('g, 't, 'r) map_guard =
  mg_guard :: 'g
  mg_projection :: "'t \<Rightarrow> 'r"

definition map_guard_deref ::
  "('w, 'g, 't) access \<Rightarrow> ('g, 't, 'r) map_guard \<Rightarrow> ('w, 'r) op" where
  "map_guard_deref acc m = bnd (acc_deref acc (mg_guard m)) (\<lambda>v. ret (mg_projection m v))"

definition map_new ::
  "('w, 'g, 't) access \<Rightarrow> ('t \<Rightarrow> 'r) \<Rightarrow> ('w, ('g, 't, 'r) map_guard, 'r) access" where
  "map_new acc f =
     \<lparr>acc_load = bnd (acc_load acc) (\<lambda>g. ret \<lparr>mg_guard = g, mg_projection = f\<rparr>),
      acc_deref = map_guard_deref acc,
      acc_drop = (\<lambda>m. acc_drop acc (mg_guard m))\<rparr>"

definition arc_swap_map ::
  "strategy \<Rightarrow> kind \<Rightarrow> tid \<Rightarrow> usize \<Rightarrow> (smart \<Rightarrow> 'r) \<Rightarrow> ('v world, (protected, smart, 'r) map_guard, 'r) access" where
  "arc_swap_map s k t a f = map_new (arc_swap_access s k t a) f"

text \<open>\<open>Constant\<close>: every load copies the value.\<close>

definition constant_access :: "'t \<Rightarrow> ('w, 't, 't) access" where
  "constant_access c = \<lparr>acc_load = ret c, acc_deref = ret, acc_drop = (\<lambda>_. ret ())\<rparr>"

text \<open>\<open>DynGuard\<close>: of the guard in the box only the two methods are left.\<close>

datatype ('w, 't) dyn_guard = DynGuard "('w, 't) op" "('w, unit) op"

fun dyn_guard_deref :: "('w, 't) dyn_guard \<Rightarrow> ('w, 't) op" where
  "dyn_guard_deref (DynGuard d r) = d"

fun dyn_guard_drop :: "('w, 't) dyn_guard \<Rightarrow> ('w, unit) op" where
  "dyn_guard_drop (DynGuard d r) = r"

definition dyn_load :: "('w, 'g, 't) access \<Rightarrow> ('w, ('w, 't) dyn_guard) op" where
  "dyn_load acc = bnd (acc_load acc) (\<lambda>g. ret (DynGuard (acc_deref acc g) (acc_drop acc g)))"

text \<open>\<open>Access<T>\<close> for \<open>dyn DynAccess<T>\<close>, and \<open>AccessConvert\<close>, which does the same to what is inside.\<close>

definition dyn_access :: "('w, ('w, 't) dyn_guard) op \<Rightarrow> ('w, ('w, 't) dyn_guard, 't) access" where
  "dyn_access load_dyn = \<lparr>acc_load = load_dyn, acc_deref = dyn_guard_deref, acc_drop = dyn_guard_drop\<rparr>"

definition access_convert :: "('w, ('w, 't) dyn_guard) op \<Rightarrow> ('w, ('w, 't) dyn_guard, 't) access" where
  "access_convert d = dyn_access d"

section \<open>The contract of the trait\<close>

text \<open>
  A use of an access: load, look, drop the guard.
\<close>

definition peek :: "('w, 'g, 't) access \<Rightarrow> ('w, 't) op" where
  "peek acc =
     bnd (acc_load acc) (\<lambda>g.
     bnd (acc_deref acc g) (\<lambda>v.
     bnd (acc_drop acc g) (\<lambda>_. ret v)))"

text \<open>
  What a generic client relies on: the guard shows the value that was current when it was loaded, looking at it
  changes nothing, and dropping it leaves the world as it was.
\<close>

locale access_contract =
  fixes acc :: "('w, 'g, 't) access" and usable :: "'w \<Rightarrow> bool" and current :: "'w \<Rightarrow> 't \<Rightarrow> bool"
    and restored :: "'w \<Rightarrow> 'w \<Rightarrow> bool"
  assumes contract: "usable w \<Longrightarrow> current w v \<Longrightarrow>
      wp (acc_load acc) (\<lambda>g u. acc_deref acc g u = Inr (v, u) \<and> wp (acc_drop acc g) (\<lambda>_. restored w) u) w"
begin

lemma peek_current: "usable w \<Longrightarrow> current w v \<Longrightarrow> wp (peek acc) (\<lambda>x w'. x = v \<and> restored w w') w"
  unfolding peek_def wp_bnd
  by (rule wp_mono [OF contract], assumption+) (auto simp: wp_Inr elim!: wp_mono)

text \<open>A projection of it, its object-safe version, and any nesting of the two keep the contract.\<close>

lemma map_contract: "access_contract (map_new acc f) usable (\<lambda>w r. \<exists>v. current w v \<and> r = f v) restored"
proof
  fix w r assume "usable w" and "\<exists>v. current w v \<and> r = f v"
  then obtain v where u: "usable w" and c: "current w v" and r: "r = f v" by blast
  show "wp (acc_load (map_new acc f)) (\<lambda>g u. acc_deref (map_new acc f) g u = Inr (r, u) \<and>
      wp (acc_drop (map_new acc f) g) (\<lambda>_. restored w) u) w"
    unfolding map_new_def
    by simp (rule wp_mono [OF contract [OF u c]], simp add: map_guard_deref_def r bnd_def ret_def)
qed

lemma dyn_contract: "access_contract (dyn_access (dyn_load acc)) usable current restored"
proof
  fix w v assume "usable w" and "current w v"
  then show "wp (acc_load (dyn_access (dyn_load acc))) (\<lambda>g u. acc_deref (dyn_access (dyn_load acc)) g u = Inr (v, u) \<and>
      wp (acc_drop (dyn_access (dyn_load acc)) g) (\<lambda>_. restored w) u) w"
    by (simp add: dyn_access_def dyn_load_def contract)
qed

end

interpretation fixed: access_contract "constant_access c" "\<lambda>_. True" "\<lambda>_ v. v = c" "(=)" for c
  by unfold_locales (simp add: constant_access_def ret_def wp_def)

text \<open>The cell of the storage, the counts and the slots are as they were.\<close>

definition untouched :: "'v world \<Rightarrow> 'v world \<Rightarrow> bool" where
  "untouched w w' \<longleftrightarrow> storage w' = storage w \<and> heap w' = heap w \<and> slot_val w' = slot_val w"

definition holds_pointer :: "kind \<Rightarrow> usize \<Rightarrow> 'v world \<Rightarrow> smart \<Rightarrow> bool" where
  "holds_pointer k a w v \<longleftrightarrow> (\<exists>p. storage w a = Some p \<and> live k (heap w) p \<and> v = from_ptr k p)"

definition holds_value :: "usize \<Rightarrow> 'v world \<Rightarrow> 'v \<Rightarrow> bool" where
  "holds_value a w x \<longleftrightarrow> (\<exists>p c. storage w a = Some p \<and> heap w p = Some c \<and> 0 < strong c \<and> pointee c = x)"

lemma load_and_drop:
  assumes r: "strategy_ready s t a (Suc 0) w" and st: "storage w a = Some p" and live: "live k (heap w) p"
  shows "wp (arc_swap_load s k t a) (\<lambda>g u. guard_deref g = from_ptr k p \<and>
      (heap u = heap w \<or> heap u = inc_at k p (heap w)) \<and> wp (protected_drop g) (\<lambda>_. untouched w) u) w"
  unfolding arc_swap_load_def
proof (rule wp_mono [OF any_strategy.load [OF r st live]], elim conjE)
  fix g u assume g: "guards k p g u" and l: "leased k t p (protected_debt g) w u"
  have "wp (protected_drop g) (\<lambda>_. untouched w) u"
    by (rule wp_mono [OF protected_drop_wp [OF g live_leased [OF l live live], where t = t]])
      (use leased_returned [OF l _ live] in \<open>auto simp: untouched_def\<close>)
  then show "guard_deref g = from_ptr k p \<and> (heap u = heap w \<or> heap u = inc_at k p (heap w)) \<and>
      wp (protected_drop g) (\<lambda>_. untouched w) u"
    using g l by (auto simp: guards_def guard_deref_def leased_def)
qed

interpretation arc_swap_access: access_contract "arc_swap_access s k t a" "strategy_ready s t a (Suc 0)"
  "holds_pointer k a" untouched for s k t a
proof
  fix w :: "'v world" and v assume r: "strategy_ready s t a (Suc 0) w" and h: "holds_pointer k a w v"
  then obtain p where p: "storage w a = Some p" "live k (heap w) p" and v: "v = from_ptr k p"
    by (auto simp: holds_pointer_def)
  show "wp (acc_load (arc_swap_access s k t a)) (\<lambda>g u. acc_deref (arc_swap_access s k t a) g u = Inr (v, u) \<and>
      wp (acc_drop (arc_swap_access s k t a) g) (\<lambda>_. untouched w) u) w"
    by (simp add: arc_swap_access_def) (rule wp_mono [OF load_and_drop [OF r p]], simp add: v ret_def)
qed

lemma arc_deref_value:
  assumes "heap w p = Some c" and "0 < strong c" and "heap u = heap w \<or> heap u = inc_at k p (heap w)"
  shows "arc_deref (from_ptr k p) u = Inr (pointee c, u)"
  using assms by (auto simp: arc_deref_def inc_at_def)

interpretation direct_access: access_contract "direct_access s KArc t a" "strategy_ready s t a (Suc 0)"
  "holds_value a" untouched for s t a
proof
  fix w :: "'v world" and x assume r: "strategy_ready s t a (Suc 0) w" and h: "holds_value a w x"
  then obtain p c where p: "storage w a = Some p" "heap w p = Some c" "0 < strong c" and x: "x = pointee c"
    by (auto simp: holds_value_def)
  have live: "live KArc (heap w) p" using p by (simp add: live_def rc_count_def)
  show "wp (acc_load (direct_access s KArc t a)) (\<lambda>g u. acc_deref (direct_access s KArc t a) g u = Inr (x, u) \<and>
      wp (acc_drop (direct_access s KArc t a) g) (\<lambda>_. untouched w) u) w"
    by (simp add: direct_access_def)
      (rule wp_mono [OF load_and_drop [OF r p(1) live]], use arc_deref_value [OF p(2,3), where k = KArc] in
        \<open>auto simp: direct_deref_def x\<close>)
qed

end
