(* ===== verification/Serde.thy ===== *)
theory Serde
  imports Access
begin

text \<open>
  Reading a storage for output: serialization (serde.rs) and the \<open>Debug\<close> and \<open>Display\<close> implementations of lib.rs.
  The serializers, deserializers and formatters of the pointer type are parameters.
\<close>

section \<open>Output of a storage\<close>

text \<open>Load, hand the pointer to the printer, drop the guard; the result of the printer is passed on.\<close>

definition serialize ::
  "strategy \<Rightarrow> kind \<Rightarrow> tid \<Rightarrow> usize \<Rightarrow> (smart \<Rightarrow> ('v world, 'e + 'o) op) \<Rightarrow> ('v world, 'e + 'o) op" where
  "serialize s k t a ser =
     bnd (arc_swap_load s k t a) (\<lambda>g.
     bnd (ser (guard_deref g)) (\<lambda>r.
     bnd (protected_drop g) (\<lambda>_. ret r)))"

text \<open>\<open>debug_tuple("ArcSwapAny").field(..).finish()\<close> around the output of the pointer.\<close>

definition debug_fmt ::
  "strategy \<Rightarrow> kind \<Rightarrow> tid \<Rightarrow> usize \<Rightarrow> (smart \<Rightarrow> ('v world, string) op) \<Rightarrow> ('v world, string) op" where
  "debug_fmt s k t a fmt =
     bnd (arc_swap_load s k t a) (\<lambda>g.
     bnd (guard_debug_fmt fmt g) (\<lambda>out.
     bnd (protected_drop g) (\<lambda>_. ret (''ArcSwapAny('' @ out @ '')''))))"

definition display_fmt ::
  "strategy \<Rightarrow> kind \<Rightarrow> tid \<Rightarrow> usize \<Rightarrow> (smart \<Rightarrow> ('v world, string) op) \<Rightarrow> ('v world, string) op" where
  "display_fmt s k t a fmt =
     bnd (arc_swap_load s k t a) (\<lambda>g.
     bnd (guard_display_fmt fmt g) (\<lambda>out.
     bnd (protected_drop g) (\<lambda>_. ret out)))"

section \<open>Input\<close>

text \<open>The new storage is at \<open>a\<close>; on an error of the deserializer there is none.\<close>

definition deserialize ::
  "usize \<Rightarrow> ('i \<Rightarrow> ('v world, 'e + smart) op) \<Rightarrow> 'i \<Rightarrow> ('v world, 'e + unit) op" where
  "deserialize a de input =
     bnd (de input) (\<lambda>r. case r of
       Inl e \<Rightarrow> ret (Inl e)
     | Inr v \<Rightarrow> bnd (arc_swap_from a v) (\<lambda>_. ret (Inr ())))"

section \<open>What they do\<close>

text \<open>A printer only reads: it changes nothing and its output depends on the value behind the pointer alone.\<close>

definition reads_value :: "(smart \<Rightarrow> ('v world, 'o) op) \<Rightarrow> ('v \<Rightarrow> 'o) \<Rightarrow> bool" where
  "reads_value pr enc \<longleftrightarrow>
     (\<forall>p w c. heap w p = Some c \<and> 0 < strong c \<longrightarrow> pr (ArcP p) w = Inr (enc (pointee c), w))"

text \<open>A deserializer for \<open>Arc\<close>: it allocates the decoded value at the address the allocator gives, or fails.\<close>

definition makes_value :: "('i \<Rightarrow> ('v world, 'e + smart) op) \<Rightarrow> ('i \<Rightarrow> 'e + 'v) \<Rightarrow> usize \<Rightarrow> bool" where
  "makes_value de dec p \<longleftrightarrow>
     (\<forall>i w. de i w = (case dec i of
        Inl e \<Rightarrow> Inr (Inl e, w)
      | Inr x \<Rightarrow> bnd (arc_new p x) (\<lambda>v. ret (Inr v)) w))"

lemma print_wp:
  assumes r: "strategy_ready s t a (Suc 0) w" and h: "holds_value a w x" and pr: "reads_value pr enc"
  shows "wp (bnd (arc_swap_load s KArc t a) (\<lambda>g. bnd (pr (guard_deref g)) (\<lambda>r. bnd (protected_drop g) (\<lambda>_. ret r))))
    (\<lambda>r w'. r = enc x \<and> untouched w w') w"
proof -
  obtain p c where p: "storage w a = Some p" "heap w p = Some c" "0 < strong c" and x: "x = pointee c"
    using h by (auto simp: holds_value_def)
  have live: "live KArc (heap w) p" using p by (simp add: live_def rc_count_def)
  have rd: "pr (ArcP p) u = Inr (enc x, u)" if "heap u = heap w \<or> heap u = inc_at KArc p (heap w)" for u
  proof -
    have "\<exists>c'. heap u p = Some c' \<and> 0 < strong c' \<and> pointee c' = x"
      using that p by (auto simp: x inc_at_def)
    then show ?thesis using pr by (auto simp: reads_value_def)
  qed
  show ?thesis
    unfolding wp_bnd wp_ret
    by (rule wp_mono [OF load_and_drop [OF r p(1) live]])
      (use rd in \<open>auto simp: wp_Inr elim!: wp_mono\<close>)
qed

lemma deserialize_run:
  assumes "makes_value de dec p" and "dec i = Inr x" and "heap w p = None" "p \<noteq> 0" "p \<noteq> debt_none"
  shows "wp (deserialize b de i) (\<lambda>r w'. r = Inr () \<and> holds_value b w' x \<and> storage w' = (storage w)(b := Some p) \<and>
      (\<forall>q. q \<noteq> p \<longrightarrow> heap w' q = heap w q)) w"
proof -
  let ?w = "w\<lparr>heap := (heap w)(p := Some \<lparr>strong = 1, weak = 0, pointee = x\<rparr>)\<rparr>"
  have "de i w = Inr (Inr (ArcP p), ?w)"
    using assms by (simp add: makes_value_def arc_new_def bnd_def gets_def require_def ret_def modify_def)
  then show ?thesis
    by (simp add: deserialize_def wp_Inr arc_swap_from_def with_strategy_def wp_ptr_store holds_value_def)
qed

text \<open>An input the deserializer rejects makes no storage: the error is passed on, and nothing has changed.\<close>

lemma deserialize_error:
  assumes "makes_value de dec p" and "dec i = Inl e"
  shows "deserialize b de i w = Inr (Inl e, w)"
  using assms by (simp add: deserialize_def makes_value_def bnd_def ret_def)

end
