(* ===== verification/Example.thy ===== *)
theory Example
  imports Serde
begin

text \<open>
  A small concrete program state on which the theorems are tried out: one storage, a guard of thread 1 that
  is covered by a debt, a second allocation the program owns. It is reached by four calls.
\<close>

definition ex_place :: "nid \<Rightarrow> usize" where
  "ex_place n = of_nat (64 * (n + 1))"

definition ex_node :: node where
  "ex_node =
     \<lparr>fast = [4096, 3, 3, 3, 3, 3, 3, 3],
      helping = \<lparr>control = 0, slot = 3, active_addr = 0, space_offer = 64\<rparr>,
      in_use = 1, next_node = None, active_writers = 0\<rparr>"

definition ex_world :: "nat world" where
  "ex_world = (start_world ex_place [])\<lparr>
     heap := [4096 \<mapsto> \<lparr>strong = 1, weak = 0, pointee = 7\<rparr>, 8192 \<mapsto> \<lparr>strong = 1, weak = 0, pointee = 9\<rparr>],
     storage := [16 \<mapsto> 4096],
     nodes := [ex_node], list_head := Some 0,
     handover := (\<lambda>_. 0),
     locals := (\<lambda>_. local_default)(Thread 1 := \<lparr>ln_node = Some 0, ln_fast = \<lparr>offset = 1\<rparr>, ln_helping = \<lparr>generation = 0\<rparr>\<rparr>)\<rparr>"

definition ex_guard :: protected where
  "ex_guard = Lease \<lparr>debt = Some (FastSlot 0 0), prot_ptr = ArcP 4096\<rparr>"

definition ex_sys :: "nat sys" where
  "ex_sys = \<lparr>sw = ex_world, handles = [ex_guard, Owned (ArcP 8192)]\<rparr>"

lemmas ex_defs = ex_sys_def ex_guard_def ex_world_def ex_node_def start_sys_def start_world_def

lemmas op_defs = bnd_def ret_def raise_def gets_def modify_def require_def unwrap_def

lemma ex_place_ok: "N \<le> 4 \<Longrightarrow> place_ok ex_place N"
proof -
  assume N: "N \<le> 4"
  have "ex_place m = ex_place n \<longleftrightarrow> m = n" if "m \<in> {0,1,2,3}" "n \<in> {0,1,2,3}" for m n
    using that by (auto simp: ex_place_def)
  moreover have "{..<N} \<subseteq> {0,1,2,3}" using N by auto
  moreover have "ex_place n \<noteq> 0 \<and> ex_place n AND TAG_MASK = 0" if "n \<in> {0,1,2,3}" for n
    using that by (auto simp: ex_place_def TAG_MASK_def)
  ultimately show ?thesis unfolding place_ok_def inj_on_def by (meson lessThan_iff subsetD)
qed

lemma fast_slots_default_list: "fast_slots_default = [3, 3, 3, 3, 3, 3, 3, 3]"
  by (simp add: fast_slots_default_def DEBT_SLOT_CNT_def debt_none_def numeral_eq_Suc)

text \<open>The states after each of the first three calls.\<close>

abbreviation ex_s1 :: "nat sys" where "ex_s1 \<equiv> \<lparr>sw = (start_world ex_place [])\<lparr>heap := [4096 \<mapsto> \<lparr>strong = 1, weak = 0, pointee = 7::nat\<rparr>]\<rparr>, handles = [Owned (ArcP 4096)]\<rparr>"
abbreviation ex_s2 :: "nat sys" where "ex_s2 \<equiv> \<lparr>sw = (start_world ex_place [])\<lparr>heap := [4096 \<mapsto> \<lparr>strong = 1, weak = 0, pointee = 7::nat\<rparr>], storage := [16 \<mapsto> 4096]\<rparr>, handles = []\<rparr>"
abbreviation ex_s3 :: "nat sys" where "ex_s3 \<equiv> \<lparr>sw = ex_world\<lparr>heap := [4096 \<mapsto> \<lparr>strong = 1, weak = 0, pointee = 7::nat\<rparr>]\<rparr>, handles = [ex_guard]\<rparr>"

lemma ex_call1: "api_run KArc (\<lambda>_. DefaultStrategy) (Alloc 4096 7) (start_sys ex_place []) = Inr ((), ex_s1)"
  by (simp add: op_defs on_world_def gain_def arc_new_def start_sys_def start_world_def debt_none_def)
lemma ex_call2: "api_run KArc (\<lambda>_. DefaultStrategy) (Create 16 0) ex_s1 = Inr ((), ex_s2)"
  by (simp add: op_defs on_world_def take_out_def del_nth_def arc_swap_new_def arc_swap_from_def with_strategy_def ptr_store_def  start_world_def)
lemma ex_call3: "api_run KArc (\<lambda>_. DefaultStrategy) (Load 1 16) ex_s2 = Inr ((), ex_s3)"
proof -
  have w: "hybrid_load True KArc 1 16 (sw ex_s2)
     = Inr (\<lparr>debt = Some (FastSlot 0 0), prot_ptr = ArcP 4096\<rparr>, sw ex_s3)"
    by (simp add: op_defs hybrid_load_def local_with_def ensure_node_def local_default_def
   start_world_def node_get_def traverse_def alloc_node_def fails_spuriously_def upd_node_def attempt_def ptr_load_def new_fast_def own_node_def
   upd_local_def fast_get_debt_def node_default_def fast_slots_default_list debt_none_def in_use_defs helping_init_def helping_slots_default_def
    protection_new_def  ex_defs IDLE_def ex_place_def fun_upd_idem)
  show ?thesis unfolding api_run.simps
  by (simp add: bnd_def on_world_def arc_swap_load_def w [simplified] gain_def modify_def ret_def ex_guard_def)
qed
lemma ex_call4: "api_run KArc (\<lambda>_. DefaultStrategy) (Alloc 8192 9) ex_s3 = Inr ((), ex_sys)"
  by (simp add: op_defs on_world_def gain_def arc_new_def ex_defs debt_none_def)

lemma ex_pre:
  "api_pre KArc (\<lambda>_. DefaultStrategy) (Alloc 4096 (7::nat)) (start_sys ex_place [])"
  "api_pre KArc (\<lambda>_. DefaultStrategy) (Create 16 0) ex_s1"
  "api_pre KArc (\<lambda>_. DefaultStrategy) (Load 1 16) ex_s2"
  "api_pre KArc (\<lambda>_. DefaultStrategy) (Alloc 8192 9) ex_s3"
  by (simp_all add: start_sys_def start_world_def debt_none_def owned_at_def ex_world_def
      fit_def can_grow_def ex_place_ok room_def local_default_def node_bound_def)

lemma ex_reachable: "reachable KArc (\<lambda>_. DefaultStrategy) ex_place [] ex_sys"
  by (rule reachable.step [OF reachable.step [OF reachable.step [OF reachable.step [OF reachable.start
      api_step.call [OF ex_pre(1) ex_call1]] api_step.call [OF ex_pre(2) ex_call2]]
      api_step.call [OF ex_pre(3) ex_call3]] api_step.call [OF ex_pre(4) ex_call4]])

lemma ex_inv: "books KArc (\<lambda>_. DefaultStrategy) ex_world [ex_guard, Owned (ArcP 8192)]"
  using reachable_inv [OF ex_reachable] by (simp add: sys_inv_def ex_sys_def)

lemma ex_fit: "storage ex_world a \<noteq> None \<Longrightarrow> c \<le> 1000 \<Longrightarrow> fit strat t a c ex_world"
proof -
  assume a: "storage ex_world a \<noteq> None" and c: "c \<le> 1000"
  have "c * (node_bound t ex_world + 2) \<le> 1000 * 4"
    by (rule mult_le_mono) (use c in \<open>simp_all add: node_bound_def ex_defs\<close>)
  moreover have "generation (ln_helping (locals ex_world (Thread t))) = 0"
    by (simp add: ex_defs local_default_def)
  ultimately show ?thesis
    using a by (simp add: fit_def can_grow_def room_def) (simp add: ex_place_ok ex_defs)
qed

lemma ex_storage: "storage ex_world 16 = Some 4096"
  by (simp add: ex_world_def)

lemma ex_live: "live KArc (heap ex_world) 4096" "live KArc (heap ex_world) 8192"
  by (simp_all add: ex_world_def live_def rc_count_def)

lemma ex_ready: "c \<le> 1000 \<Longrightarrow> strategy_ready s t 16 c ex_world"
  using ex_fit [of 16 c "\<lambda>_. s" t] invD(1) [OF ex_inv] inv_at_rest [OF ex_inv, of "Thread t"]
  by (cases s) (simp_all add: ex_storage fit_def ready_def calm_def)

section \<open>A writer that meets a reader\<close>

text \<open>Thread 2 is in the middle of a transaction on the storage; thread 1 owns the other node.\<close>

definition ex_reader :: node where
  "ex_reader =
     \<lparr>fast = [3, 3, 3, 3, 3, 3, 3, 3],
      helping = \<lparr>control = 6, slot = 3, active_addr = 16, space_offer = 128\<rparr>,
      in_use = 1, next_node = Some 0, active_writers = 0\<rparr>"

definition ex_meeting :: "nat world" where
  "ex_meeting = ex_world\<lparr>
     nodes := [ex_node, ex_reader], list_head := Some 1,
     locals := (locals ex_world)
       (Thread 2 := \<lparr>ln_node = Some 1, ln_fast = \<lparr>offset = 0\<rparr>, ln_helping = \<lparr>generation = 4\<rparr>\<rparr>)\<rparr>"

lemmas ex_meeting_defs = ex_meeting_def ex_reader_def ex_defs local_default_def

lemma ex_meeting_wf: "wf_world ex_meeting"
proof -
  have "place_ok (place ex_meeting) (length (nodes ex_meeting))"
    by (simp add: ex_meeting_def ex_world_def start_world_def ex_place_ok)
  moreover have "place ex_meeting = ex_place" by (simp add: ex_meeting_def ex_world_def start_world_def)
  moreover have "ex_place 0 = 64" "ex_place 1 = 128" by (simp_all add: ex_place_def)
  ultimately have "offers_ok ex_meeting"
    by (simp add: offers_ok_def) (simp add: ex_meeting_def ex_reader_def ex_node_def offer_def is_replacement_def tag_defs lessThan_Suc)
  then show ?thesis
    by (auto simp: wf_world_def chained_def locals_ok_def node_ok_def control_ok_def idle_helping_def tag_defs
        in_use_defs DEBT_SLOT_CNT_def less_Suc_eq ex_meeting_defs split: if_splits)
qed

lemma ex_collides: "collides (Thread 1) 0 1 ex_meeting"
  using ex_meeting_wf
  by (simp add: collides_def owns_def) (simp add: ex_meeting_defs idle_helping_def tag_defs debt_none_def)

section \<open>A strong and a weak storage of one allocation\<close>

text \<open>
  A program with an \<open>Arc\<close>, an \<open>ArcSwap\<close> and an \<open>ArcSwapWeak\<close> of the same object: a guard of the strong storage is open
  while the weak one is overwritten; then the guard and the strong storage are dropped and the \<open>Arc\<close> is used.
\<close>

definition mixed_kinds :: "(nat world, nat) op" where
  "mixed_kinds =
     bnd (arc_new 4096 7) (\<lambda>arc.
     bnd (t_clone arc) (\<lambda>_.
     bnd (arc_swap_new 16 arc) (\<lambda>_.
     bnd (arc_downgrade arc) (\<lambda>weak.
     bnd (arc_swap_new 32 weak) (\<lambda>_.
     bnd (arc_swap_load DefaultStrategy KArc 0 16) (\<lambda>g.
     bnd (arc_swap_store DefaultStrategy KWeak 0 32 (WeakP None)) (\<lambda>_.
     bnd (protected_drop g) (\<lambda>_.
     bnd (arc_swap_drop DefaultStrategy KArc 0 16) (\<lambda>_.
     arc_deref arc)))))))))"

end
