(* ===== verification/Concurrent.thy ===== *)
theory Concurrent
  imports Ledger
begin

text \<open>
  The hybrid strategy with interleaving: every step of a thread is one access to shared memory, in the order of the
  code, and the threads take their steps in any order. Every thread has its node from the beginning
  and keeps it; the pointers are of the kind \<open>Arc\<close>; memory is sequentially consistent, as the orderings
  of the code ask for on the words that matter.
\<close>

section \<open>Program counters\<close>

text \<open>An owned pointer, or a guard with its debt.\<close>

datatype hnd = Hnd (h_ptr: usize) (h_debt: "slot_ref option")

text \<open>A writer that walks the nodes: its storage, the pointer it took out, and what it was called for.\<close>

datatype purpose = Swapping | Storing | Comparing hnd

datatype wctx = WCtx (w_addr: usize) (w_old: usize) (w_purpose: purpose)

text \<open>
  Who waits for the result of a load: the user, a writer that looks for a replacement to put into the
  envelope for the node \<open>j\<close> with the control word \<open>c\<close>, or a compare-and-swap.
\<close>

datatype rctx = ForUser | ForHelp wctx nid usize | ForCas usize usize usize

text \<open>
  Where a load is. \<open>L_\<close> is \<open>HybridProtection::attempt\<close>, \<open>F_\<close> is \<open>fallback\<close> with \<open>Slots::get_debt\<close> and \<open>Slots::confirm\<close>
  of the helping slot, \<open>I_\<close> is \<open>into_inner\<close>. Each names what is done next.
\<close>

datatype rpc =
    L_Ptr usize
  | L_Slot usize usize nat
  | L_Take usize usize nat
  | L_Confirm usize usize slot_ref
  | L_Pay usize usize slot_ref
  | F_Addr usize
  | F_Gen usize
  | F_Load usize
  | F_Slot usize usize
  | F_Control usize usize
  | F_Open usize usize
  | F_Space usize usize usize
  | F_PayOld usize usize
  | F_DecOld usize usize
  | I_Inc usize slot_ref
  | I_Pay usize slot_ref
  | I_Dec usize

text \<open>Where a guard or a pointer that is dropped is, and what comes after.\<close>

datatype gpc = G_Pay usize slot_ref | G_Dec usize

datatype dctx = ToIdle | ToRet hnd | ToCas usize usize usize | ToHelp wctx nid usize

text \<open>Where a writer is in \<open>pay_all\<close> and \<open>Slots::help\<close>.\<close>

datatype wpc =
    W_Inc
  | W_Reserve nid
  | W_Control nid
  | W_Addr nid usize
  | W_Again nid usize
  | W_Their nid usize usize
  | W_Hand nid usize usize usize
  | W_Cas nid usize usize usize
  | W_Offer nid usize
  | W_Pay nid nat
  | W_Paid nid nat
  | W_Release nid
  | W_Dec
  | W_DecOld

datatype pc =
    Idle
  | Ret hnd
  | Read rpc rctx
  | Give gpc dctx
  | Swap_Out usize usize purpose
  | Exchange usize usize usize hnd
  | Write wpc wctx

section \<open>Steps\<close>

definition begin_load :: "(usize \<Rightarrow> bool) \<Rightarrow> usize \<Rightarrow> rctx \<Rightarrow> pc" where
  "begin_load use_fast a k = Read (if use_fast a then L_Ptr a else F_Addr a) k"

definition begin_drop :: "hnd \<Rightarrow> dctx \<Rightarrow> pc" where
  "begin_drop h d = (case h_debt h of None \<Rightarrow> Give (G_Dec (h_ptr h)) d | Some s \<Rightarrow> Give (G_Pay (h_ptr h) s) d)"

text \<open>What is done with a loaded guard.\<close>

fun loaded_by :: "hnd \<Rightarrow> rctx \<Rightarrow> pc" where
  "loaded_by h ForUser = Ret h"
| "loaded_by h (ForHelp w j c) =
     (case h_debt h of
        None \<Rightarrow> Write (W_Their j c (h_ptr h)) w
      | Some s \<Rightarrow> Read (I_Inc (h_ptr h) s) (ForHelp w j c))"
| "loaded_by h (ForCas a cur new) =
     (if h_ptr h \<noteq> cur then Give (G_Dec new) (ToRet h) else Exchange a cur new h)"

text \<open>The head of the loop of \<open>Slots::help\<close>: what to do about the control word \<open>c\<close> of the node \<open>j\<close>.\<close>

definition examine :: "tid \<Rightarrow> wctx \<Rightarrow> nid \<Rightarrow> usize \<Rightarrow> ('v world, pc) op" where
  "examine t w j c =
    (if c AND TAG_MASK = IDLE \<and> c = IDLE then ret (Write (W_Pay j 0) w)
     else if c AND TAG_MASK = REPLACEMENT_TAG then ret (Write (W_Pay j 0) w)
     else if c AND TAG_MASK = GEN_TAG then
       bnd (require Debug_Assert (t \<noteq> j)) (\<lambda>_. ret (Write (W_Addr j c) w))
     else raise (Unreachable c))"

text \<open>
  A step of a load: it goes on, or is done with a guard. The counter of generations is private to the thread; it is
  counted up together with the access that publishes it.
\<close>

fun read_step :: "tid \<Rightarrow> rpc \<Rightarrow> ('v world, rpc + hnd) op" where
  "read_step t (L_Ptr a) = bnd (ptr_load a) (\<lambda>p. ret (Inl (L_Slot a p 0)))"
| "read_step t (L_Slot a p i) =
     bnd (gets (\<lambda>w. (fast (nodes w ! t), offset (ln_fast (locals w (Thread t)))))) (\<lambda>(slots, off).
     if i < length slots then
       let j = (i + off) mod length slots in
       ret (Inl (if slots ! j = debt_none then L_Take a p j else L_Slot a p (i + 1)))
     else ret (Inl (F_Addr a)))"
| "read_step t (L_Take a p j) =
     bnd (gets (read_slot (FastSlot t j))) (\<lambda>old.
     bnd (modify (write_slot (FastSlot t j) p)) (\<lambda>_.
     bnd (require Debug_Assert (old = debt_none)) (\<lambda>_.
     bnd (modify (upd_local (Thread t) (\<lambda>ln. ln\<lparr>ln_fast := \<lparr>offset = j + 1\<rparr>\<rparr>))) (\<lambda>_.
     ret (Inl (L_Confirm a p (FastSlot t j)))))))"
| "read_step t (L_Confirm a p s) =
     bnd (ptr_load a) (\<lambda>confirm.
     ret (if p = confirm then Inr (Hnd confirm (Some s)) else Inl (L_Pay a p s)))"
| "read_step t (L_Pay a p s) =
     bnd (debt_pay s p) (\<lambda>paid. ret (if paid then Inl (F_Addr a) else Inr (Hnd p None)))"
| "read_step t (F_Addr a) =
     bnd (gets (\<lambda>w. generation (ln_helping (locals w (Thread t))) + 4)) (\<lambda>gen.
     bnd (require Debug_Assert (gen AND GEN_TAG = 0)) (\<lambda>_.
     bnd (modify (upd_helping t (\<lambda>hs. hs\<lparr>active_addr := a\<rparr>))) (\<lambda>_.
     ret (Inl (F_Gen a)))))"
| "read_step t (F_Gen a) =
     bnd (gets (\<lambda>w. (control (helping (nodes w ! t)), generation (ln_helping (locals w (Thread t))) + 4))) (\<lambda>(prev, gen).
     bnd (modify (upd_local (Thread t) (\<lambda>ln. ln\<lparr>ln_helping := \<lparr>generation = gen\<rparr>\<rparr>))) (\<lambda>_.
     bnd (modify (upd_helping t (\<lambda>hs. hs\<lparr>control := gen OR GEN_TAG\<rparr>))) (\<lambda>_.
     bnd (require Debug_Assert (prev = IDLE)) (\<lambda>_.
     ret (Inl (F_Load a))))))"
| "read_step t (F_Load a) = bnd (ptr_load a) (\<lambda>candidate. ret (Inl (F_Slot a candidate)))"
| "read_step t (F_Slot a p) =
     bnd (gets (\<lambda>w. slot (helping (nodes w ! t)))) (\<lambda>prev.
     bnd (modify (upd_helping t (\<lambda>hs. hs\<lparr>slot := p\<rparr>))) (\<lambda>_.
     bnd (require Debug_Assert (prev = debt_none)) (\<lambda>_.
     ret (Inl (F_Control a p)))))"
| "read_step t (F_Control a p) =
     bnd (gets (\<lambda>w. (control (helping (nodes w ! t)), generation (ln_helping (locals w (Thread t)))))) (\<lambda>(c, gen).
     bnd (modify (upd_helping t (\<lambda>hs. hs\<lparr>control := IDLE\<rparr>))) (\<lambda>_.
     if c = gen OR GEN_TAG then ret (Inl (I_Inc p (HelpSlot t)))
     else
       bnd (require Debug_Assert (c AND TAG_MASK = REPLACEMENT_TAG)) (\<lambda>_.
       ret (Inl (F_Open p (c AND NOT TAG_MASK))))))"
| "read_step t (F_Open p e) = bnd (gets (\<lambda>w. handover w e)) (\<lambda>r. ret (Inl (F_Space p e r)))"
| "read_step t (F_Space p e r) =
     bnd (modify (upd_helping t (\<lambda>hs. hs\<lparr>space_offer := e\<rparr>))) (\<lambda>_. ret (Inl (F_PayOld p r)))"
| "read_step t (F_PayOld p r) =
     bnd (debt_pay (HelpSlot t) p) (\<lambda>paid. ret (if paid then Inr (Hnd r None) else Inl (F_DecOld p r)))"
| "read_step t (F_DecOld p r) = bnd (t_dec KArc p) (\<lambda>_. ret (Inr (Hnd r None)))"
| "read_step t (I_Inc p s) = bnd (t_inc (ArcP p)) (\<lambda>_. ret (Inl (I_Pay p s)))"
| "read_step t (I_Pay p s) =
     bnd (debt_pay s p) (\<lambda>paid. ret (if paid then Inr (Hnd p None) else Inl (I_Dec p)))"
| "read_step t (I_Dec p) = bnd (t_dec KArc p) (\<lambda>_. ret (Inr (Hnd p None)))"

text \<open>A step of a drop: \<open>None\<close> when it is done.\<close>

fun give_step :: "gpc \<Rightarrow> ('v world, gpc option) op" where
  "give_step (G_Pay p s) = bnd (debt_pay s p) (\<lambda>paid. ret (if paid then None else Some (G_Dec p)))"
| "give_step (G_Dec p) = bnd (t_dec KArc p) (\<lambda>_. ret None)"

fun dropped :: "(usize \<Rightarrow> bool) \<Rightarrow> tid \<Rightarrow> dctx \<Rightarrow> ('v world, pc) op" where
  "dropped uf t ToIdle = ret Idle"
| "dropped uf t (ToRet h) = ret (Ret h)"
| "dropped uf t (ToCas a cur new) = ret (begin_load uf a (ForCas a cur new))"
| "dropped uf t (ToHelp w j c) = examine t w j c"

definition slot_at :: "nid \<Rightarrow> nat \<Rightarrow> slot_ref" where
  "slot_at j i = (if i < DEBT_SLOT_CNT then FastSlot j i else HelpSlot j)"

definition next_stop :: "nid \<Rightarrow> wpc" where
  "next_stop j = (case j of 0 \<Rightarrow> W_Dec | Suc i \<Rightarrow> W_Reserve i)"

text \<open>A step of a writer.\<close>

fun write_step :: "(usize \<Rightarrow> bool) \<Rightarrow> tid \<Rightarrow> wpc \<Rightarrow> wctx \<Rightarrow> ('v world, pc) op" where
  "write_step uf t W_Inc w =
     bnd (t_inc (ArcP (w_old w))) (\<lambda>_.
     bnd (gets (\<lambda>u. length (nodes u))) (\<lambda>len.
     ret (Write (next_stop len) w)))"
| "write_step uf t (W_Reserve j) w = bnd (reserve_writer j) (\<lambda>_. ret (Write (W_Control j) w))"
| "write_step uf t (W_Control j) w =
     bnd (gets (\<lambda>u. control (helping (nodes u ! t)))) (\<lambda>mine.
     bnd (require Debug_Assert (mine = IDLE)) (\<lambda>_.
     bnd (gets (\<lambda>u. control (helping (nodes u ! j)))) (examine t w j)))"
| "write_step uf t (W_Addr j c) w =
     bnd (gets (\<lambda>u. active_addr (helping (nodes u ! j)))) (\<lambda>addr.
     ret (if addr \<noteq> w_addr w then Write (W_Again j c) w
          else begin_load uf (w_addr w) (ForHelp w j c)))"
| "write_step uf t (W_Again j c) w =
     bnd (gets (\<lambda>u. control (helping (nodes u ! j)))) (\<lambda>new_control.
     if new_control = c then ret (Write (W_Pay j 0) w) else examine t w j new_control)"
| "write_step uf t (W_Their j c r) w =
     bnd (gets (\<lambda>u. space_offer (helping (nodes u ! j)))) (\<lambda>their_space.
     ret (Write (W_Hand j c r their_space) w))"
| "write_step uf t (W_Hand j c r their_space) w =
     bnd (gets (\<lambda>u. space_offer (helping (nodes u ! t)))) (\<lambda>my_space.
     bnd (require (Bad_Pointer my_space) (my_space \<noteq> 0)) (\<lambda>_.
     bnd (modify (\<lambda>u. u\<lparr>handover := (handover u)(my_space := r)\<rparr>)) (\<lambda>_.
     bnd (require Assert_Failed (my_space AND TAG_MASK = 0)) (\<lambda>_.
     ret (Write (W_Cas j c r their_space) w)))))"
| "write_step uf t (W_Cas j c r their_space) w =
     bnd (gets (\<lambda>u. (control (helping (nodes u ! j)), space_offer (helping (nodes u ! t))))) (\<lambda>(cur, my_space).
     if cur = c then
       bnd (modify (upd_helping j (\<lambda>hs. hs\<lparr>control := my_space OR REPLACEMENT_TAG\<rparr>))) (\<lambda>_.
       ret (Write (W_Offer j their_space) w))
     else ret (Give (G_Dec r) (ToHelp w j cur)))"
| "write_step uf t (W_Offer j their_space) w =
     bnd (modify (upd_helping t (\<lambda>hs. hs\<lparr>space_offer := their_space\<rparr>))) (\<lambda>_.
     ret (Write (W_Pay j 0) w))"
| "write_step uf t (W_Pay j i) w =
     (if DEBT_SLOT_CNT < i then ret (Write (W_Release j) w)
      else
        bnd (debt_pay (slot_at j i) (w_old w)) (\<lambda>paid.
        ret (Write (if paid then W_Paid j i else W_Pay j (i + 1)) w)))"
| "write_step uf t (W_Paid j i) w =
     bnd (t_inc (ArcP (w_old w))) (\<lambda>_. ret (Write (W_Pay j (i + 1)) w))"
| "write_step uf t (W_Release j) w = bnd (release_writer j) (\<lambda>_. ret (Write (next_stop j) w))"
| "write_step uf t W_Dec w =
     bnd (t_dec KArc (w_old w)) (\<lambda>_.
     ret (case w_purpose w of
            Swapping \<Rightarrow> Ret (Hnd (w_old w) None)
          | Storing \<Rightarrow> Give (G_Dec (w_old w)) ToIdle
          | Comparing h \<Rightarrow> Write W_DecOld w))"
| "write_step uf t W_DecOld w =
     bnd (t_dec KArc (w_old w)) (\<lambda>_.
     ret (case w_purpose w of Comparing h \<Rightarrow> Ret h | _ \<Rightarrow> Idle))"

fun pc_step :: "(usize \<Rightarrow> bool) \<Rightarrow> tid \<Rightarrow> pc \<Rightarrow> ('v world, pc) op" where
  "pc_step uf t Idle = ret Idle"
| "pc_step uf t (Ret h) = ret Idle"
| "pc_step uf t (Read r k) =
     bnd (read_step t r) (\<lambda>x. ret (case x of Inl r' \<Rightarrow> Read r' k | Inr h \<Rightarrow> loaded_by h k))"
| "pc_step uf t (Give g d) =
     bnd (give_step g) (\<lambda>x. case x of Some g' \<Rightarrow> ret (Give g' d) | None \<Rightarrow> dropped uf t d)"
| "pc_step uf t (Swap_Out a new p) =
     bnd (ptr_swap a new) (\<lambda>old. ret (Write W_Inc (WCtx a old p)))"
| "pc_step uf t (Exchange a cur new h) =
     bnd (ptr_cas_weak a cur new) (\<lambda>(ok, _).
     ret (if ok then Write W_Inc (WCtx a cur (Comparing h)) else begin_drop h (ToCas a cur new)))"
| "pc_step uf t (Write x w) = write_step uf t x w"

section \<open>The machine\<close>

record 'v cst =
  mem :: "'v world"
  pcs :: "tid \<Rightarrow> pc"
  bag :: "hnd list"

text \<open>
  A thread takes a step of its operation; what the operation returns goes to the handles of the
  program, which any thread can use.
\<close>

definition run_thread :: "(usize \<Rightarrow> bool) \<Rightarrow> tid \<Rightarrow> 'v cst \<Rightarrow> fault + 'v cst" where
  "run_thread uf t S = (case pc_step uf t (pcs S t) (mem S) of
      Inl e \<Rightarrow> Inl e
    | Inr (x, w) \<Rightarrow> Inr (S\<lparr>mem := w, pcs := (pcs S)(t := x),
        bag := (case pcs S t of Ret h \<Rightarrow> bag S @ [h] | _ \<Rightarrow> bag S)\<rparr>))"

text \<open>
  An operation holds the storage it works on for as long as it may come back to it. The borrow checker of Rust keeps a storage
  in place that is used like this.
\<close>

fun cell_of :: "rpc \<Rightarrow> usize option" where
  "cell_of (L_Ptr a) = Some a"
| "cell_of (L_Slot a p i) = Some a"
| "cell_of (L_Take a p j) = Some a"
| "cell_of (L_Confirm a p s) = Some a"
| "cell_of (L_Pay a p s) = Some a"
| "cell_of (F_Addr a) = Some a"
| "cell_of (F_Gen a) = Some a"
| "cell_of (F_Load a) = Some a"
| "cell_of (F_Slot a p) = Some a"
| "cell_of (F_Control a p) = Some a"
| "cell_of _ = None"

fun loans :: "rctx \<Rightarrow> usize \<Rightarrow> bool" where
  "loans ForUser a = False"
| "loans (ForHelp w j c) a = (w_addr w = a)"
| "loans (ForCas b cur new) a = (b = a)"

fun borrows :: "pc \<Rightarrow> usize \<Rightarrow> bool" where
  "borrows (Read r k) a = (cell_of r = Some a \<or> loans k a)"
| "borrows (Give g (ToCas b cur new)) a = (b = a)"
| "borrows (Give g (ToHelp w j c)) a = (w_addr w = a)"
| "borrows (Swap_Out b new p) a = (b = a)"
| "borrows (Exchange b cur new h) a = (b = a)"
| "borrows (Write x w) a = (w_addr w = a)"
| "borrows _ a = False"

definition unused :: "usize \<Rightarrow> 'v cst \<Rightarrow> bool" where
  "unused a S \<longleftrightarrow> list_all (\<lambda>n. \<not> borrows (pcs S n) a) [0..<length (nodes (mem S))]"

text \<open>The calls a program can make; handles are named by their position.\<close>

datatype 'v call =
    CLoad usize
  | CSwap usize nat
  | CStore usize nat
  | CCas usize usize nat
  | CDrop nat
  | CCash nat
  | CClone nat
  | CAlloc usize 'v
  | CCreate usize nat
  | CIntoInner usize
  | CDispose usize

text \<open>
  Cloning, allocating and creating a storage are single accesses and done at once. Turning a storage into its pointer and
  dropping it begin with the exclusive access to it, which takes it from the others, and go on like the end of a swap or of a store.
\<close>

fun call_step :: "(usize \<Rightarrow> bool) \<Rightarrow> tid \<Rightarrow> 'v call \<Rightarrow> 'v cst \<Rightarrow> fault + 'v cst" where
  "call_step uf t (CLoad a) S = Inr (S\<lparr>pcs := (pcs S)(t := begin_load uf a ForUser)\<rparr>)"
| "call_step uf t (CSwap a i) S =
     Inr (S\<lparr>pcs := (pcs S)(t := Swap_Out a (h_ptr (bag S ! i)) Swapping), bag := del_nth i (bag S)\<rparr>)"
| "call_step uf t (CStore a i) S =
     Inr (S\<lparr>pcs := (pcs S)(t := Swap_Out a (h_ptr (bag S ! i)) Storing), bag := del_nth i (bag S)\<rparr>)"
| "call_step uf t (CCas a cur i) S =
     Inr (S\<lparr>pcs := (pcs S)(t := begin_load uf a (ForCas a cur (h_ptr (bag S ! i)))), bag := del_nth i (bag S)\<rparr>)"
| "call_step uf t (CDrop i) S =
     Inr (S\<lparr>pcs := (pcs S)(t := begin_drop (bag S ! i) ToIdle), bag := del_nth i (bag S)\<rparr>)"
| "call_step uf t (CCash i) S =
     Inr (S\<lparr>pcs := (pcs S)(t := (case h_debt (bag S ! i) of
              None \<Rightarrow> Ret (bag S ! i) | Some s \<Rightarrow> Read (I_Inc (h_ptr (bag S ! i)) s) ForUser)),
            bag := del_nth i (bag S)\<rparr>)"
| "call_step uf t (CClone i) S =
     (case t_inc (ArcP (h_ptr (bag S ! i))) (mem S) of
        Inl e \<Rightarrow> Inl e | Inr (p, w) \<Rightarrow> Inr (S\<lparr>mem := w, bag := bag S @ [Hnd p None]\<rparr>))"
| "call_step uf t (CAlloc p v) S =
     Inr (S\<lparr>mem := (mem S)\<lparr>heap := (heap (mem S))(p := Some \<lparr>strong = 1, weak = 0, pointee = v\<rparr>)\<rparr>,
            bag := bag S @ [Hnd p None]\<rparr>)"
| "call_step uf t (CCreate a i) S =
     Inr (S\<lparr>mem := (mem S)\<lparr>storage := (storage (mem S))(a := Some (h_ptr (bag S ! i)))\<rparr>,
            bag := del_nth i (bag S)\<rparr>)"
| "call_step uf t (CIntoInner a) S =
     (case storage (mem S) a of
        None \<Rightarrow> Inl (Bad_Pointer a)
      | Some old \<Rightarrow> Inr (S\<lparr>mem := (mem S)\<lparr>storage := (storage (mem S))(a := None)\<rparr>,
            pcs := (pcs S)(t := Write W_Inc (WCtx a old Swapping))\<rparr>))"
| "call_step uf t (CDispose a) S =
     (case storage (mem S) a of
        None \<Rightarrow> Inl (Bad_Pointer a)
      | Some old \<Rightarrow> Inr (S\<lparr>mem := (mem S)\<lparr>storage := (storage (mem S))(a := None)\<rparr>,
            pcs := (pcs S)(t := Write W_Inc (WCtx a old Storing))\<rparr>))"

text \<open>
  What a call needs: its storage and handles exist (a pointer that is stored is an owned one), memory is free, a storage that is
  destroyed is in use nowhere.
\<close>

fun call_pre :: "'v call \<Rightarrow> 'v cst \<Rightarrow> bool" where
  "call_pre (CLoad a) S = (storage (mem S) a \<noteq> None)"
| "call_pre (CSwap a i) S = (storage (mem S) a \<noteq> None \<and> i < length (bag S) \<and> h_debt (bag S ! i) = None)"
| "call_pre (CStore a i) S = (storage (mem S) a \<noteq> None \<and> i < length (bag S) \<and> h_debt (bag S ! i) = None)"
| "call_pre (CCas a cur i) S = (storage (mem S) a \<noteq> None \<and> i < length (bag S) \<and> h_debt (bag S ! i) = None)"
| "call_pre (CDrop i) S = (i < length (bag S))"
| "call_pre (CCash i) S = (i < length (bag S))"
| "call_pre (CClone i) S = (i < length (bag S))"
| "call_pre (CAlloc p v) S = (heap (mem S) p = None \<and> p \<noteq> debt_none)"
| "call_pre (CCreate a i) S =
     (storage (mem S) a = None \<and> unused a S \<and> i < length (bag S) \<and> h_debt (bag S ! i) = None)"
| "call_pre (CIntoInner a) S = (storage (mem S) a \<noteq> None \<and> unused a S)"
| "call_pre (CDispose a) S = (storage (mem S) a \<noteq> None \<and> unused a S)"

text \<open>
  A thread whose generation counter would wrap around stops: it would panic there.
\<close>

definition stopped :: "tid \<Rightarrow> 'v cst \<Rightarrow> bool" where
  "stopped t S \<longleftrightarrow> (case pcs S t of
       Read (F_Addr a) k \<Rightarrow> generation (ln_helping (locals (mem S) (Thread t))) + 4 = 0
     | _ \<Rightarrow> False)"

inductive cstep :: "(usize \<Rightarrow> bool) \<Rightarrow> 'v cst \<Rightarrow> 'v cst \<Rightarrow> bool" for uf :: "usize \<Rightarrow> bool" where
  go: "t < length (nodes (mem S)) \<Longrightarrow> \<not> stopped t S \<Longrightarrow> run_thread uf t S = Inr S' \<Longrightarrow> cstep uf S S'"
| call: "t < length (nodes (mem S)) \<Longrightarrow> pcs S t = Idle \<Longrightarrow> call_pre x S \<Longrightarrow> call_step uf t x S = Inr S' \<Longrightarrow>
    cstep uf S S'"

definition cstart :: "nat \<Rightarrow> (nid \<Rightarrow> usize) \<Rightarrow> bool list \<Rightarrow> 'v cst" where
  "cstart N pl sp =
     \<lparr>mem = (start_world pl sp)\<lparr>nodes := map (\<lambda>n. node_default
          \<lparr>helping := helping_init (pl n) helping_slots_default,
           next_node := (if n = 0 then None else Some (n - 1))\<rparr>) [0..<N],
        list_head := (if N = 0 then None else Some (N - 1)),
        locals := (\<lambda>l. case l of Thread t \<Rightarrow> local_default\<lparr>ln_node := Some t\<rparr> | Temp i \<Rightarrow> local_default)\<rparr>,
      pcs = (\<lambda>_. Idle), bag = []\<rparr>"

inductive creachable :: "(usize \<Rightarrow> bool) \<Rightarrow> nat \<Rightarrow> (nid \<Rightarrow> usize) \<Rightarrow> bool list \<Rightarrow> 'v cst \<Rightarrow> bool"
  for uf :: "usize \<Rightarrow> bool" and N :: nat and pl :: "nid \<Rightarrow> usize" and sp :: "bool list" where
  start: "creachable uf N pl sp (cstart N pl sp)"
| step: "creachable uf N pl sp S \<Longrightarrow> cstep uf S S' \<Longrightarrow> creachable uf N pl sp S'"

text \<open>
  A schedule: a thread makes its next access, or begins a call. What cannot be done is skipped.
\<close>

datatype 'v event = Tick tid | Call tid "'v call"

fun happen :: "(usize \<Rightarrow> bool) \<Rightarrow> 'v event \<Rightarrow> 'v cst \<Rightarrow> fault + 'v cst" where
  "happen uf (Tick t) S =
     (if t < length (nodes (mem S)) \<and> \<not> stopped t S then run_thread uf t S else Inr S)"
| "happen uf (Call t x) S =
     (if t < length (nodes (mem S)) \<and> pcs S t = Idle \<and> call_pre x S then call_step uf t x S else Inr S)"

fun play :: "(usize \<Rightarrow> bool) \<Rightarrow> 'v event list \<Rightarrow> 'v cst \<Rightarrow> fault + 'v cst" where
  "play uf [] S = Inr S"
| "play uf (e # es) S = (case happen uf e S of Inl f \<Rightarrow> Inl f | Inr S' \<Rightarrow> play uf es S')"

end
