(* ===== verification/Interleaving.thy ===== *)
theory Interleaving
  imports Concurrent "HOL-Library.Multiset"
begin

text \<open>
  The invariant of the machine of single accesses: who holds which references in the middle of an operation, which
  slots stand for them, what a thread knows about the shared memory, and how this knowledge survives the steps of the other
  threads (rely and guarantee).
\<close>

section \<open>References and notes\<close>

text \<open>
  What a thread holds at a program counter: references it owns (\<open>own\<close>), and notes, that is references that may be recorded
  in a slot (\<open>ious\<close>). Of a note with its pointer still in the slot the count is owed; otherwise a writer has
  counted it. A note is confirmed when the pointer may be used.
\<close>

definition hown :: "hnd \<Rightarrow> usize multiset" where
  "hown h = (if h_debt h = None then {#h_ptr h#} else {#})"

definition hnotes :: "hnd \<Rightarrow> (slot_ref \<times> usize) multiset" where
  "hnotes h = (case h_debt h of None \<Rightarrow> {#} | Some s \<Rightarrow> {#(s, h_ptr h)#})"

fun pown :: "purpose \<Rightarrow> usize multiset" where
  "pown (Comparing h) = hown h"
| "pown _ = {#}"

fun pnotes :: "purpose \<Rightarrow> (slot_ref \<times> usize) multiset" where
  "pnotes (Comparing h) = hnotes h"
| "pnotes _ = {#}"

abbreviation wown :: "wctx \<Rightarrow> usize multiset" where
  "wown w \<equiv> {#w_old w, w_old w#} + pown (w_purpose w)"

fun kown :: "rctx \<Rightarrow> usize multiset" where
  "kown ForUser = {#}"
| "kown (ForHelp w j c) = wown w"
| "kown (ForCas a cur new) = {#new#}"

fun knotes :: "rctx \<Rightarrow> (slot_ref \<times> usize) multiset" where
  "knotes (ForHelp w j c) = pnotes (w_purpose w)"
| "knotes _ = {#}"

fun rown :: "rpc \<Rightarrow> usize multiset" where
  "rown (F_Space p e r) = {#r#}"
| "rown (F_PayOld p r) = {#r#}"
| "rown (F_DecOld p r) = {#p, r#}"
| "rown (I_Pay p s) = {#p#}"
| "rown (I_Dec p) = {#p, p#}"
| "rown _ = {#}"

fun rnotes :: "tid \<Rightarrow> rpc \<Rightarrow> (slot_ref \<times> usize) multiset" where
  "rnotes t (L_Confirm a p s) = {#(s, p)#}"
| "rnotes t (L_Pay a p s) = {#(s, p)#}"
| "rnotes t (F_Control a p) = {#(HelpSlot t, p)#}"
| "rnotes t (F_Open p e) = {#(HelpSlot t, p)#}"
| "rnotes t (F_Space p e r) = {#(HelpSlot t, p)#}"
| "rnotes t (F_PayOld p r) = {#(HelpSlot t, p)#}"
| "rnotes t (I_Inc p s) = {#(s, p)#}"
| "rnotes t (I_Pay p s) = {#(s, p)#}"
| "rnotes t _ = {#}"

fun gown :: "gpc \<Rightarrow> usize multiset" where
  "gown (G_Dec p) = {#p#}"
| "gown (G_Pay p s) = {#}"

fun gnotes :: "gpc \<Rightarrow> (slot_ref \<times> usize) multiset" where
  "gnotes (G_Dec p) = {#}"
| "gnotes (G_Pay p s) = {#(s, p)#}"

fun down :: "dctx \<Rightarrow> usize multiset" where
  "down ToIdle = {#}"
| "down (ToRet h) = hown h"
| "down (ToCas a cur new) = {#new#}"
| "down (ToHelp w j c) = wown w"

fun dnotes :: "dctx \<Rightarrow> (slot_ref \<times> usize) multiset" where
  "dnotes (ToRet h) = hnotes h"
| "dnotes (ToHelp w j c) = pnotes (w_purpose w)"
| "dnotes _ = {#}"

text \<open>A writer owns the pointer it took out, and one reference more that it puts into the next slot.\<close>

fun xown :: "wpc \<Rightarrow> wctx \<Rightarrow> usize multiset" where
  "xown W_Inc w = {#w_old w#} + pown (w_purpose w)"
| "xown (W_Paid j i) w = {#w_old w#} + pown (w_purpose w)"
| "xown W_DecOld w = {#w_old w#} + pown (w_purpose w)"
| "xown (W_Their j c r) w = {#r#} + wown w"
| "xown (W_Hand j c r th) w = {#r#} + wown w"
| "xown (W_Cas j c r th) w = {#r#} + wown w"
| "xown _ w = wown w"

fun own :: "pc \<Rightarrow> usize multiset" where
  "own Idle = {#}"
| "own (Ret h) = hown h"
| "own (Read r k) = rown r + kown k"
| "own (Give g d) = gown g + down d"
| "own (Swap_Out a new p) = {#new#}"
| "own (Exchange a cur new h) = {#new#} + hown h"
| "own (Write x w) = xown x w"

fun ious :: "tid \<Rightarrow> pc \<Rightarrow> (slot_ref \<times> usize) multiset" where
  "ious t Idle = {#}"
| "ious t (Ret h) = hnotes h"
| "ious t (Read r k) = rnotes t r + knotes k"
| "ious t (Give g d) = gnotes g + dnotes d"
| "ious t (Swap_Out a new p) = {#}"
| "ious t (Exchange a cur new h) = hnotes h"
| "ious t (Write x w) = pnotes (w_purpose w)"

fun rconf :: "rpc \<Rightarrow> (slot_ref \<times> usize) set" where
  "rconf (I_Inc p s) = {(s, p)}"
| "rconf _ = {}"

fun conf :: "pc \<Rightarrow> (slot_ref \<times> usize) set" where
  "conf (Ret h) = set_mset (hnotes h)"
| "conf (Read r k) = rconf r \<union> set_mset (knotes k)"
| "conf (Give g d) = set_mset (dnotes d)"
| "conf (Exchange a cur new h) = set_mset (hnotes h)"
| "conf (Write x w) = set_mset (pnotes (w_purpose w))"
| "conf _ = {}"

lemma conf_ious: "conf x \<subseteq> set_mset (ious t x)"
proof (cases x)
  case (Read r k)
  then show ?thesis by (cases r) auto
next
  case (Give g d)
  then show ?thesis by auto
qed auto

section \<open>What a writer has still to do\<close>

fun snode :: "slot_ref \<Rightarrow> nid" where
  "snode (FastSlot n i) = n"
| "snode (HelpSlot n) = n"

fun sidx :: "slot_ref \<Rightarrow> nat" where
  "sidx (FastSlot n i) = i"
| "sidx (HelpSlot n) = DEBT_SLOT_CNT"

text \<open>The slots a writer has not come to yet.\<close>

fun wleft :: "wpc \<Rightarrow> slot_ref \<Rightarrow> bool" where
  "wleft W_Inc s = True"
| "wleft (W_Pay j i) s = (snode s < j \<or> snode s = j \<and> i \<le> sidx s)"
| "wleft (W_Paid j i) s = (snode s < j \<or> snode s = j \<and> i < sidx s)"
| "wleft (W_Release j) s = (snode s < j)"
| "wleft W_Dec s = False"
| "wleft W_DecOld s = False"
| "wleft (W_Reserve j) s = (snode s \<le> j)"
| "wleft (W_Control j) s = (snode s \<le> j)"
| "wleft (W_Addr j c) s = (snode s \<le> j)"
| "wleft (W_Again j c) s = (snode s \<le> j)"
| "wleft (W_Their j c r) s = (snode s \<le> j)"
| "wleft (W_Hand j c r th) s = (snode s \<le> j)"
| "wleft (W_Cas j c r th) s = (snode s \<le> j)"
| "wleft (W_Offer j th) s = (snode s \<le> j)"

fun left :: "pc \<Rightarrow> usize \<Rightarrow> slot_ref \<Rightarrow> bool" where
  "left (Write x w) p s = (w_old w = p \<and> wleft x s)"
| "left (Read r (ForHelp w j c)) p s = (w_old w = p \<and> snode s \<le> j)"
| "left (Give g (ToHelp w j c)) p s = (w_old w = p \<and> snode s \<le> j)"
| "left _ p s = False"

text \<open>
  A writer that took \<open>p\<close> out of the storage \<open>a\<close> and is going to help the transaction \<open>c0\<close> of the node \<open>n\<close>.
\<close>

fun wawaits :: "usize \<Rightarrow> wpc \<Rightarrow> nid \<Rightarrow> bool" where
  "wawaits c0 W_Inc n = True"
| "wawaits c0 (W_Reserve j) n = (n \<le> j)"
| "wawaits c0 (W_Control j) n = (n \<le> j)"
| "wawaits c0 (W_Addr j c) n = (n < j \<or> n = j \<and> c = c0)"
| "wawaits c0 (W_Their j c r) n = (n < j \<or> n = j \<and> c = c0)"
| "wawaits c0 (W_Hand j c r th) n = (n < j \<or> n = j \<and> c = c0)"
| "wawaits c0 (W_Cas j c r th) n = (n < j \<or> n = j \<and> c = c0)"
| "wawaits c0 (W_Again j c) n = (n < j)"
| "wawaits c0 (W_Offer j th) n = (n < j)"
| "wawaits c0 (W_Pay j i) n = (n < j)"
| "wawaits c0 (W_Paid j i) n = (n < j)"
| "wawaits c0 (W_Release j) n = (n < j)"
| "wawaits c0 W_Dec n = False"
| "wawaits c0 W_DecOld n = False"

fun awaits :: "usize \<Rightarrow> pc \<Rightarrow> usize \<Rightarrow> usize \<Rightarrow> nid \<Rightarrow> bool" where
  "awaits c0 (Write x w) a p n = (w_addr w = a \<and> w_old w = p \<and> wawaits c0 x n)"
| "awaits c0 (Read r (ForHelp w j c)) a p n = (w_addr w = a \<and> w_old w = p \<and> (n < j \<or> n = j \<and> c = c0))"
| "awaits c0 (Give g (ToHelp w j c)) a p n = (w_addr w = a \<and> w_old w = p \<and> n < j)"
| "awaits c0 _ a p n = False"

lemma wawaits_left: "wawaits c x n \<Longrightarrow> wleft x (HelpSlot n)"
  by (cases x) auto

lemma awaits_left: "awaits c x a p n \<Longrightarrow> left x p (HelpSlot n)"
proof (cases x)
  case (Read r k)
  then show "awaits c x a p n \<Longrightarrow> ?thesis" by (cases k) auto
next
  case (Give g d)
  then show "awaits c x a p n \<Longrightarrow> ?thesis" by (cases d) auto
qed (auto dest: wawaits_left)

lemma left_owns: "left x p s \<Longrightarrow> p \<in># own x"
proof (cases x)
  case (Read r k)
  then show "left x p s \<Longrightarrow> ?thesis" by (cases k) auto
next
  case (Give g d)
  then show "left x p s \<Longrightarrow> ?thesis" by (cases d) auto
next
  case (Write y w)
  then show "left x p s \<Longrightarrow> ?thesis" by (cases y) auto
qed auto

section \<open>What a thread knows\<close>

abbreviation ctl :: "'v world \<Rightarrow> nid \<Rightarrow> usize" where "ctl w n \<equiv> control (helping (nodes w ! n))"

abbreviation adr :: "'v world \<Rightarrow> nid \<Rightarrow> usize" where "adr w n \<equiv> active_addr (helping (nodes w ! n))"

abbreviation spc :: "'v world \<Rightarrow> nid \<Rightarrow> usize" where "spc w n \<equiv> space_offer (helping (nodes w ! n))"

abbreviation gnr :: "'v world \<Rightarrow> tid \<Rightarrow> usize" where "gnr w t \<equiv> generation (ln_helping (locals w (Thread t)))"

text \<open>A control word with a generation the thread of the node has published, now or earlier.\<close>

definition published :: "'v world \<Rightarrow> nid \<Rightarrow> usize \<Rightarrow> bool" where
  "published w j c \<longleftrightarrow> (\<exists>g. c = g OR GEN_TAG \<and> g AND TAG_MASK = 0 \<and> g \<le> gnr w j)"

definition hok :: "'v world \<Rightarrow> hnd \<Rightarrow> bool" where
  "hok w h \<longleftrightarrow> h_ptr h \<noteq> debt_none \<and>
     (\<forall>s. h_debt h = Some s \<longrightarrow> (\<exists>n i. s = FastSlot n i \<and> n < length (nodes w) \<and> i < DEBT_SLOT_CNT))"

definition cell :: "'v world \<Rightarrow> usize \<Rightarrow> bool" where
  "cell w a \<longleftrightarrow> storage w a \<noteq> None"

fun pok :: "'v world \<Rightarrow> purpose \<Rightarrow> bool" where
  "pok w (Comparing h) = hok w h"
| "pok w _ = True"

definition wok :: "'v world \<Rightarrow> wctx \<Rightarrow> bool" where
  "wok w x \<longleftrightarrow> w_old x \<noteq> debt_none \<and> pok w (w_purpose x)"

text \<open>
  A writer of a storage that was destroyed meets nobody who is loading from it; one that helps still has its storage.
  A writer of the thread \<open>t\<close> has seen the control word \<open>c\<close> of another node.\<close>

definition seen :: "'v world \<Rightarrow> tid \<Rightarrow> nid \<Rightarrow> usize \<Rightarrow> bool" where
  "seen w t j c \<longleftrightarrow> j < length (nodes w) \<and> j \<noteq> t \<and> published w j c"

fun kinv :: "tid \<Rightarrow> rctx \<Rightarrow> 'v world \<Rightarrow> bool" where
  "kinv t ForUser w = True"
| "kinv t (ForHelp x j c) w = (wok w x \<and> cell w (w_addr x) \<and> seen w t j c \<and> (ctl w j = c \<longrightarrow> adr w j = w_addr x))"
| "kinv t (ForCas a cur new) w = (cell w a \<and> new \<noteq> debt_none)"

definition mine :: "tid \<Rightarrow> slot_ref \<Rightarrow> bool" where
  "mine t s \<longleftrightarrow> (\<exists>i. s = FastSlot t i \<and> i < DEBT_SLOT_CNT)"

definition note_ok :: "'v world \<Rightarrow> tid \<Rightarrow> slot_ref \<Rightarrow> usize \<Rightarrow> bool" where
  "note_ok w t s p \<longleftrightarrow> p \<noteq> debt_none \<and> (s = HelpSlot t \<or> hok w (Hnd p (Some s)))"

fun rinv :: "tid \<Rightarrow> rpc \<Rightarrow> 'v world \<Rightarrow> bool" where
  "rinv t (L_Ptr a) w = cell w a"
| "rinv t (L_Slot a p i) w = (cell w a \<and> p \<noteq> debt_none)"
| "rinv t (L_Take a p j) w = (cell w a \<and> p \<noteq> debt_none \<and> j < DEBT_SLOT_CNT \<and> fast (nodes w ! t) ! j = debt_none)"
| "rinv t (L_Confirm a p s) w = (cell w a \<and> p \<noteq> debt_none \<and> mine t s)"
| "rinv t (L_Pay a p s) w = (cell w a \<and> p \<noteq> debt_none \<and> mine t s)"
| "rinv t (F_Addr a) w = cell w a"
| "rinv t (F_Gen a) w = (cell w a \<and> adr w t = a \<and> gnr w t + 4 \<noteq> 0)"
| "rinv t (F_Load a) w = cell w a"
| "rinv t (F_Slot a p) w = (cell w a \<and> p \<noteq> debt_none)"
| "rinv t (F_Control a p) w = (cell w a \<and> p \<noteq> debt_none)"
| "rinv t (F_Open p e) w = (p \<noteq> debt_none \<and> handover w e \<noteq> debt_none)"
| "rinv t (F_Space p e r) w = (p \<noteq> debt_none \<and> r \<noteq> debt_none)"
| "rinv t (F_PayOld p r) w = (p \<noteq> debt_none \<and> r \<noteq> debt_none)"
| "rinv t (F_DecOld p r) w = (p \<noteq> debt_none \<and> r \<noteq> debt_none)"
| "rinv t (I_Inc p s) w = note_ok w t s p"
| "rinv t (I_Pay p s) w = note_ok w t s p"
| "rinv t (I_Dec p) w = (p \<noteq> debt_none)"

fun ginv :: "tid \<Rightarrow> gpc \<Rightarrow> 'v world \<Rightarrow> bool" where
  "ginv t (G_Pay p s) w = hok w (Hnd p (Some s))"
| "ginv t (G_Dec p) w = (p \<noteq> debt_none)"

fun dinv :: "tid \<Rightarrow> dctx \<Rightarrow> 'v world \<Rightarrow> bool" where
  "dinv t ToIdle w = True"
| "dinv t (ToRet h) w = hok w h"
| "dinv t (ToCas a cur new) w = (cell w a \<and> new \<noteq> debt_none)"
| "dinv t (ToHelp x j c) w = (wok w x \<and> cell w (w_addr x) \<and> j < length (nodes w) \<and> (c = IDLE \<or> is_replacement c \<or> seen w t j c))"

fun xinv :: "tid \<Rightarrow> wpc \<Rightarrow> wctx \<Rightarrow> 'v world \<Rightarrow> bool" where
  "xinv t W_Inc x w = True"
| "xinv t (W_Reserve j) x w = (j < length (nodes w))"
| "xinv t (W_Control j) x w = (j < length (nodes w))"
| "xinv t (W_Addr j c) x w = (seen w t j c \<and> (cell w (w_addr x) \<or> adr w j \<noteq> w_addr x))"
| "xinv t (W_Again j c) x w = (seen w t j c \<and> (ctl w j = c \<longrightarrow> adr w j \<noteq> w_addr x))"
| "xinv t (W_Their j c r) x w = (cell w (w_addr x) \<and> seen w t j c \<and> r \<noteq> debt_none \<and> (ctl w j = c \<longrightarrow> adr w j = w_addr x))"
| "xinv t (W_Hand j c r th) x w = (cell w (w_addr x) \<and> seen w t j c \<and> r \<noteq> debt_none \<and>
     (ctl w j = c \<longrightarrow> adr w j = w_addr x \<and> th = spc w j))"
| "xinv t (W_Cas j c r th) x w = (cell w (w_addr x) \<and> seen w t j c \<and> r \<noteq> debt_none \<and>
     (ctl w j = c \<longrightarrow> adr w j = w_addr x \<and> th = spc w j) \<and> handover w (spc w t) = r)"
| "xinv t (W_Offer j th) x w = (j < length (nodes w))"
| "xinv t (W_Pay j i) x w = (j < length (nodes w))"
| "xinv t (W_Paid j i) x w = (j < length (nodes w))"
| "xinv t (W_Release j) x w = (j < length (nodes w))"
| "xinv t W_Dec x w = True"
| "xinv t W_DecOld x w = (\<exists>h. w_purpose x = Comparing h)"

text \<open>The storage of the transaction a reader has open.\<close>

fun transaction :: "pc \<Rightarrow> usize option" where
  "transaction (Read (F_Load a) k) = Some a"
| "transaction (Read (F_Slot a p) k) = Some a"
| "transaction (Read (F_Control a p) k) = Some a"
| "transaction _ = None"

definition ctl_inv :: "tid \<Rightarrow> pc \<Rightarrow> 'v world \<Rightarrow> bool" where
  "ctl_inv t x w \<longleftrightarrow> gnr w t AND TAG_MASK = 0 \<and>
     (case transaction x of
        None \<Rightarrow> ctl w t = IDLE
      | Some a \<Rightarrow> adr w t = a \<and> (ctl w t = gnr w t OR GEN_TAG \<or>
          is_replacement (ctl w t) \<and> handover w (envelope (ctl w t)) \<noteq> debt_none))"

fun pc_inv :: "tid \<Rightarrow> pc \<Rightarrow> 'v world \<Rightarrow> bool" where
  "pc_inv t Idle w = True"
| "pc_inv t (Ret h) w = hok w h"
| "pc_inv t (Read r k) w = (rinv t r w \<and> kinv t k w)"
| "pc_inv t (Give g d) w = (ginv t g w \<and> dinv t d w)"
| "pc_inv t (Swap_Out a new p) w = (cell w a \<and> new \<noteq> debt_none \<and> (p = Swapping \<or> p = Storing))"
| "pc_inv t (Exchange a cur new h) w = (cell w a \<and> new \<noteq> debt_none \<and> hok w h \<and> h_ptr h = cur)"
| "pc_inv t (Write y x) w = (xinv t y x w \<and> wok w x)"

definition knows :: "tid \<Rightarrow> pc \<Rightarrow> 'v world \<Rightarrow> bool" where
  "knows t x w \<longleftrightarrow> pc_inv t x w \<and> ctl_inv t x w"

section \<open>Envelopes\<close>

text \<open>The envelope a thread may write to, or that is on its way to it.\<close>

definition purse :: "tid \<Rightarrow> pc \<Rightarrow> 'v world \<Rightarrow> usize" where
  "purse t x w =
     (if is_replacement (ctl w t) then envelope (ctl w t)
      else case x of
        Read (F_Open p e) k \<Rightarrow> e
      | Read (F_Space p e r) k \<Rightarrow> e
      | Write (W_Offer j th) y \<Rightarrow> th
      | _ \<Rightarrow> spc w t)"

definition mail :: "tid \<Rightarrow> pc \<Rightarrow> 'v world \<Rightarrow> usize \<Rightarrow> nat" where
  "mail t x w p =
     (if is_replacement (ctl w t) \<and> handover w (envelope (ctl w t)) = p then 1 else 0) +
     (case x of Read (F_Open q e) k \<Rightarrow> if handover w e = p then 1 else 0 | _ \<Rightarrow> 0)"

section \<open>The invariant\<close>

abbreviation threads :: "'v cst \<Rightarrow> nat" where "threads S \<equiv> length (nodes (mem S))"

definition OWN :: "'v cst \<Rightarrow> usize multiset" where
  "OWN S = (\<Sum>t<threads S. own (pcs S t)) + sum_list (map hown (bag S))"

definition IOUS :: "'v cst \<Rightarrow> (slot_ref \<times> usize) multiset" where
  "IOUS S = (\<Sum>t<threads S. ious t (pcs S t)) + sum_list (map hnotes (bag S))"

definition MAIL :: "'v cst \<Rightarrow> usize \<Rightarrow> nat" where
  "MAIL S p = (\<Sum>t<threads S. mail t (pcs S t) (mem S) p)"

abbreviation on :: "usize \<Rightarrow> (slot_ref \<times> usize) multiset \<Rightarrow> nat" where
  "on p M \<equiv> size (filter_mset (\<lambda>x. snd x = p) M)"

abbreviation refs :: "'v world \<Rightarrow> usize \<Rightarrow> nat" where
  "refs w p \<equiv> rc_count KArc (heap w) p"

definition shape :: "'v world \<Rightarrow> bool" where
  "shape w \<longleftrightarrow> (\<forall>n<length (nodes w). length (fast (nodes w ! n)) = DEBT_SLOT_CNT) \<and>
     finite (dom (storage w)) \<and> (\<forall>a. storage w a \<noteq> Some debt_none)"

definition purses :: "'v cst \<Rightarrow> bool" where
  "purses S \<longleftrightarrow> inj_on (\<lambda>t. purse t (pcs S t) (mem S)) {..<threads S} \<and>
     (\<forall>t<threads S. purse t (pcs S t) (mem S) \<noteq> 0 \<and> purse t (pcs S t) (mem S) AND TAG_MASK = 0)"

definition balanced :: "'v cst \<Rightarrow> bool" where
  "balanced S \<longleftrightarrow> (\<forall>p. p \<noteq> debt_none \<longrightarrow>
     refs (mem S) p + owed (mem S) p = count (OWN S) p + on p (IOUS S) + stored (storage (mem S)) p + MAIL S p)"

definition noted :: "'v cst \<Rightarrow> bool" where
  "noted S \<longleftrightarrow> (\<forall>s. slot_val (mem S) s \<noteq> debt_none \<longrightarrow> (s, slot_val (mem S) s) \<in># IOUS S)"

text \<open>
  The protection of a confirmed note whose pointer is still in its slot: the slot stands for another note as well, or the pointer
  is in a storage, or a writer that took it out has not come to the slot yet.
\<close>

definition covered :: "'v cst \<Rightarrow> slot_ref \<Rightarrow> usize \<Rightarrow> bool" where
  "covered S s p \<longleftrightarrow> slot_val (mem S) s = p \<longrightarrow>
     2 \<le> count (IOUS S) (s, p) \<or> 0 < stored (storage (mem S)) p \<or> (\<exists>t<threads S. left (pcs S t) p s)"

definition confs :: "'v cst \<Rightarrow> (slot_ref \<times> usize) set" where
  "confs S = (\<Union>t<threads S. conf (pcs S t)) \<union> (\<Union>h\<in>set (bag S). set_mset (hnotes h))"

definition guarded :: "'v cst \<Rightarrow> bool" where
  "guarded S \<longleftrightarrow> (\<forall>(s, p)\<in>confs S. covered S s p)"

text \<open>A reader that has loaded its candidate and that nobody has helped yet.\<close>

fun candidate :: "pc \<Rightarrow> (usize \<times> usize) option" where
  "candidate (Read (F_Slot a p) k) = Some (a, p)"
| "candidate (Read (F_Control a p) k) = Some (a, p)"
| "candidate _ = None"

definition fresh :: "'v cst \<Rightarrow> nid \<Rightarrow> usize \<Rightarrow> usize \<Rightarrow> bool" where
  "fresh S n a p \<longleftrightarrow> storage (mem S) a = Some p \<or> (\<exists>t<threads S. awaits (ctl (mem S) n) (pcs S t) a p n)"

definition candidates :: "'v cst \<Rightarrow> bool" where
  "candidates S \<longleftrightarrow> (\<forall>n<threads S. \<forall>a p. candidate (pcs S n) = Some (a, p) \<longrightarrow>
     \<not> is_replacement (ctl (mem S) n) \<longrightarrow> fresh S n a p)"

definition cinv :: "'v cst \<Rightarrow> bool" where
  "cinv S \<longleftrightarrow> shape (mem S) \<and> (\<forall>t<threads S. knows t (pcs S t) (mem S)) \<and> (\<forall>h\<in>set (bag S). hok (mem S) h) \<and>
     purses S \<and> balanced S \<and> noted S \<and> guarded S \<and> candidates S"

end
