(* ===== verification/Interference.thy ===== *)
theory Interference
  imports Interleaving
begin

text \<open>
  How the invariant of the machine of single accesses survives a step: the knowledge of the other threads by rely and
  guarantee, the accounts by the difference the step makes, the protection of notes by what the step does to slots,
  storages and writers.
\<close>

section \<open>Sums over the threads\<close>

lemma sum_upd:
  fixes f :: "nat \<Rightarrow> 'b \<Rightarrow> 'a::comm_monoid_add"
  assumes "t < N"
  shows "(\<Sum>n<N. f n ((g(t := y)) n)) + f t (g t) = (\<Sum>n<N. f n (g n)) + f t y"
proof -
  have fin: "finite {..<N}" and t: "t \<in> {..<N}" using assms by auto
  let ?rest = "\<Sum>n\<in>{..<N} - {t}. f n (g n)"
  have "(\<Sum>n\<in>{..<N} - {t}. f n ((g(t := y)) n)) = ?rest" by (rule sum.cong) auto
  then have "(\<Sum>n<N. f n ((g(t := y)) n)) = f t y + ?rest"
    using sum.remove [OF fin t, of "\<lambda>n. f n ((g(t := y)) n)"] by simp
  moreover have "(\<Sum>n<N. f n (g n)) = f t (g t) + ?rest" by (rule sum.remove [OF fin t])
  ultimately show ?thesis by (simp add: ac_simps)
qed

lemma sum_list_del_nth:
  fixes f :: "'b \<Rightarrow> 'a::comm_monoid_add"
  assumes "i < length xs"
  shows "sum_list (map f (del_nth i xs)) + f (xs ! i) = sum_list (map f xs)"
proof -
  have "sum_list (map f xs) = sum_list (map f (take i xs @ xs ! i # drop (Suc i) xs))"
    using assms by (simp add: id_take_nth_drop [symmetric])
  then show ?thesis by (simp add: del_nth_def ac_simps)
qed

section \<open>Rely and guarantee\<close>

text \<open>
  What a step of the thread \<open>t\<close>, whose envelope is \<open>E\<close>, does to the others: of their nodes it only clears slots, and
  turns an open transaction into a helped one; its own node shows a generation only if it is the one shown before,
  with the same data, or a new one; it writes into no other envelope.
\<close>

definition guar :: "tid \<Rightarrow> usize \<Rightarrow> 'v world \<Rightarrow> 'v world \<Rightarrow> bool" where
  "guar t E w w' \<longleftrightarrow> length (nodes w') = length (nodes w) \<and>
     (\<forall>a. cell w a \<longrightarrow> cell w' a) \<and>
     (\<forall>n. length (fast (nodes w' ! n)) = length (fast (nodes w ! n))) \<and>
     (\<forall>n<length (nodes w). n \<noteq> t \<longrightarrow>
        gnr w' n = gnr w n \<and> adr w' n = adr w n \<and> spc w' n = spc w n \<and>
        (ctl w' n = ctl w n \<or> ctl w n AND TAG_MASK = GEN_TAG \<and> is_replacement (ctl w' n) \<and>
           handover w' (envelope (ctl w' n)) \<noteq> debt_none) \<and>
        (\<forall>i<DEBT_SLOT_CNT. fast (nodes w ! n) ! i = debt_none \<longrightarrow> fast (nodes w' ! n) ! i = debt_none)) \<and>
     gnr w t \<le> gnr w' t \<and> (adr w' t = adr w t \<or> cell w (adr w' t)) \<and>
     (ctl w' t AND TAG_MASK = GEN_TAG \<longrightarrow>
        ctl w' t = ctl w t \<and> adr w' t = adr w t \<and> spc w' t = spc w t \<or>
        (\<exists>g. ctl w' t = g OR GEN_TAG \<and> g AND TAG_MASK = 0 \<and> gnr w t < g)) \<and>
     (\<forall>e. e \<noteq> E \<longrightarrow> handover w' e = handover w e)"

lemma published_tag: "published w j c \<Longrightarrow> c AND TAG_MASK = GEN_TAG"
  using tag_or_gen by (auto simp: published_def tag_defs)

lemma published_mono: "published w j c \<Longrightarrow> gnr w j \<le> gnr w' j \<Longrightarrow> published w' j c"
  by (auto simp: published_def)

lemma new_not_published:
  assumes "published w j c" and "c = g OR GEN_TAG" and "g AND TAG_MASK = 0"
  shows "g \<le> gnr w j"
  using assms gen_tagged_inj by (auto simp: published_def tag_defs)

lemma guar_cell: "guar t E w w' \<Longrightarrow> cell w a \<Longrightarrow> cell w' a"
  by (simp add: guar_def)

lemma guar_hok: "guar t E w w' \<Longrightarrow> hok w h \<Longrightarrow> hok w' h"
  by (simp add: guar_def hok_def)

lemma guar_pok: "guar t E w w' \<Longrightarrow> pok w p \<Longrightarrow> pok w' p"
  by (cases p) (auto intro: guar_hok)

lemma guar_wok: "guar t E w w' \<Longrightarrow> wok w x \<Longrightarrow> wok w' x"
  by (auto simp: wok_def intro: guar_pok guar_cell)

lemma guar_gnr: "guar t E w w' \<Longrightarrow> j < length (nodes w) \<Longrightarrow> gnr w j \<le> gnr w' j"
  by (cases "j = t") (auto simp: guar_def)

lemma guar_adr: "guar t E w w' \<Longrightarrow> j < length (nodes w) \<Longrightarrow> cell w a \<or> adr w j \<noteq> a \<Longrightarrow> cell w' a \<or> adr w' j \<noteq> a"
  by (cases "j = t") (auto simp: guar_def)

lemma guar_seen: "guar t E w w' \<Longrightarrow> seen w n j c \<Longrightarrow> seen w' n j c"
  using guar_gnr [of t E w w' j] by (auto simp: seen_def guar_def intro: published_mono)

text \<open>A control word that was published before still comes with the data it came with.\<close>

lemma guar_ctl:
  assumes g: "guar t E w w'" and j: "j < length (nodes w)" and c: "published w j c" "ctl w' j = c"
  shows "ctl w j = c \<and> adr w' j = adr w j \<and> spc w' j = spc w j"
proof (cases "j = t")
  case True
  have tag: "ctl w' t AND TAG_MASK = GEN_TAG" using published_tag [OF c(1)] c(2) True by simp
  have "\<not> (\<exists>g. ctl w' t = g OR GEN_TAG \<and> g AND TAG_MASK = 0 \<and> gnr w t < g)"
    using new_not_published [OF c(1)] c(2) True by (metis leD)
  with g tag have "ctl w' t = ctl w t \<and> adr w' t = adr w t \<and> spc w' t = spc w t" by (simp add: guar_def)
  then show ?thesis using c(2) True by simp
next
  case False
  have "\<not> is_replacement (ctl w' j)" using published_tag [OF c(1)] c(2) by (simp add: is_replacement_def tag_defs)
  then show ?thesis using g j False c(2) by (auto simp: guar_def)
qed

lemma guar_seen_ctl:
  assumes "guar t E w w'" and "seen w n j c" and "ctl w' j = c"
  shows "ctl w j = c \<and> adr w' j = adr w j \<and> spc w' j = spc w j"
  using guar_ctl [OF assms(1) _ _ assms(3)] assms(2) by (simp add: seen_def)

lemma guar_kinv: "guar t E w w' \<Longrightarrow> kinv n k w \<Longrightarrow> kinv n k w'"
proof (cases k)
  case (ForHelp x j c)
  assume g: "guar t E w w'" and i: "kinv n k w"
  have s: "seen w n j c" using i ForHelp by simp
  show ?thesis
    using i ForHelp guar_seen [OF g s] guar_seen_ctl [OF g s] guar_wok [OF g] guar_cell [OF g] by simp
qed (auto intro: guar_cell)

lemma guar_xinv:
  assumes g: "guar t E w w'" and i: "xinv n y x w" and n: "n < length (nodes w)" "n \<noteq> t"
    and E: "\<And>j c r th. y = W_Cas j c r th \<Longrightarrow> spc w n \<noteq> E"
  shows "xinv n y x w'"
proof -
  have len: "length (nodes w') = length (nodes w)" using g by (simp add: guar_def)
  have sn: "spc w' n = spc w n" using g n by (simp add: guar_def)
  note seen = guar_seen [OF g] and sc = guar_seen_ctl [OF g]
  show ?thesis
  proof (cases y)
    case (W_Cas j c r th)
    then have s: "seen w n j c" using i by simp
    have "handover w' (spc w n) = handover w (spc w n)" using g E [OF W_Cas] by (simp add: guar_def)
    then show ?thesis using i W_Cas seen [OF s] sc [OF s] sn guar_cell [OF g] by simp
  next
    case (W_Addr j c)
    then have s: "seen w n j c" and a: "cell w (w_addr x) \<or> adr w j \<noteq> w_addr x" using i by simp_all
    have "j < length (nodes w)" using s by (simp add: seen_def)
    then show ?thesis using W_Addr seen [OF s] guar_adr [OF g _ a] by simp
  next
    case (W_Again j c)
    then have s: "seen w n j c" using i by simp
    show ?thesis using i W_Again seen [OF s] sc [OF s] by auto
  next
    case (W_Their j c r)
    then have s: "seen w n j c" using i by simp
    show ?thesis using i W_Their seen [OF s] sc [OF s] guar_cell [OF g] by auto
  next
    case (W_Hand j c r th)
    then have s: "seen w n j c" using i by simp
    show ?thesis using i W_Hand seen [OF s] sc [OF s] guar_cell [OF g] by auto
  qed (use i len seen in auto)
qed

lemma guar_rinv:
  assumes g: "guar t E w w'" and i: "rinv n r w" and n: "n < length (nodes w)" "n \<noteq> t"
    and E: "\<And>p e. r = F_Open p e \<Longrightarrow> e \<noteq> E"
  shows "rinv n r w'"
proof -
  have "handover w' e = handover w e" if "r = F_Open p e" for p e using g E [OF that] by (simp add: guar_def)
  moreover have "adr w' n = adr w n" "gnr w' n = gnr w n"
    "\<And>i. i < DEBT_SLOT_CNT \<Longrightarrow> fast (nodes w ! n) ! i = debt_none \<Longrightarrow> fast (nodes w' ! n) ! i = debt_none"
    using g n by (simp_all add: guar_def)
  ultimately show ?thesis
    using i guar_cell [OF g] guar_hok [OF g] by (cases r) (auto simp: note_ok_def)
qed

lemma guar_dinv: "guar t E w w' \<Longrightarrow> dinv n d w \<Longrightarrow> dinv n d w'"
proof (cases d)
  case (ToHelp x j c)
  assume g: "guar t E w w'" and i: "dinv n d w"
  then show ?thesis
    using ToHelp guar_seen [OF g] guar_wok [OF g] guar_cell [OF g] by (auto simp: guar_def)
qed (auto intro: guar_cell guar_hok)

lemma guar_ginv: "guar t E w w' \<Longrightarrow> ginv n g w \<Longrightarrow> ginv n g w'"
  by (cases g) (auto intro: guar_hok)

lemma guar_ctl_inv:
  assumes g: "guar t E w w'" and i: "ctl_inv n x w" and n: "n < length (nodes w)" "n \<noteq> t"
    and E: "is_replacement (ctl w n) \<Longrightarrow> envelope (ctl w n) \<noteq> E"
  shows "ctl_inv n x w'"
proof -
  have eq: "gnr w' n = gnr w n" "adr w' n = adr w n" using g n by (simp_all add: guar_def)
  have ho: "is_replacement (ctl w n) \<Longrightarrow> handover w' (envelope (ctl w n)) = handover w (envelope (ctl w n))"
    using g E by (simp add: guar_def)
  consider "ctl w' n = ctl w n" | "ctl w n AND TAG_MASK = GEN_TAG" "is_replacement (ctl w' n)"
      "handover w' (envelope (ctl w' n)) \<noteq> debt_none"
    using g n by (auto simp: guar_def)
  then show ?thesis
  proof cases
    case 1
    then show ?thesis using i eq ho by (auto simp: ctl_inv_def split: option.splits)
  next
    case 2
    then have "ctl w n \<noteq> IDLE" by (auto simp: tag_defs)
    then show ?thesis using i eq 2 by (auto simp: ctl_inv_def split: option.splits)
  qed
qed

lemma guar_knows:
  assumes g: "guar t E w w'" and i: "knows n x w" and n: "n < length (nodes w)" "n \<noteq> t"
    and E: "purse n x w \<noteq> E"
  shows "knows n x w'"
proof -
  have "ctl_inv n x w'"
    by (rule guar_ctl_inv [OF g _ n]) (use i E in \<open>auto simp: knows_def purse_def\<close>)
  moreover have "pc_inv n x w'"
  proof (cases x)
    case (Read r k)
    have "e \<noteq> E" if "r = F_Open p e" for p e
      using i E that Read by (auto simp: knows_def ctl_inv_def purse_def tag_defs is_replacement_def)
    then show ?thesis
      using Read i guar_rinv [OF g _ n, of r] guar_kinv [OF g, of n k] by (auto simp: knows_def)
  next
    case (Give y d)
    then show ?thesis using i guar_ginv [OF g] guar_dinv [OF g] by (auto simp: knows_def)
  next
    case (Write y x')
    have "spc w n \<noteq> E" if "y = W_Cas j c r th" for j c r th
      using i E that Write by (auto simp: knows_def ctl_inv_def purse_def tag_defs is_replacement_def)
    then show ?thesis
      using Write i guar_xinv [OF g _ n, of y x'] guar_wok [OF g] by (auto simp: knows_def)
  qed (use i guar_cell [OF g] guar_hok [OF g] in \<open>auto simp: knows_def\<close>)
  ultimately show ?thesis by (simp add: knows_def)
qed

section \<open>A step and the parts of the invariant\<close>

text \<open>The state after the thread \<open>t\<close> went on to \<open>y\<close>, with the memory \<open>w'\<close> and the handles \<open>b'\<close>.\<close>

definition moved :: "tid \<Rightarrow> pc \<Rightarrow> 'v world \<Rightarrow> hnd list \<Rightarrow> 'v cst \<Rightarrow> 'v cst" where
  "moved t y w' b' S = S\<lparr>mem := w', pcs := (pcs S)(t := y), bag := b'\<rparr>"

lemma moved_simps [simp]:
  "mem (moved t y w' b' S) = w'" "bag (moved t y w' b' S) = b'"
  "pcs (moved t y w' b' S) = (pcs S)(t := y)"
  by (simp_all add: moved_def)

text \<open>What a thread at \<open>x\<close> and the handles \<open>b\<close> hold together.\<close>

abbreviation hold :: "pc \<Rightarrow> hnd list \<Rightarrow> usize multiset" where
  "hold x b \<equiv> own x + sum_list (map hown b)"

abbreviation book :: "tid \<Rightarrow> pc \<Rightarrow> hnd list \<Rightarrow> (slot_ref \<times> usize) multiset" where
  "book t x b \<equiv> ious t x + sum_list (map hnotes b)"

definition bconf :: "pc \<Rightarrow> hnd list \<Rightarrow> (slot_ref \<times> usize) set" where
  "bconf x b = conf x \<union> (\<Union>h\<in>set b. set_mset (hnotes h))"

lemma OWN_moved:
  assumes "t < threads S" and "length (nodes w') = threads S"
  shows "OWN (moved t y w' b' S) + hold (pcs S t) (bag S) = OWN S + hold y b'"
  using sum_upd [OF assms(1), of "\<lambda>_. own" "pcs S" y] assms(2) by (simp add: OWN_def ac_simps)

lemma IOUS_moved:
  assumes "t < threads S" and "length (nodes w') = threads S"
  shows "IOUS (moved t y w' b' S) + book t (pcs S t) (bag S) = IOUS S + book t y b'"
  using sum_upd [OF assms(1), of ious "pcs S" y] assms(2) by (simp add: IOUS_def ac_simps)

lemma MAIL_moved:
  assumes "t < threads S" and "length (nodes w') = threads S"
    and "\<And>n. n < threads S \<Longrightarrow> n \<noteq> t \<Longrightarrow> mail n (pcs S n) w' p = mail n (pcs S n) (mem S) p"
  shows "MAIL (moved t y w' b' S) p + mail t (pcs S t) (mem S) p = MAIL S p + mail t y w' p"
proof -
  have eq: "(\<Sum>n<threads S. mail n (((pcs S)(t := y)) n) w' p)
      = (\<Sum>n<threads S. ((\<lambda>n. mail n (pcs S n) (mem S) p)(t := mail t y w' p)) n)"
    by (rule sum.cong) (auto simp: assms(3))
  have "(\<Sum>n<threads S. ((\<lambda>n. mail n (pcs S n) (mem S) p)(t := mail t y w' p)) n) + mail t (pcs S t) (mem S) p
      = (\<Sum>n<threads S. mail n (pcs S n) (mem S) p) + mail t y w' p"
    using sum_upd [OF assms(1), of "\<lambda>_ z. z" "\<lambda>n. mail n (pcs S n) (mem S) p" "mail t y w' p"] by simp
  then show ?thesis using eq assms(2) by (simp add: MAIL_def)
qed

lemma on_add: "on p (A + B) = on p A + on p B"
  by simp

lemma balanced_moved:
  assumes b: "balanced S" and t: "t < threads S" and len: "length (nodes w') = threads S"
    and ml: "\<And>n p. n < threads S \<Longrightarrow> n \<noteq> t \<Longrightarrow> mail n (pcs S n) w' p = mail n (pcs S n) (mem S) p"
    and d: "\<And>p. p \<noteq> debt_none \<Longrightarrow>
      refs w' p + owed w' p + count (hold (pcs S t) (bag S)) p + on p (book t (pcs S t) (bag S))
          + stored (storage (mem S)) p + mail t (pcs S t) (mem S) p
        = refs (mem S) p + owed (mem S) p + count (hold y b') p + on p (book t y b')
          + stored (storage w') p + mail t y w' p"
  shows "balanced (moved t y w' b' S)"
  unfolding balanced_def
proof (intro allI impI)
  fix p :: usize assume p: "p \<noteq> debt_none"
  let ?S = "moved t y w' b' S"
  have o: "count (OWN ?S) p + count (hold (pcs S t) (bag S)) p = count (OWN S) p + count (hold y b') p"
    using arg_cong [OF OWN_moved [OF t len, of y b'], of "\<lambda>M. count M p"] by simp
  have n: "on p (IOUS ?S) + on p (book t (pcs S t) (bag S)) = on p (IOUS S) + on p (book t y b')"
    using arg_cong [OF IOUS_moved [OF t len, of y b'], of "on p"] by simp
  have m: "MAIL ?S p + mail t (pcs S t) (mem S) p = MAIL S p + mail t y w' p"
    by (rule MAIL_moved [OF t len ml])
  have "refs (mem S) p + owed (mem S) p = count (OWN S) p + on p (IOUS S) + stored (storage (mem S)) p + MAIL S p"
    using b p by (simp add: balanced_def)
  with o n m d [OF p]
  show "refs (mem ?S) p + owed (mem ?S) p
      = count (OWN ?S) p + on p (IOUS ?S) + stored (storage (mem ?S)) p + MAIL ?S p"
    unfolding moved_simps by linarith
qed

lemma count_moved:
  assumes "t < threads S" and "length (nodes w') = threads S"
  shows "count (IOUS (moved t y w' b' S)) u + count (book t (pcs S t) (bag S)) u
    = count (IOUS S) u + count (book t y b') u"
  using arg_cong [OF IOUS_moved [OF assms, of y b'], of "\<lambda>M. count M u"] by simp

lemma book_le: "t < threads S \<Longrightarrow> count (book t (pcs S t) (bag S)) u \<le> count (IOUS S) u"
  using sum.remove [of "{..<threads S}" t "\<lambda>n. ious n (pcs S n)"] by (simp add: IOUS_def)

lemma noted_moved:
  assumes n: "noted S" and t: "t < threads S" and len: "length (nodes w') = threads S"
    and d: "\<And>s v. slot_val w' s = v \<Longrightarrow> v \<noteq> debt_none \<Longrightarrow> (s, v) \<in># book t y b' \<or>
      slot_val (mem S) s = v \<and> count (book t (pcs S t) (bag S)) (s, v) \<le> count (book t y b') (s, v)"
  shows "noted (moved t y w' b' S)"
  unfolding noted_def moved_simps
proof (intro allI impI)
  fix s assume s: "slot_val w' s \<noteq> debt_none"
  let ?u = "(s, slot_val w' s)"
  note c = count_moved [OF t len, of y b' ?u] and le = book_le [OF t, of ?u]
  have "0 < count (IOUS (moved t y w' b' S)) ?u"
  proof (cases "?u \<in># book t y b'")
    case True
    then have "0 < count (book t y b') ?u" by simp
    with c le show ?thesis by linarith
  next
    case False
    with d [OF refl s] have "slot_val (mem S) s = slot_val w' s"
      and le2: "count (book t (pcs S t) (bag S)) ?u \<le> count (book t y b') ?u" by auto
    then have "0 < count (IOUS S) ?u" using n s by (simp add: noted_def) metis
    with c le2 show ?thesis by linarith
  qed
  then show "?u \<in># IOUS (moved t y w' b' S)" by simp
qed

lemma confs_ious: "u \<in> confs S \<Longrightarrow> u \<in># IOUS S"
proof -
  assume "u \<in> confs S"
  then consider t where "t < threads S" "u \<in> conf (pcs S t)" | h where "h \<in> set (bag S)" "u \<in># hnotes h"
    by (auto simp: confs_def)
  then show ?thesis
  proof cases
    case 1
    then have "u \<in># ious t (pcs S t)" using conf_ious by blast
    moreover have "ious t (pcs S t) \<subseteq># (\<Sum>t<threads S. ious t (pcs S t))"
      using 1 by (simp add: sum.remove [of _ t])
    ultimately show ?thesis by (auto simp: IOUS_def dest: mset_subset_eqD)
  next
    case 2
    then obtain i where "i < length (bag S)" "h = bag S ! i" by (metis in_set_conv_nth)
    then have "hnotes h \<subseteq># sum_list (map hnotes (bag S))"
      using sum_list_del_nth [of i "bag S" hnotes] by (metis mset_subset_eq_add_right)
    then show ?thesis using 2 by (auto simp: IOUS_def dest: mset_subset_eqD)
  qed
qed

lemma confs_moved:
  assumes "t < threads S" and "length (nodes w') = threads S"
  shows "confs (moved t y w' b' S) \<subseteq> bconf y b' \<union> (\<Union>n\<in>{..<threads S} - {t}. conf (pcs S n))"
  using assms by (auto simp: confs_def bconf_def split: if_splits)

lemma covered_moved:
  assumes u: "(s, p) \<in> confs S" and cov: "covered S s p" and t: "t < threads S" and len: "length (nodes w') = threads S"
    and d: "slot_val w' s = p \<Longrightarrow>
      slot_val (mem S) s = p \<and> count (book t (pcs S t) (bag S)) (s, p) \<le> count (book t y b') (s, p) \<and>
        (0 < stored (storage (mem S)) p \<longrightarrow> 0 < stored (storage w') p \<or> left y p s) \<and>
        (left (pcs S t) p s \<longrightarrow> left y p s)
      \<or> count (book t (pcs S t) (bag S)) (s, p) < count (book t y b') (s, p)"
  shows "covered (moved t y w' b' S) s p"
  unfolding covered_def moved_simps
proof
  assume s: "slot_val w' s = p"
  note c = count_moved [OF t len, of y b' "(s, p)"]
  from d [OF s] show "2 \<le> count (IOUS (moved t y w' b' S)) (s, p) \<or> 0 < stored (storage w') p \<or>
      (\<exists>n<length (nodes w'). left (((pcs S)(t := y)) n) p s)"
  proof (elim disjE conjE)
    assume sv: "slot_val (mem S) s = p" and le: "count (book t (pcs S t) (bag S)) (s, p) \<le> count (book t y b') (s, p)"
      and st: "0 < stored (storage (mem S)) p \<longrightarrow> 0 < stored (storage w') p \<or> left y p s"
      and lf: "left (pcs S t) p s \<longrightarrow> left y p s"
    from cov sv consider "2 \<le> count (IOUS S) (s, p)" | "0 < stored (storage (mem S)) p"
      | n where "n < threads S" "left (pcs S n) p s" by (auto simp: covered_def)
    then show ?thesis
    proof cases
      case 1
      with c le show ?thesis by linarith
    next
      case 2
      with st t len show ?thesis by auto
    next
      case 3
      with lf t len show ?thesis by (cases "n = t") auto
    qed
  next
    assume "count (book t (pcs S t) (bag S)) (s, p) < count (book t y b') (s, p)"
    moreover have "0 < count (IOUS S) (s, p)" using confs_ious [OF u] by simp
    ultimately show ?thesis using c by linarith
  qed
qed

lemma guarded_moved:
  assumes g: "guarded S" and t: "t < threads S" and len: "length (nodes w') = threads S"
    and new: "\<And>s p. (s, p) \<in> bconf y b' \<Longrightarrow> (s, p) \<in> bconf (pcs S t) (bag S) \<or> covered (moved t y w' b' S) s p"
    and d: "\<And>s p. (s, p) \<in> confs S \<Longrightarrow> slot_val w' s = p \<Longrightarrow>
      slot_val (mem S) s = p \<and> count (book t (pcs S t) (bag S)) (s, p) \<le> count (book t y b') (s, p) \<and>
        (0 < stored (storage (mem S)) p \<longrightarrow> 0 < stored (storage w') p \<or> left y p s) \<and>
        (left (pcs S t) p s \<longrightarrow> left y p s)
      \<or> count (book t (pcs S t) (bag S)) (s, p) < count (book t y b') (s, p)"
  shows "guarded (moved t y w' b' S)"
  unfolding guarded_def
proof (intro ballI, clarify)
  fix s p assume u: "(s, p) \<in> confs (moved t y w' b' S)"
  have old: "covered (moved t y w' b' S) s p" if "(s, p) \<in> confs S"
    by (rule covered_moved [OF that _ t len d [OF that]]) (use g that in \<open>auto simp: guarded_def\<close>)
  from u confs_moved [OF t len, of y b'] consider "(s, p) \<in> bconf y b'"
    | n where "n < threads S" "(s, p) \<in> conf (pcs S n)" by blast
  then show "covered (moved t y w' b' S) s p"
  proof cases
    case 1
    have "bconf (pcs S t) (bag S) \<subseteq> confs S" using t unfolding bconf_def confs_def by blast
    with new [OF 1] old show ?thesis by blast
  next
    case 2
    then have "(s, p) \<in> confs S" unfolding confs_def by blast
    then show ?thesis by (rule old)
  qed
qed

lemma candidates_kept:
  assumes cs: "candidates S" and len: "length (nodes w') = threads S" and t: "t < threads S"
    and ct: "\<And>n. n < threads S \<Longrightarrow> n \<noteq> t \<Longrightarrow> \<not> is_replacement (ctl w' n) \<Longrightarrow> ctl w' n = ctl (mem S) n"
    and own: "\<And>a p. candidate y = Some (a, p) \<Longrightarrow> \<not> is_replacement (ctl w' t) \<Longrightarrow>
      storage w' a = Some p \<or> candidate (pcs S t) = Some (a, p) \<and> ctl w' t = ctl (mem S) t \<and>
        storage w' = storage (mem S) \<and>
        (awaits (ctl w' t) (pcs S t) a p t \<longrightarrow> awaits (ctl w' t) y a p t)"
    and others: "\<And>n a p. n < threads S \<Longrightarrow> n \<noteq> t \<Longrightarrow> candidate (pcs S n) = Some (a, p) \<Longrightarrow>
      \<not> is_replacement (ctl w' n) \<Longrightarrow> ctl w' n = ctl (mem S) n \<Longrightarrow>
      (storage (mem S) a = Some p \<longrightarrow> storage w' a = Some p \<or> awaits (ctl w' n) y a p n) \<and>
      (awaits (ctl w' n) (pcs S t) a p n \<longrightarrow> awaits (ctl w' n) y a p n)"
  shows "candidates (moved t y w' b' S)"
  unfolding candidates_def moved_simps
proof (intro allI impI)
  fix n a p
  assume n: "n < length (nodes w')" and c: "candidate (((pcs S)(t := y)) n) = Some (a, p)"
    and nr: "\<not> is_replacement (ctl w' n)"
  show "fresh (moved t y w' b' S) n a p"
  proof (cases "n = t")
    case True
    then have "candidate y = Some (a, p)" using c by simp
    from own [OF this] nr True consider "storage w' a = Some p"
      | "candidate (pcs S t) = Some (a, p)" "ctl w' t = ctl (mem S) t" "storage w' = storage (mem S)"
        "awaits (ctl w' t) (pcs S t) a p t \<longrightarrow> awaits (ctl w' t) y a p t" by auto
    then show ?thesis
    proof cases
      case 1
      then show ?thesis by (simp add: fresh_def)
    next
      case 2
      then have "fresh S t a p" using cs nr True t by (auto simp: candidates_def)
      then show ?thesis using 2 True t len by (auto simp: fresh_def)
    qed
  next
    case False
    then have cn: "candidate (pcs S n) = Some (a, p)" using c by simp
    have nN: "n < threads S" using n len by simp
    have ctl: "ctl w' n = ctl (mem S) n" by (rule ct [OF nN False nr])
    have "fresh S n a p" using cs cn nN nr ctl by (auto simp: candidates_def)
    with others [OF nN False cn nr ctl] show ?thesis
      using ctl t len by (auto simp: fresh_def)
  qed
qed

lemma candidates_moved:
  assumes "candidates S" and g: "guar t E (mem S) w'" and t: "t < threads S"
    and "\<And>a p. candidate y = Some (a, p) \<Longrightarrow> \<not> is_replacement (ctl w' t) \<Longrightarrow>
      storage w' a = Some p \<or> candidate (pcs S t) = Some (a, p) \<and> ctl w' t = ctl (mem S) t \<and>
        storage w' = storage (mem S) \<and>
        (awaits (ctl w' t) (pcs S t) a p t \<longrightarrow> awaits (ctl w' t) y a p t)"
    and "\<And>n a p. n < threads S \<Longrightarrow> n \<noteq> t \<Longrightarrow> candidate (pcs S n) = Some (a, p) \<Longrightarrow>
      \<not> is_replacement (ctl w' n) \<Longrightarrow> ctl w' n = ctl (mem S) n \<Longrightarrow>
      (storage (mem S) a = Some p \<longrightarrow> storage w' a = Some p \<or> awaits (ctl w' n) y a p n) \<and>
      (awaits (ctl w' n) (pcs S t) a p n \<longrightarrow> awaits (ctl w' n) y a p n)"
  shows "candidates (moved t y w' b' S)"
  by (rule candidates_kept [OF assms(1) _ t _ assms(4,5)]) (use g in \<open>auto simp: guar_def\<close>)

lemma knows_moved:
  assumes k: "\<And>n. n < threads S \<Longrightarrow> knows n (pcs S n) (mem S)" and p: "purses S"
    and g: "guar t (purse t (pcs S t) (mem S)) (mem S) w'" and t: "t < threads S" and y: "knows t y w'"
    and n: "n < length (nodes w')"
  shows "knows n (pcs (moved t y w' b' S) n) w'"
proof (cases "n = t")
  case True
  then show ?thesis using y by simp
next
  case False
  have nN: "n < threads S" using n g by (simp add: guar_def)
  have "purse n (pcs S n) (mem S) \<noteq> purse t (pcs S t) (mem S)"
    using p nN t False by (auto simp: purses_def inj_on_def)
  then show ?thesis using guar_knows [OF g k [OF nN] nN False] False by simp
qed

lemma cinv_moved:
  assumes i: "cinv S" and t: "t < threads S" and g: "guar t (purse t (pcs S t) (mem S)) (mem S) w'"
    and k: "knows t y w'" and b: "\<And>h. h \<in> set b' \<Longrightarrow> hok w' h" and sh: "shape w'"
    and p: "purses (moved t y w' b' S)" and ba: "balanced (moved t y w' b' S)"
    and no: "noted (moved t y w' b' S)" and gu: "guarded (moved t y w' b' S)"
    and ca: "candidates (moved t y w' b' S)"
  shows "cinv (moved t y w' b' S)"
  using assms knows_moved [OF _ _ g t k] unfolding cinv_def by auto

end
