(* ===== verification/Atomic_Steps.thy ===== *)
theory Atomic_Steps
  imports Interference
begin

text \<open>
  Every step of the machine of single accesses keeps the invariant and does not fault.
\<close>

section \<open>What is alive\<close>

lemma owed_le_on:
  assumes "\<And>s. slot_val w s = p \<Longrightarrow> (s, p) \<in># M" and p: "p \<noteq> debt_none"
  shows "owed w p \<le> on p M"
proof -
  let ?A = "{s \<in> set (slot_list w). read_slot s w = p}"
  have fin: "finite ?A" by simp
  have inj: "inj_on (\<lambda>s. (s, p)) ?A" by (auto simp: inj_on_def)
  have "owed w p = card ?A"
    using distinct_card [of "filter (\<lambda>s. read_slot s w = p) (slot_list w)"] distinct_slot_list [of w]
    by (simp add: owed_slots)
  also have "\<dots> = size (mset_set ((\<lambda>s. (s, p)) ` ?A))" using inj by (simp add: card_image)
  also have "\<dots> \<le> on p M"
  proof (rule size_mset_mono)
    have "(s, p) \<in># M" if "s \<in> ?A" for s
      using that assms(1) [of s] by (auto simp: slot_list_iff slot_val_def)
    then have "(\<lambda>s. (s, p)) ` ?A \<subseteq> set_mset (filter_mset (\<lambda>x. snd x = p) M)" by auto
    then have "mset_set ((\<lambda>s. (s, p)) ` ?A) \<subseteq># mset_set (set_mset (filter_mset (\<lambda>x. snd x = p) M))"
      by (rule subset_imp_msubset_mset_set) simp
    then show "mset_set ((\<lambda>s. (s, p)) ` ?A) \<subseteq># filter_mset (\<lambda>x. snd x = p) M"
      by (rule subset_mset.order_trans) (rule mset_set_set_mset_msubset)
  qed
  finally show ?thesis .
qed

lemma cinvD:
  assumes "cinv S"
  shows "shape (mem S)" "\<And>t. t < threads S \<Longrightarrow> knows t (pcs S t) (mem S)" "\<And>h. h \<in> set (bag S) \<Longrightarrow> hok (mem S) h"
    "purses S" "balanced S" "noted S" "guarded S" "candidates S"
  using assms by (auto simp: cinv_def)

lemma owed_le_ious:
  assumes "noted S" and "p \<noteq> debt_none"
  shows "owed (mem S) p \<le> on p (IOUS S)"
  using owed_le_on [of "mem S" p "IOUS S"] assms by (auto simp: noted_def)

text \<open>A note that is spare: its pointer is not in the slot, or the slot has another note for it.\<close>

lemma owed_less_ious:
  assumes n: "noted S" and p: "p \<noteq> debt_none" and u: "(s, p) \<in># IOUS S"
    and sp: "slot_val (mem S) s \<noteq> p \<or> 2 \<le> count (IOUS S) (s, p)"
  shows "owed (mem S) p < on p (IOUS S)"
proof -
  let ?M = "IOUS S - {#(s, p)#}"
  have "owed (mem S) p \<le> on p ?M"
  proof (rule owed_le_on [OF _ p])
    fix s' assume s': "slot_val (mem S) s' = p"
    then have "(s', p) \<in># IOUS S" using n p by (auto simp: noted_def)
    with sp s' have "0 < count ?M (s', p)" by (cases "s' = s") auto
    then show "(s', p) \<in># ?M" by (simp only: count_greater_zero_iff)
  qed
  also have "\<dots> < on p (add_mset (s, p) ?M)" by simp
  also have "add_mset (s, p) ?M = IOUS S" using u by simp
  finally show ?thesis .
qed

lemma own_OWN: "t < threads S \<Longrightarrow> p \<in># own (pcs S t) \<Longrightarrow> p \<in># OWN S"
  using sum.remove [of "{..<threads S}" t "\<lambda>n. own (pcs S n)"] by (simp add: OWN_def)

lemma bag_OWN: "h \<in> set (bag S) \<Longrightarrow> p \<in># hown h \<Longrightarrow> p \<in># OWN S"
proof -
  assume "h \<in> set (bag S)" and p: "p \<in># hown h"
  then obtain i where "i < length (bag S)" "h = bag S ! i" by (metis in_set_conv_nth)
  with p have "p \<in># sum_list (map hown (bag S))"
    using sum_list_del_nth [of i "bag S" hown] by (metis union_iff)
  then show ?thesis by (simp add: OWN_def)
qed

lemma alive_counted:
  assumes i: "cinv S" and p: "p \<noteq> debt_none" and "p \<in># OWN S \<or> 0 < stored (storage (mem S)) p"
  shows "0 < refs (mem S) p"
proof -
  have "refs (mem S) p + owed (mem S) p = count (OWN S) p + on p (IOUS S) + stored (storage (mem S)) p + MAIL S p"
    using cinvD(5) [OF i] p by (simp add: balanced_def)
  moreover have "owed (mem S) p \<le> on p (IOUS S)" by (rule owed_le_ious [OF cinvD(6) [OF i] p])
  moreover have "0 < count (OWN S) p \<or> 0 < stored (storage (mem S)) p" using assms(3) by auto
  ultimately show ?thesis by linarith
qed

lemma alive_own:
  assumes "cinv S" and "p \<noteq> debt_none" and "t < threads S" and "p \<in># own (pcs S t)"
  shows "0 < refs (mem S) p"
  using alive_counted [OF assms(1,2)] own_OWN [OF assms(3,4)] by blast

lemma alive_confirmed:
  assumes i: "cinv S" and p: "p \<noteq> debt_none" and u: "(s, p) \<in> confs S"
  shows "0 < refs (mem S) p"
proof -
  have cov: "covered S s p" using cinvD(7) [OF i] u by (auto simp: guarded_def)
  have bal: "refs (mem S) p + owed (mem S) p = count (OWN S) p + on p (IOUS S) + stored (storage (mem S)) p + MAIL S p"
    using cinvD(5) [OF i] p by (simp add: balanced_def)
  consider "slot_val (mem S) s \<noteq> p \<or> 2 \<le> count (IOUS S) (s, p)" | "0 < stored (storage (mem S)) p"
    | t where "t < threads S" "left (pcs S t) p s" using cov by (auto simp: covered_def)
  then show ?thesis
  proof cases
    case 1
    with owed_less_ious [OF cinvD(6) [OF i] p confs_ious [OF u]] bal show ?thesis by linarith
  next
    case 2
    then show ?thesis using alive_counted [OF i p] by blast
  next
    case 3
    then show ?thesis using alive_own [OF i p] left_owns by blast
  qed
qed

lemma alive_handle:
  assumes i: "cinv S" and h: "h \<in> set (bag S)"
  shows "0 < refs (mem S) (h_ptr h)"
proof -
  have ok: "h_ptr h \<noteq> debt_none" using cinvD(3) [OF i h] by (simp add: hok_def)
  show ?thesis
  proof (cases "h_debt h")
    case None
    then show ?thesis using alive_counted [OF i ok] bag_OWN [OF h, of "h_ptr h"] by (simp add: hown_def)
  next
    case (Some s)
    then have "(s, h_ptr h) \<in># hnotes h" by (simp add: hnotes_def)
    then have "(s, h_ptr h) \<in> confs S" using h unfolding confs_def by blast
    then show ?thesis by (rule alive_confirmed [OF i ok])
  qed
qed

section \<open>Mild steps\<close>

text \<open>A step that changes no word of the helping slots but the slot itself.\<close>

definition mild :: "'v world \<Rightarrow> 'v world \<Rightarrow> bool" where
  "mild w w' \<longleftrightarrow> length (nodes w') = length (nodes w) \<and> handover w' = handover w \<and>
     (\<forall>n. ctl w' n = ctl w n \<and> adr w' n = adr w n \<and> spc w' n = spc w n \<and> gnr w' n = gnr w n \<and>
        length (fast (nodes w' ! n)) = length (fast (nodes w ! n)))"

lemma mild_purse: "mild w w' \<Longrightarrow> purse n x w' = purse n x w"
  by (simp add: mild_def purse_def split: pc.splits rpc.splits wpc.splits)

lemma mild_mail: "mild w w' \<Longrightarrow> mail n x w' = mail n x w"
  by (simp add: mild_def mail_def fun_eq_iff split: pc.splits rpc.splits)

lemma mild_ctl_inv: "mild w w' \<Longrightarrow> transaction y = transaction x \<Longrightarrow> ctl_inv t x w \<Longrightarrow> ctl_inv t y w'"
  by (simp add: mild_def ctl_inv_def split: option.splits)

lemma mild_guar:
  assumes c: "mild w w'" and cell: "\<And>a. cell w a \<Longrightarrow> cell w' a" and sh: "shape w"
    and sl: "\<And>s v. slot_val w' s = v \<Longrightarrow> v \<noteq> debt_none \<Longrightarrow> slot_val w s = v \<or> snode s = t"
  shows "guar t E w w'"
proof -
  have len: "length (nodes w') = length (nodes w)" and fl: "\<And>n. length (fast (nodes w' ! n)) = length (fast (nodes w ! n))"
    using c by (simp_all add: mild_def)
  have "fast (nodes w' ! n) ! i = debt_none"
    if n: "n < length (nodes w)" "n \<noteq> t" and f: "fast (nodes w ! n) ! i = debt_none" and i: "i < DEBT_SLOT_CNT" for n i
  proof -
    have ok: "slot_ok w (FastSlot n i)" "slot_ok w' (FastSlot n i)"
      using n i sh len fl by (simp_all add: slot_ok_def shape_def)
    show ?thesis using sl [of "FastSlot n i" "fast (nodes w' ! n) ! i"] n f ok by (auto simp: slot_val_def)
  qed
  then show ?thesis using c cell by (simp add: guar_def mild_def)
qed

lemma mild_shape:
  "mild w w' \<Longrightarrow> shape w \<Longrightarrow> finite (dom (storage w')) \<Longrightarrow> \<forall>a. storage w' a \<noteq> Some debt_none \<Longrightarrow> shape w'"
  by (simp add: mild_def shape_def)

lemma mild_purses:
  assumes "purses S" and c: "mild (mem S) w'" and p: "purse t y (mem S) = purse t (pcs S t) (mem S)"
  shows "purses (moved t y w' b' S)"
proof -
  have "purse n (((pcs S)(t := y)) n) w' = purse n (pcs S n) (mem S)" for n
    using mild_purse [OF c] p by simp
  moreover have "length (nodes w') = threads S" using c by (simp add: mild_def)
  ultimately show ?thesis using assms(1) by (simp add: purses_def)
qed

lemma hok_not_none: "hok w h \<Longrightarrow> (s, p) \<in># hnotes h \<Longrightarrow> p \<noteq> debt_none"
  by (auto simp: hok_def hnotes_def split: option.splits)

lemma confs_not_none:
  assumes i: "cinv S" and u: "(s, p) \<in> confs S"
  shows "p \<noteq> debt_none"
proof -
  from u consider t where "t < threads S" "(s, p) \<in> conf (pcs S t)" | h where "h \<in> set (bag S)" "(s, p) \<in># hnotes h"
    unfolding confs_def by blast
  then show ?thesis
  proof cases
    case 1
    have k: "pc_inv t (pcs S t) (mem S)" using cinvD(2) [OF i 1(1)] by (simp add: knows_def)
    have pw: "(s, p) \<in># pnotes q \<Longrightarrow> pok (mem S) q \<Longrightarrow> p \<noteq> debt_none" for q
      by (cases q) (auto dest: hok_not_none)
    show ?thesis
    proof (cases "pcs S t")
      case (Read r x)
      then show ?thesis using 1 k pw
        by (cases r; cases x) (auto simp: note_ok_def wok_def)
    next
      case (Give g d)
      then show ?thesis using 1 k pw by (cases d) (auto simp: wok_def dest: hok_not_none)
    next
      case (Write x w)
      then show ?thesis using 1 k pw by (auto simp: wok_def)
    qed (use 1 k in \<open>auto dest: hok_not_none\<close>)
  next
    case 2
    then show ?thesis using cinvD(3) [OF i] hok_not_none by blast
  qed
qed

lemma cinv_mild:
  assumes i: "cinv S" and t: "t < threads S" and c: "mild (mem S) w'"
    and cell: "\<And>a. cell (mem S) a \<Longrightarrow> cell w' a"
    and sto: "finite (dom (storage w'))" "\<forall>a. storage w' a \<noteq> Some debt_none"
    and sl: "\<And>s v. slot_val w' s = v \<Longrightarrow> v \<noteq> debt_none \<Longrightarrow>
      slot_val (mem S) s = v \<and> count (book t (pcs S t) (bag S)) (s, v) \<le> count (book t y b') (s, v)
      \<or> snode s = t \<and> count (book t (pcs S t) (bag S)) (s, v) < count (book t y b') (s, v)"
    and k: "pc_inv t y w'" and tr: "transaction y = transaction (pcs S t)" and b: "\<And>h. h \<in> set b' \<Longrightarrow> hok w' h"
    and pu: "purse t y (mem S) = purse t (pcs S t) (mem S)"
    and bal: "\<And>p. p \<noteq> debt_none \<Longrightarrow>
      refs w' p + owed w' p + count (hold (pcs S t) (bag S)) p + on p (book t (pcs S t) (bag S))
          + stored (storage (mem S)) p + mail t (pcs S t) (mem S) p
        = refs (mem S) p + owed (mem S) p + count (hold y b') p + on p (book t y b')
          + stored (storage w') p + mail t y (mem S) p"
    and new: "\<And>s p. (s, p) \<in> bconf y b' \<Longrightarrow> slot_val w' s = p \<Longrightarrow> (s, p) \<in> bconf (pcs S t) (bag S) \<or>
      0 < stored (storage w') p \<or> (\<exists>n<threads S. n \<noteq> t \<and> left (pcs S n) p s)"
    and lf: "\<And>s p. slot_val w' s = p \<Longrightarrow> p \<noteq> debt_none \<Longrightarrow>
      (left (pcs S t) p s \<longrightarrow> left y p s) \<and> (0 < stored (storage (mem S)) p \<longrightarrow> 0 < stored (storage w') p \<or> left y p s)"
    and cd: "\<And>a p. candidate y = Some (a, p) \<Longrightarrow> \<not> is_replacement (ctl (mem S) t) \<Longrightarrow>
      storage w' a = Some p \<or> candidate (pcs S t) = Some (a, p) \<and> storage w' = storage (mem S) \<and>
        (awaits (ctl (mem S) t) (pcs S t) a p t \<longrightarrow> awaits (ctl (mem S) t) y a p t)"
    and aw: "\<And>n a p. n < threads S \<Longrightarrow> n \<noteq> t \<Longrightarrow> candidate (pcs S n) = Some (a, p) \<Longrightarrow>
      \<not> is_replacement (ctl (mem S) n) \<Longrightarrow>
      (storage (mem S) a = Some p \<longrightarrow> storage w' a = Some p \<or> awaits (ctl (mem S) n) y a p n) \<and>
      (awaits (ctl (mem S) n) (pcs S t) a p n \<longrightarrow> awaits (ctl (mem S) n) y a p n)"
  shows "cinv (moved t y w' b' S)"
proof -
  note I = cinvD [OF i]
  have len: "length (nodes w') = threads S" and ctl: "\<And>n. ctl w' n = ctl (mem S) n" using c by (simp_all add: mild_def)
  have g: "guar t E (mem S) w'" for E by (rule mild_guar [OF c cell I(1)]) (use sl in blast)+
  have kn: "knows t y w'" using k mild_ctl_inv [OF c tr] I(2) [OF t] by (simp add: knows_def)
  show ?thesis
  proof (rule cinv_moved [OF i t g kn b])
    show "shape w'" by (rule mild_shape [OF c I(1) sto])
    show "purses (moved t y w' b' S)" by (rule mild_purses [OF I(4) c pu])
    show "balanced (moved t y w' b' S)"
      by (rule balanced_moved [OF I(5) t len]) (simp_all only: mild_mail [OF c], rule bal)
    show "noted (moved t y w' b' S)"
    proof (rule noted_moved [OF I(6) t len])
      fix s v assume "slot_val w' s = v" "v \<noteq> debt_none"
      from sl [OF this] show "(s, v) \<in># book t y b' \<or>
          slot_val (mem S) s = v \<and> count (book t (pcs S t) (bag S)) (s, v) \<le> count (book t y b') (s, v)"
        by (metis count_greater_zero_iff gr_zeroI less_nat_zero_code)
    qed
    show "guarded (moved t y w' b' S)"
    proof (rule guarded_moved [OF I(7) t len])
      fix s p assume u: "(s, p) \<in> bconf y b'"
      show "(s, p) \<in> bconf (pcs S t) (bag S) \<or> covered (moved t y w' b' S) s p"
        using new [OF u] len unfolding covered_def moved_simps by (auto simp: fun_upd_def)
    next
      fix s p assume u: "(s, p) \<in> confs S" and s: "slot_val w' s = p"
      have "p \<noteq> debt_none" by (rule confs_not_none [OF i u])
      with sl [OF s] lf [OF s] show "slot_val (mem S) s = p \<and>
          count (book t (pcs S t) (bag S)) (s, p) \<le> count (book t y b') (s, p) \<and>
          (0 < stored (storage (mem S)) p \<longrightarrow> 0 < stored (storage w') p \<or> left y p s) \<and>
          (left (pcs S t) p s \<longrightarrow> left y p s)
        \<or> count (book t (pcs S t) (bag S)) (s, p) < count (book t y b') (s, p)" by blast
    qed
    show "candidates (moved t y w' b' S)"
      by (rule candidates_moved [OF I(8) g t]) (use cd aw in \<open>simp_all only: ctl, blast+\<close>)
  qed
qed

section \<open>Steps by what they change\<close>

text \<open>
  What a step that leaves the storages alone has to show about the next program counter: it is in its place, no transaction or envelope
  changes hands, a confirmed note was one before or is of a stored pointer, the writer does not skip
  a slot that holds its pointer and does not pass a reader that has a candidate from its storage.
\<close>

definition proceeds :: "'v cst \<Rightarrow> tid \<Rightarrow> pc \<Rightarrow> 'v world \<Rightarrow> hnd list \<Rightarrow> bool" where
  "proceeds S t y w' b' \<longleftrightarrow>
     pc_inv t y w' \<and> (\<forall>h\<in>set b'. hok (mem S) h) \<and> transaction y = transaction (pcs S t) \<and>
     purse t y (mem S) = purse t (pcs S t) (mem S) \<and>
     (\<forall>s p. (s, p) \<in> bconf y b' \<longrightarrow> slot_val w' s = p \<longrightarrow> (s, p) \<in> bconf (pcs S t) (bag S) \<or>
        0 < stored (storage (mem S)) p \<or> (\<exists>n<threads S. n \<noteq> t \<and> left (pcs S n) p s)) \<and>
     (\<forall>s p. slot_val w' s = p \<longrightarrow> p \<noteq> debt_none \<longrightarrow> left (pcs S t) p s \<longrightarrow> left y p s) \<and>
     (\<forall>a p. candidate y = Some (a, p) \<longrightarrow> storage (mem S) a = Some p \<or> candidate (pcs S t) = Some (a, p) \<and>
        (\<forall>c. awaits c (pcs S t) a p t \<longrightarrow> awaits c y a p t)) \<and>
     (\<forall>n<threads S. n \<noteq> t \<longrightarrow> (\<forall>a p. candidate (pcs S n) = Some (a, p) \<longrightarrow> \<not> is_replacement (ctl (mem S) n) \<longrightarrow>
        awaits (ctl (mem S) n) (pcs S t) a p n \<longrightarrow> awaits (ctl (mem S) n) y a p n))"

definition still :: "'v world \<Rightarrow> 'v world \<Rightarrow> bool" where
  "still w w' \<longleftrightarrow> mild w w' \<and> storage w' = storage w"

lemma still_hok: "still w w' \<Longrightarrow> hok w' h = hok w h"
  by (simp add: still_def mild_def hok_def)

lemma cinv_still:
  assumes i: "cinv S" and t: "t < threads S" and c: "still (mem S) w'" and p: "proceeds S t y w' b'"
    and sl: "\<And>s v. slot_val w' s = v \<Longrightarrow> v \<noteq> debt_none \<Longrightarrow>
      slot_val (mem S) s = v \<and> count (book t (pcs S t) (bag S)) (s, v) \<le> count (book t y b') (s, v)
      \<or> snode s = t \<and> count (book t (pcs S t) (bag S)) (s, v) < count (book t y b') (s, v)"
    and bal: "\<And>p. p \<noteq> debt_none \<Longrightarrow>
      refs w' p + owed w' p + count (hold (pcs S t) (bag S)) p + on p (book t (pcs S t) (bag S)) + mail t (pcs S t) (mem S) p
        = refs (mem S) p + owed (mem S) p + count (hold y b') p + on p (book t y b') + mail t y (mem S) p"
  shows "cinv (moved t y w' b' S)"
proof -
  have st: "storage w' = storage (mem S)" and mild: "mild (mem S) w'" using c by (simp_all add: still_def)
  have sh: "finite (dom (storage w'))" "\<forall>a. storage w' a \<noteq> Some debt_none"
    using cinvD(1) [OF i] st by (simp_all add: shape_def)
  note P = p [unfolded proceeds_def]
  show ?thesis
  proof (rule cinv_mild [OF i t mild _ sh sl])
    fix p :: usize assume "p \<noteq> debt_none"
    from bal [OF this] show "refs w' p + owed w' p + count (hold (pcs S t) (bag S)) p + on p (book t (pcs S t) (bag S))
          + stored (storage (mem S)) p + mail t (pcs S t) (mem S) p
        = refs (mem S) p + owed (mem S) p + count (hold y b') p + on p (book t y b')
          + stored (storage w') p + mail t y (mem S) p" unfolding st by linarith
  qed (use P in \<open>auto simp: st cell_def still_hok [OF c]\<close>)
qed

text \<open>Steps that leave the accounts alone, count a reference up or down, pay or take a slot.\<close>

lemma cinv_look:
  assumes "cinv S" "t < threads S" "still (mem S) w'" "proceeds S t y w' b'"
    and "heap w' = heap (mem S)" "slot_val w' = slot_val (mem S)" "\<And>p. owed w' p = owed (mem S) p"
    and "hold y b' = hold (pcs S t) (bag S)" "book t y b' = book t (pcs S t) (bag S)"
    and "\<And>p. mail t y (mem S) p = mail t (pcs S t) (mem S) p"
  shows "cinv (moved t y w' b' S)"
proof (rule cinv_still [OF assms(1-4)])
  fix s v assume "slot_val w' s = v"
  then show "slot_val (mem S) s = v \<and> count (book t (pcs S t) (bag S)) (s, v) \<le> count (book t y b') (s, v)
      \<or> snode s = t \<and> count (book t (pcs S t) (bag S)) (s, v) < count (book t y b') (s, v)"
    unfolding assms(6,9) by blast
qed (simp only: assms(5-10))

lemma still_heap: "still w (w\<lparr>heap := h\<rparr>)"
  by (simp add: still_def mild_def)

lemma owed_heap [simp]: "owed (w\<lparr>heap := h\<rparr>) p = owed w p"
  by (rule owed_cong) simp

lemma counted_arc [simp]: "counted KArc p"
  by (simp add: counted_def)

lemma live_arc: "live KArc h p \<longleftrightarrow> 0 < rc_count KArc h p"
  by (simp add: live_def)

lemma cinv_inc:
  assumes i: "cinv S" "t < threads S" and p: "proceeds S t y (mem S\<lparr>heap := inc_at KArc q (heap (mem S))\<rparr>) b'"
    and live: "0 < refs (mem S) q"
    and "hold y b' = add_mset q (hold (pcs S t) (bag S))" "book t y b' = book t (pcs S t) (bag S)"
    and "\<And>p. mail t y (mem S) p = mail t (pcs S t) (mem S) p"
  shows "cinv (moved t y (mem S\<lparr>heap := inc_at KArc q (heap (mem S))\<rparr>) b' S)"
  by (rule cinv_still [OF i still_heap p])
    (simp_all only: assms(5-7) slot_val_heap, blast, use live in \<open>simp add: rc_count_inc_at live_arc\<close>)

lemma cinv_dec:
  assumes i: "cinv S" "t < threads S" and p: "proceeds S t y (mem S\<lparr>heap := dec_at KArc q (heap (mem S))\<rparr>) b'"
    and live: "0 < refs (mem S) q"
    and "hold (pcs S t) (bag S) = add_mset q (hold y b')" "book t y b' = book t (pcs S t) (bag S)"
    and "\<And>p. mail t y (mem S) p = mail t (pcs S t) (mem S) p"
  shows "cinv (moved t y (mem S\<lparr>heap := dec_at KArc q (heap (mem S))\<rparr>) b' S)"
proof (rule cinv_still [OF i still_heap p])
  fix p
  have "refs (mem S\<lparr>heap := dec_at KArc q (heap (mem S))\<rparr>) p + (if p = q then 1 else 0) = refs (mem S) p"
    using rc_count_dec_at [of KArc "heap (mem S)" q p] live by (simp add: live_arc)
  then show "refs (mem S\<lparr>heap := dec_at KArc q (heap (mem S))\<rparr>) p + owed (mem S\<lparr>heap := dec_at KArc q (heap (mem S))\<rparr>) p
        + count (hold (pcs S t) (bag S)) p + on p (book t (pcs S t) (bag S)) + mail t (pcs S t) (mem S) p
      = refs (mem S) p + owed (mem S) p + count (hold y b') p + on p (book t y b') + mail t y (mem S) p"
    unfolding assms(5-7) by (auto split: if_splits)
qed (simp_all only: assms(6) slot_val_heap, blast)

lemma still_write_slot: "still w (write_slot s x w)"
  by (cases s) (auto simp: still_def mild_def upd_helping_def nth_update)

lemma owed_paid:
  assumes "slot_ok w s" and "read_slot s w = q" and "p \<noteq> debt_none"
  shows "owed (write_slot s debt_none w) p + (if q = p then 1 else 0) = owed w p"
  using owed_write_slot [OF assms(1), of debt_none p] assms(2,3) by (simp split: if_splits)

lemma cinv_paid:
  assumes i: "cinv S" "t < threads S" and p: "proceeds S t y (write_slot s debt_none (mem S)) b'"
    and s: "slot_ok (mem S) s" "read_slot s (mem S) = q"
    and bk: "book t (pcs S t) (bag S) = add_mset (s, q) (book t y b')" and "hold y b' = hold (pcs S t) (bag S)"
    and "\<And>p. mail t y (mem S) p = mail t (pcs S t) (mem S) p"
  shows "cinv (moved t y (write_slot s debt_none (mem S)) b' S)"
proof (rule cinv_still [OF i still_write_slot p])
  fix s' v assume "slot_val (write_slot s debt_none (mem S)) s' = v" "v \<noteq> debt_none"
  then show "slot_val (mem S) s' = v \<and> count (book t (pcs S t) (bag S)) (s', v) \<le> count (book t y b') (s', v)
      \<or> snode s' = t \<and> count (book t (pcs S t) (bag S)) (s', v) < count (book t y b') (s', v)"
    unfolding bk by (auto simp: slot_val_write [OF s(1)] split: if_splits)
next
  fix p :: usize assume "p \<noteq> debt_none"
  from owed_paid [OF s this] show "refs (write_slot s debt_none (mem S)) p + owed (write_slot s debt_none (mem S)) p
        + count (hold (pcs S t) (bag S)) p + on p (book t (pcs S t) (bag S)) + mail t (pcs S t) (mem S) p
      = refs (mem S) p + owed (mem S) p + count (hold y b') p + on p (book t y b') + mail t y (mem S) p"
    unfolding assms(6-8) by (auto split: if_splits)
qed

lemma cinv_unpaid:
  assumes i: "cinv S" "t < threads S" and p: "proceeds S t y (mem S) b'"
    and s: "slot_ok (mem S) s" "read_slot s (mem S) \<noteq> q"
    and bk: "book t (pcs S t) (bag S) = add_mset (s, q) (book t y b')" and "hold y b' = add_mset q (hold (pcs S t) (bag S))"
    and "\<And>p. mail t y (mem S) p = mail t (pcs S t) (mem S) p"
  shows "cinv (moved t y (mem S) b' S)"
proof (rule cinv_still [OF i _ p])
  show "still (mem S) (mem S)" by (simp add: still_def mild_def)
  fix s' v assume "slot_val (mem S) s' = v"
  then show "slot_val (mem S) s' = v \<and> count (book t (pcs S t) (bag S)) (s', v) \<le> count (book t y b') (s', v)
      \<or> snode s' = t \<and> count (book t (pcs S t) (bag S)) (s', v) < count (book t y b') (s', v)"
    unfolding bk using s by (auto simp: slot_val_def)
qed (simp only: assms(6-8), simp)

lemma cinv_pay:
  assumes i: "cinv S" "t < threads S" and p: "proceeds S t y (write_slot s debt_none (mem S)) b'"
    and s: "slot_ok (mem S) s" "read_slot s (mem S) = q"
    and bk: "book t y b' = book t (pcs S t) (bag S)" and "hold (pcs S t) (bag S) = add_mset q (hold y b')"
    and "\<And>p. mail t y (mem S) p = mail t (pcs S t) (mem S) p"
  shows "cinv (moved t y (write_slot s debt_none (mem S)) b' S)"
proof (rule cinv_still [OF i still_write_slot p])
  fix p :: usize assume "p \<noteq> debt_none"
  from owed_paid [OF s this] show "refs (write_slot s debt_none (mem S)) p + owed (write_slot s debt_none (mem S)) p
        + count (hold (pcs S t) (bag S)) p + on p (book t (pcs S t) (bag S)) + mail t (pcs S t) (mem S) p
      = refs (mem S) p + owed (mem S) p + count (hold y b') p + on p (book t y b') + mail t y (mem S) p"
    unfolding assms(6-8) by (auto split: if_splits)
qed (auto simp: bk slot_val_write [OF s(1)] split: if_splits)

lemma cinv_take:
  assumes i: "cinv S" "t < threads S" and p: "proceeds S t y (write_slot s q w') b'" and w': "still (mem S) w'"
      "heap w' = heap (mem S)" "nodes w' = nodes (mem S)"
    and s: "slot_ok (mem S) s" "read_slot s (mem S) = debt_none" "snode s = t"
    and bk: "book t y b' = add_mset (s, q) (book t (pcs S t) (bag S))" and "hold y b' = hold (pcs S t) (bag S)"
    and "\<And>p. mail t y (mem S) p = mail t (pcs S t) (mem S) p"
  shows "cinv (moved t y (write_slot s q w') b' S)"
proof -
  have rd: "read_slot s' w' = read_slot s' (mem S)" and so: "slot_ok w' s' = slot_ok (mem S) s'" for s'
    by (cases s'; simp add: w'(3) slot_ok_def)+
  have ok: "slot_ok w' s" and rs: "read_slot s w' = debt_none" using s rd so by simp_all
  have sv: "slot_val w' s' = slot_val (mem S) s'" for s' by (simp add: slot_val_def rd so)
  show ?thesis
  proof (rule cinv_still [OF i _ p])
    show "still (mem S) (write_slot s q w')"
      using w'(1) still_write_slot [of w' s q] by (simp add: still_def mild_def)
    fix s' v assume "slot_val (write_slot s q w') s' = v" "v \<noteq> debt_none"
    then show "slot_val (mem S) s' = v \<and> count (book t (pcs S t) (bag S)) (s', v) \<le> count (book t y b') (s', v)
        \<or> snode s' = t \<and> count (book t (pcs S t) (bag S)) (s', v) < count (book t y b') (s', v)"
      unfolding bk using s(3) by (auto simp: slot_val_write [OF ok] sv split: if_splits)
  next
    fix p :: usize assume p: "p \<noteq> debt_none"
    have "owed (write_slot s q w') p = owed (mem S) p + (if q = p then 1 else 0)"
      using owed_write_slot [OF ok, of q p] rs p owed_cong [OF w'(3), of p] by (simp split: if_splits)
    then show "refs (write_slot s q w') p + owed (write_slot s q w') p
          + count (hold (pcs S t) (bag S)) p + on p (book t (pcs S t) (bag S)) + mail t (pcs S t) (mem S) p
        = refs (mem S) p + owed (mem S) p + count (hold y b') p + on p (book t y b') + mail t y (mem S) p"
      unfolding bk assms(11,12) by (simp add: w'(2))
  qed
qed

end
