(* ===== verification/Atomic_Loads.thy ===== *)
theory Atomic_Loads
  imports Atomic_Steps
begin

text \<open>
  The steps of loads and of drops keep the invariant and do not fault.
\<close>

section \<open>What a thread knows and a step that leaves the helping words alone\<close>

lemma still_refl: "still w w"
  by (simp add: still_def mild_def)

lemma still_wok: "still w w' \<Longrightarrow> wok w' x = wok w x"
  by (cases "w_purpose x") (simp_all add: wok_def still_hok)

lemma still_seen: "still w w' \<Longrightarrow> seen w' t j c = seen w t j c"
  by (simp add: still_def mild_def seen_def published_def)

lemma still_cell: "still w w' \<Longrightarrow> cell w' a = cell w a"
  by (simp add: still_def cell_def)

lemma still_kinv: "still w w' \<Longrightarrow> kinv t k w' = kinv t k w"
  by (cases k) (simp_all add: still_wok still_seen still_cell, simp add: still_def mild_def)

lemma still_dinv: "still w w' \<Longrightarrow> dinv t d w' = dinv t d w"
  by (cases d) (simp_all add: still_wok still_seen still_hok still_cell, simp add: still_def mild_def)

lemma still_ginv: "still w w' \<Longrightarrow> ginv t g w' = ginv t g w"
  by (cases g) (simp_all add: still_hok)

lemma still_note_ok: "still w w' \<Longrightarrow> note_ok w' t s p = note_ok w t s p"
  by (simp add: note_ok_def still_hok)

lemmas still_simps = still_wok still_seen still_cell still_kinv still_dinv still_ginv still_note_ok still_hok

section \<open>A guard that was loaded\<close>

lemma loaded_own: "own (loaded_by h k) = hown h + kown k" "ious t (loaded_by h k) = hnotes h + knotes k"
  by (cases k; simp add: hown_def hnotes_def split: option.splits)+

lemma loaded_conf: "conf (loaded_by h k) \<subseteq> set_mset (hnotes h) \<union> set_mset (knotes k)"
  by (cases k) (auto simp: hnotes_def split: option.splits)

lemma loaded_walk:
  "left (loaded_by h k) p s = left (Read r k) p s" "awaits c (loaded_by h k) a p n = awaits c (Read r k) a p n"
  by (cases k; simp split: option.splits)+

lemma loaded_none [simp]: "transaction (loaded_by h k) = None" "candidate (loaded_by h k) = None"
  by (cases k; simp split: option.splits)+

text \<open>Program counters with no envelope of their own but the offered one.\<close>

fun plain :: "pc \<Rightarrow> bool" where
  "plain (Read (F_Open p e) k) = False"
| "plain (Read (F_Space p e r) k) = False"
| "plain (Write (W_Offer j th) y) = False"
| "plain _ = True"

lemma plain_purse:
  "plain x \<Longrightarrow> purse t x w = (if is_replacement (ctl w t) then envelope (ctl w t) else spc w t)"
  by (cases x rule: plain.cases) (simp_all add: purse_def)

lemma plain_mail:
  "plain x \<Longrightarrow> mail t x w p = (if is_replacement (ctl w t) \<and> handover w (envelope (ctl w t)) = p then 1 else 0)"
  by (cases x rule: plain.cases) (simp_all add: mail_def)

lemma plain_loaded [simp]: "plain (loaded_by h k)"
  by (cases k) (auto split: option.splits)

lemma loaded_inv: "hok w h \<Longrightarrow> kinv t k w \<Longrightarrow> pc_inv t (loaded_by h k) w"
  by (cases k; cases h) (auto simp: note_ok_def hok_def split: option.splits)

section \<open>How a load proceeds\<close>

lemma pc_invD: "cinv S \<Longrightarrow> t < threads S \<Longrightarrow> pc_inv t (pcs S t) (mem S)"
  by (drule (1) cinvD(2)) (simp add: knows_def)

lemma ctl_invD: "cinv S \<Longrightarrow> t < threads S \<Longrightarrow> ctl_inv t (pcs S t) (mem S)"
  by (drule (1) cinvD(2)) (simp add: knows_def)

lemma proceeds_read:
  assumes i: "cinv S" and t: "t < threads S" and x: "pcs S t = Read r k" and c: "still (mem S) w'"
    and inv: "rinv t r' w'" and tr: "transaction (Read r' k) = transaction (Read r k)"
    and pl: "plain (Read r k)" "plain (Read r' k)" and cf: "rconf r' \<subseteq> rconf r"
    and ca: "\<And>a p. candidate (Read r' k) = Some (a, p) \<Longrightarrow>
      candidate (Read r k) = Some (a, p) \<or> storage (mem S) a = Some p"
  shows "proceeds S t (Read r' k) w' (bag S)"
proof -
  have lf: "left (Read r' k) p s = left (Read r k) p s" for p s by (cases k) simp_all
  have aw: "awaits c (Read r' k) a p n = awaits c (Read r k) a p n" for c a p n by (cases k) simp_all
  have "kinv t k (mem S)" using pc_invD [OF i t] x by simp
  moreover have "bconf (Read r' k) (bag S) \<subseteq> bconf (Read r k) (bag S)" using cf by (auto simp: bconf_def)
  ultimately show ?thesis
    unfolding proceeds_def x
    using inv tr ca cinvD(3) [OF i]
    by (auto simp: still_kinv [OF c] lf aw plain_purse pl simp del: left.simps awaits.simps)
qed

lemma proceeds_loaded:
  assumes i: "cinv S" and t: "t < threads S" and x: "pcs S t = Read r k" and c: "still (mem S) w'"
    and h: "hok w' h" and tr: "transaction (Read r k) = None" and pl: "plain (Read r k)"
    and cf: "\<And>s. h_debt h = Some s \<Longrightarrow> 0 < stored (storage (mem S)) (h_ptr h)"
  shows "proceeds S t (loaded_by h k) w' (bag S)"
proof -
  have k: "kinv t k w'" using pc_invD [OF i t] x by (simp add: still_kinv [OF c])
  have "(s, p) \<in> bconf (Read r k) (bag S) \<or> 0 < stored (storage (mem S)) p"
    if "(s, p) \<in> bconf (loaded_by h k) (bag S)" for s p
  proof -
    from that loaded_conf [of h k] consider "(s, p) \<in># hnotes h" | "(s, p) \<in># knotes k" | "(s, p) \<in> bconf Idle (bag S)"
      by (auto simp: bconf_def)
    then show ?thesis using cf by cases (auto simp: bconf_def hnotes_def split: option.splits)
  qed
  then show ?thesis
    unfolding proceeds_def x
    using loaded_inv [OF h k] tr cinvD(3) [OF i]
    by (auto simp: loaded_walk [where r = r] plain_purse pl simp del: left.simps awaits.simps)
qed

section \<open>The fast path\<close>

abbreviation resume :: "rctx \<Rightarrow> rpc + hnd \<Rightarrow> pc" where
  "resume k x \<equiv> (case x of Inl r' \<Rightarrow> Read r' k | Inr h \<Rightarrow> loaded_by h k)"

abbreviation keeps :: "'v cst \<Rightarrow> tid \<Rightarrow> pc \<Rightarrow> 'v world \<Rightarrow> bool" where
  "keeps S t y w' \<equiv> cinv (moved t y w' (bag S) S)"

text \<open>A step of a load that only looks.\<close>

lemma read_look:
  assumes i: "cinv S" and t: "t < threads S" and x: "pcs S t = Read r k"
    and inv: "rinv t r' (mem S)" and tr: "transaction (Read r' k) = transaction (Read r k)"
    and pl: "plain (Read r k)" "plain (Read r' k)" and cf: "rconf r' \<subseteq> rconf r"
    and ca: "\<And>a p. candidate (Read r' k) = Some (a, p) \<Longrightarrow>
      candidate (Read r k) = Some (a, p) \<or> storage (mem S) a = Some p"
    and acc: "rown r' = rown r" "rnotes t r' = rnotes t r"
  shows "keeps S t (Read r' k) (mem S)"
  by (rule cinv_look [OF i t still_refl proceeds_read [OF i t x still_refl inv tr pl cf ca]])
    (simp_all add: x acc plain_mail pl)

lemma stored_not_none: "cinv S \<Longrightarrow> storage (mem S) a = Some p \<Longrightarrow> p \<noteq> debt_none \<and> 0 < stored (storage (mem S)) p"
  using cinvD(1) [of S] by (auto simp: shape_def intro: stored_pos)

lemma L_Ptr_keeps:
  assumes i: "cinv S" and t: "t < threads S" and x: "pcs S t = Read (L_Ptr a) k"
  shows "wp (read_step t (L_Ptr a)) (\<lambda>x w'. keeps S t (resume k x) w') (mem S)"
proof -
  obtain p where p: "storage (mem S) a = Some p" using pc_invD [OF i t] x by (auto simp: cell_def)
  have "keeps S t (Read (L_Slot a p 0) k) (mem S)"
    by (rule read_look [OF i t x]) (use p stored_not_none [OF i p] in \<open>simp_all add: cell_def\<close>)
  then show ?thesis using p by (simp add: wp_ptr_load)
qed

lemma L_Slot_keeps:
  assumes i: "cinv S" and t: "t < threads S" and x: "pcs S t = Read (L_Slot a p n) k"
  shows "wp (read_step t (L_Slot a p n)) (\<lambda>x w'. keeps S t (resume k x) w') (mem S)"
proof -
  have inv: "cell (mem S) a" "p \<noteq> debt_none" using pc_invD [OF i t] x by simp_all
  have len: "length (fast (nodes (mem S) ! t)) = DEBT_SLOT_CNT" using cinvD(1) [OF i] t by (simp add: shape_def)
  have pos: "0 < DEBT_SLOT_CNT" by (simp add: DEBT_SLOT_CNT_def)
  have "keeps S t (Read (L_Take a p j) k) (mem S)" if "fast (nodes (mem S) ! t) ! j = debt_none" "j < DEBT_SLOT_CNT" for j
    by (rule read_look [OF i t x]) (use inv that in simp_all)
  moreover have "keeps S t (Read (L_Slot a p (n + 1)) k) (mem S)" by (rule read_look [OF i t x]) (use inv in simp_all)
  moreover have "keeps S t (Read (F_Addr a) k) (mem S)" by (rule read_look [OF i t x]) (use inv in simp_all)
  ultimately show ?thesis using pos by (simp add: Let_def len)
qed

lemma L_Take_keeps:
  assumes i: "cinv S" and t: "t < threads S" and x: "pcs S t = Read (L_Take a p j) k"
  shows "wp (read_step t (L_Take a p j)) (\<lambda>x w'. keeps S t (resume k x) w') (mem S)"
proof -
  have inv: "cell (mem S) a" "p \<noteq> debt_none" "j < DEBT_SLOT_CNT" "fast (nodes (mem S) ! t) ! j = debt_none"
    using pc_invD [OF i t] x by simp_all
  let ?f = "\<lambda>ln. ln\<lparr>ln_fast := \<lparr>offset = j + 1\<rparr>\<rparr>"
  let ?u = "upd_local (Thread t) ?f (mem S)"
  have len: "length (fast (nodes (mem S) ! t)) = DEBT_SLOT_CNT" using cinvD(1) [OF i] t by (simp add: shape_def)
  have u: "still (mem S) ?u" by (simp add: still_def mild_def)
  have c: "still (mem S) (write_slot (FastSlot t j) p ?u)"
    using u still_write_slot [of ?u "FastSlot t j" p] by (simp add: still_def mild_def)
  have "keeps S t (Read (L_Confirm a p (FastSlot t j)) k) (write_slot (FastSlot t j) p ?u)"
  proof (rule cinv_take [OF i t _ u])
    show "proceeds S t (Read (L_Confirm a p (FastSlot t j)) k) (write_slot (FastSlot t j) p ?u) (bag S)"
      by (rule proceeds_read [OF i t x c]) (use inv still_cell [OF c, of a] in \<open>simp_all add: mine_def del: write_slot.simps\<close>)
  qed (use inv t len in \<open>simp_all add: x slot_ok_def plain_mail\<close>)
  then show ?thesis using inv(4) by (simp add: upd_local_def upd_node_def world_order)
qed

lemma mine_ok: "cinv S \<Longrightarrow> t < threads S \<Longrightarrow> mine t s \<Longrightarrow> slot_ok (mem S) s"
  using cinvD(1) [of S] by (auto simp: mine_def slot_ok_def shape_def)

lemma mine_hok: "t < length (nodes w) \<Longrightarrow> mine t s \<Longrightarrow> p \<noteq> debt_none \<Longrightarrow> hok w (Hnd p (Some s))"
  by (auto simp: mine_def hok_def)

lemma L_Confirm_keeps:
  assumes i: "cinv S" and t: "t < threads S" and x: "pcs S t = Read (L_Confirm a p s) k"
  shows "wp (read_step t (L_Confirm a p s)) (\<lambda>x w'. keeps S t (resume k x) w') (mem S)"
proof -
  have inv: "cell (mem S) a" "p \<noteq> debt_none" "mine t s" using pc_invD [OF i t] x by simp_all
  obtain q where q: "storage (mem S) a = Some q" using inv by (auto simp: cell_def)
  have "keeps S t (loaded_by (Hnd p (Some s)) k) (mem S)" if "q = p"
  proof (rule cinv_look [OF i t still_refl])
    show "proceeds S t (loaded_by (Hnd p (Some s)) k) (mem S) (bag S)"
      by (rule proceeds_loaded [OF i t x still_refl mine_hok])
        (use inv t q stored_not_none [OF i q] that in simp_all)
  qed (simp_all add: x loaded_own plain_mail hown_def hnotes_def)
  moreover have "keeps S t (Read (L_Pay a p s) k) (mem S)" by (rule read_look [OF i t x]) (use inv in simp_all)
  ultimately show ?thesis using q by (auto simp: wp_ptr_load)
qed

section \<open>Paying back\<close>

lemma read_paid:
  assumes i: "cinv S" and t: "t < threads S" and x: "pcs S t = Read r k" and s: "slot_ok (mem S) s" "read_slot s (mem S) = q"
    and p: "proceeds S t y (write_slot s debt_none (mem S)) (bag S)" and pl: "plain (Read r k)" "plain y"
    and ow: "own y = own (Read r k)" "ious t (Read r k) = add_mset (s, q) (ious t y)"
  shows "keeps S t y (write_slot s debt_none (mem S))"
  by (rule cinv_paid [OF i t p s]) (simp_all add: x ow plain_mail pl del: own.simps ious.simps)

lemma read_unpaid:
  assumes i: "cinv S" and t: "t < threads S" and x: "pcs S t = Read r k" and s: "slot_ok (mem S) s" "read_slot s (mem S) \<noteq> q"
    and p: "proceeds S t y (mem S) (bag S)" and pl: "plain (Read r k)" "plain y"
    and ow: "own y = add_mset q (own (Read r k))" "ious t (Read r k) = add_mset (s, q) (ious t y)"
  shows "keeps S t y (mem S)"
  by (rule cinv_unpaid [OF i t p s]) (simp_all add: x ow plain_mail pl del: own.simps ious.simps)

lemma L_Pay_keeps:
  assumes i: "cinv S" and t: "t < threads S" and x: "pcs S t = Read (L_Pay a p s) k"
  shows "wp (read_step t (L_Pay a p s)) (\<lambda>x w'. keeps S t (resume k x) w') (mem S)"
proof -
  have inv: "cell (mem S) a" "p \<noteq> debt_none" "mine t s" using pc_invD [OF i t] x by simp_all
  note ok = mine_ok [OF i t inv(3)]
  have "keeps S t (Read (F_Addr a) k) (write_slot s debt_none (mem S))" if "read_slot s (mem S) = p"
    by (rule read_paid [OF i t x ok that], rule proceeds_read [OF i t x still_write_slot])
      (use inv in \<open>simp_all add: still_cell [OF still_write_slot]\<close>)
  moreover have "keeps S t (loaded_by (Hnd p None) k) (mem S)" if "read_slot s (mem S) \<noteq> p"
    by (rule read_unpaid [OF i t x ok that], rule proceeds_loaded [OF i t x still_refl])
      (use inv in \<open>simp_all add: hok_def loaded_own hown_def hnotes_def\<close>)
  ultimately show ?thesis by (simp add: wp_debt_pay)
qed

section \<open>The slow path\<close>

lemma plain_outside: "cinv S \<Longrightarrow> t < threads S \<Longrightarrow> transaction (pcs S t) = None \<Longrightarrow> ctl (mem S) t = IDLE"
  by (drule (1) ctl_invD) (simp add: ctl_inv_def)

lemma idle_not_replacement [simp]: "\<not> is_replacement IDLE"
  by (simp add: is_replacement_def tag_defs)

text \<open>A step on the words of the helping slots: heap, storages and slots stay.\<close>

lemma balanced_words:
  assumes "cinv S" and t: "t < threads S" and len: "length (nodes w') = threads S"
    and same: "heap w' = heap (mem S)" "storage w' = storage (mem S)" "\<And>p. owed w' p = owed (mem S) p"
    and ml: "\<And>n p. n < threads S \<Longrightarrow> n \<noteq> t \<Longrightarrow> mail n (pcs S n) w' p = mail n (pcs S n) (mem S) p"
    and acc: "own y = own (pcs S t)" "ious t y = ious t (pcs S t)" "\<And>p. mail t y w' p = mail t (pcs S t) (mem S) p"
  shows "balanced (moved t y w' (bag S) S)"
  by (rule balanced_moved [OF cinvD(5) [OF assms(1)] t len ml]) (simp_all add: same acc)

lemma cinv_words:
  assumes i: "cinv S" and t: "t < threads S" and g: "guar t (purse t (pcs S t) (mem S)) (mem S) w'"
    and same: "storage w' = storage (mem S)" "slot_val w' = slot_val (mem S)"
    and k: "knows t y w'" and p: "purses (moved t y w' (bag S) S)" and ba: "balanced (moved t y w' (bag S) S)"
    and acc: "ious t y = ious t (pcs S t)"
    and cf: "\<And>s p. (s, p) \<in> conf y \<Longrightarrow> (s, p) \<in> conf (pcs S t) \<or> 0 < stored (storage (mem S)) p \<or>
      (\<exists>n<threads S. n \<noteq> t \<and> left (pcs S n) p s) \<or> left y p s"
    and lf: "\<And>s p. left (pcs S t) p s \<Longrightarrow> left y p s"
    and aw: "\<And>n a p. n < threads S \<Longrightarrow> n \<noteq> t \<Longrightarrow> \<not> is_replacement (ctl w' n) \<Longrightarrow>
      awaits (ctl w' n) (pcs S t) a p n \<Longrightarrow> awaits (ctl w' n) y a p n"
    and ca: "candidate y = None"
  shows "keeps S t y w'"
proof (rule cinv_moved [OF i t g k _ _ p ba])
  note I = cinvD [OF i]
  have len: "length (nodes w') = threads S" using g by (simp add: guar_def)
  show "hok w' h" if "h \<in> set (bag S)" for h by (rule guar_hok [OF g I(3) [OF that]])
  show "shape w'" using I(1) g same(1) by (simp add: shape_def guar_def)
  show "noted (moved t y w' (bag S) S)"
    by (rule noted_moved [OF I(6) t len]) (simp add: same acc)
  show "guarded (moved t y w' (bag S) S)"
  proof (rule guarded_moved [OF I(7) t len])
    fix s p assume "(s, p) \<in> bconf y (bag S)"
    then have "(s, p) \<in> conf y \<or> (s, p) \<in> bconf (pcs S t) (bag S)" by (auto simp: bconf_def)
    with cf [of s p] show "(s, p) \<in> bconf (pcs S t) (bag S) \<or> covered (moved t y w' (bag S) S) s p"
      using t len unfolding covered_def moved_simps same by (auto simp: bconf_def)
  qed (use lf in \<open>auto simp: same acc\<close>)
  show "candidates (moved t y w' (bag S) S)"
  proof (rule candidates_moved [OF I(8) g t])
    fix n a p assume n: "n < threads S" "n \<noteq> t" "\<not> is_replacement (ctl w' n)"
    show "(storage (mem S) a = Some p \<longrightarrow> storage w' a = Some p \<or> awaits (ctl w' n) y a p n) \<and>
        (awaits (ctl w' n) (pcs S t) a p n \<longrightarrow> awaits (ctl w' n) y a p n)"
      using aw [OF n] same(1) by auto
  qed (simp add: ca)
qed

lemma helping_upd_helping: "n < length (nodes w) \<Longrightarrow>
  helping (nodes (upd_helping m f w) ! n) = (if n = m then f (helping (nodes w ! n)) else helping (nodes w ! n))"
  by (simp add: upd_helping_def nth_update)

lemma fast_upd_helping: "fast (nodes (upd_helping m f w) ! n) = fast (nodes w ! n)"
  by (simp add: upd_helping_def nth_update)

lemma length_upd_helping [simp]: "length (nodes (upd_helping m f w)) = length (nodes w)"
  by (simp add: upd_helping_def)

lemma slot_upd_helping:
  assumes "\<And>hs. slot (f hs) = slot hs"
  shows "slot_val (upd_helping m f w) = slot_val w" and "owed (upd_helping m f w) p = owed w p"
proof -
  have sl: "slot (helping (nodes (upd_helping m f w) ! n)) = slot (helping (nodes w ! n))" for n
    by (simp add: upd_helping_def nth_update assms)
  have so: "slot_ok (upd_helping m f w) s = slot_ok w s" for s
    by (simp add: slot_ok_def fast_upd_helping split: slot_ref.splits)
  have rd: "read_slot s (upd_helping m f w) = read_slot s w" for s
    by (cases s) (simp_all add: fast_upd_helping sl)
  show "slot_val (upd_helping m f w) = slot_val w" by (simp add: fun_eq_iff slot_val_def so rd)
  have "slot_list (upd_helping m f w) = slot_list w" by (simp add: slot_list_def all_slots_def fast_upd_helping)
  then show "owed (upd_helping m f w) p = owed w p" by (simp add: owed_slots rd)
qed

text \<open>A step of the thread on its own words.\<close>

definition own_words :: "tid \<Rightarrow> 'v world \<Rightarrow> 'v world \<Rightarrow> bool" where
  "own_words t w w' \<longleftrightarrow> length (nodes w') = length (nodes w) \<and> heap w' = heap w \<and> storage w' = storage w \<and>
     handover w' = handover w \<and> slot_val w' = slot_val w \<and> (\<forall>p. owed w' p = owed w p) \<and>
     (\<forall>n. fast (nodes w' ! n) = fast (nodes w ! n)) \<and>
     (\<forall>n<length (nodes w). n \<noteq> t \<longrightarrow> helping (nodes w' ! n) = helping (nodes w ! n) \<and> gnr w' n = gnr w n)"

lemma own_words_upd:
  "(\<And>hs. slot (f hs) = slot hs) \<Longrightarrow> own_words t w (upd_helping t f w)"
  by (simp add: own_words_def helping_upd_helping fast_upd_helping slot_upd_helping)

lemma own_words_local: "own_words t w w' \<Longrightarrow> own_words t w (upd_local (Thread t) f w')"
  unfolding own_words_def slot_val_def slot_ok_def
  by (simp add: fun_eq_iff owed_def split: slot_ref.splits) (metis read_slot.simps)

lemma purse_cong: "helping (nodes w' ! n) = helping (nodes w ! n) \<Longrightarrow> purse n x w' = purse n x w"
  unfolding purse_def by (simp only:)

lemma mail_cong: "helping (nodes w' ! n) = helping (nodes w ! n) \<Longrightarrow> handover w' = handover w \<Longrightarrow>
  mail n x w' p = mail n x w p"
  unfolding mail_def by (simp only:)

lemma read_walk: "left (Read r k) p s \<Longrightarrow> left (Read r' k) p s" "awaits c (Read r k) a p n \<Longrightarrow> awaits c (Read r' k) a p n"
  by (cases k; simp)+

lemma own_words_guar:
  assumes "own_words t w w'" and "gnr w t \<le> gnr w' t" and "adr w' t = adr w t \<or> cell w (adr w' t)" and "ctl w' t AND TAG_MASK = GEN_TAG \<Longrightarrow>
        \<exists>g. ctl w' t = g OR GEN_TAG \<and> g AND TAG_MASK = 0 \<and> gnr w t < g"
  shows "guar t E w w'"
  using assms by (auto simp: guar_def cell_def own_words_def)

lemma cinv_own_words:
  assumes i: "cinv S" and t: "t < threads S" and w: "own_words t (mem S) w'"
    and g: "gnr (mem S) t \<le> gnr w' t" "adr w' t = adr (mem S) t \<or> cell (mem S) (adr w' t)" "ctl w' t AND TAG_MASK = GEN_TAG \<Longrightarrow>
        \<exists>g. ctl w' t = g OR GEN_TAG \<and> g AND TAG_MASK = 0 \<and> gnr (mem S) t < g"
    and k: "knows t y w'" and p: "purse t y w' = purse t (pcs S t) (mem S)"
    and acc: "own y = own (pcs S t)" "ious t y = ious t (pcs S t)" "\<And>p. mail t y w' p = mail t (pcs S t) (mem S) p"
    and cf: "\<And>s p. (s, p) \<in> conf y \<Longrightarrow> (s, p) \<in> conf (pcs S t) \<or> 0 < stored (storage (mem S)) p \<or>
      (\<exists>n<threads S. n \<noteq> t \<and> left (pcs S n) p s) \<or> left y p s"
    and lf: "\<And>s p. left (pcs S t) p s \<Longrightarrow> left y p s"
    and aw: "\<And>n a p c. awaits c (pcs S t) a p n \<Longrightarrow> n \<noteq> t \<Longrightarrow> awaits c y a p n"
    and ca: "candidate y = None"
  shows "keeps S t y w'"
proof (rule cinv_words [OF i t _ _ _ k])
  note W = w [unfolded own_words_def]
  have pn: "purse n (pcs S n) w' = purse n (pcs S n) (mem S)" if "n < threads S" "n \<noteq> t" for n
    by (rule purse_cong) (use W that in simp)
  show "guar t (purse t (pcs S t) (mem S)) (mem S) w'" by (rule own_words_guar [OF w g])
  show "purses (moved t y w' (bag S) S)"
  proof -
    have "purse n (pcs (moved t y w' (bag S) S) n) w' = purse n (pcs S n) (mem S)" if "n < threads S" for n
      using pn [OF that] p by simp
    moreover have "length (nodes w') = threads S" using W by simp
    ultimately show ?thesis
      using cinvD(4) [OF i] unfolding purses_def moved_simps(1) by (auto simp: inj_on_def)
  qed
  show "balanced (moved t y w' (bag S) S)"
    by (rule balanced_words [OF i t]) (use W acc mail_cong [of w' _ "mem S"] in simp_all)
qed (use w [unfolded own_words_def] acc cf lf aw ca in auto)

lemma F_Addr_keeps:
  assumes i: "cinv S" and t: "t < threads S" and x: "pcs S t = Read (F_Addr a) k" and go: "\<not> stopped t S"
  shows "wp (read_step t (F_Addr a)) (\<lambda>x w'. keeps S t (resume k x) w') (mem S)"
proof -
  have inv: "cell (mem S) a" "kinv t k (mem S)" using pc_invD [OF i t] x by simp_all
  have idle: "ctl (mem S) t = IDLE" by (rule plain_outside [OF i t]) (simp add: x)
  have gen: "gnr (mem S) t AND TAG_MASK = 0" using ctl_invD [OF i t] by (simp add: ctl_inv_def)
  have ne: "gnr (mem S) t + 4 \<noteq> 0" using go x by (simp add: stopped_def)
  let ?w = "upd_helping t (\<lambda>hs. hs\<lparr>active_addr := a\<rparr>) (mem S)"
  have h: "helping (nodes ?w ! t) = helping (nodes (mem S) ! t)\<lparr>active_addr := a\<rparr>" using t by (simp add: helping_upd_helping)
  have ow: "own_words t (mem S) ?w" by (rule own_words_upd) simp
  have k: "kinv t k ?w"
    by (rule guar_kinv [OF own_words_guar [OF ow] inv(2)]) (use h idle inv(1) in \<open>simp_all add: tag_defs\<close>)
  have "keeps S t (Read (F_Gen a) k) ?w"
  proof (rule cinv_own_words [OF i t ow])
    show "knows t (Read (F_Gen a) k) ?w"
      using inv k gen idle ne h by (simp add: knows_def ctl_inv_def cell_def)
  qed (use h idle inv(1) in \<open>simp_all add: x plain_purse plain_mail tag_defs read_walk [where r = "F_Addr a"]\<close>)
  moreover have "(gnr (mem S) t + 4) AND GEN_TAG = 0" using gen by (simp add: tag_defs tag_and_2)
  ultimately show ?thesis by simp
qed

lemma next_generation:
  assumes "(g::usize) AND TAG_MASK = 0" and "g + 4 \<noteq> 0"
  shows "g < g + 4"
proof -
  have "unat (g mod 4) = 0" using assms(1) by (simp add: tag_defs and_3 take_bit_eq_mod)
  then have m: "unat g mod 4 = 0" by (simp add: unat_mod)
  have "unat g < 2 ^ 64" using unsigned_less [of g] by simp
  moreover have "unat g \<noteq> 2 ^ 64 - 4"
  proof
    assume "unat g = 2 ^ 64 - 4"
    then have "unat (g + 4) = 0" by (simp add: unat_word_ariths)
    then show False using assms(2) by (simp add: unat_eq_0)
  qed
  ultimately have "unat g + 4 < 2 ^ 64" using m by simp presburger
  then show ?thesis by (simp add: word_less_nat_alt unat_word_ariths)
qed

lemma F_Gen_keeps:
  assumes i: "cinv S" and t: "t < threads S" and x: "pcs S t = Read (F_Gen a) k"
  shows "wp (read_step t (F_Gen a)) (\<lambda>x w'. keeps S t (resume k x) w') (mem S)"
proof -
  have inv: "cell (mem S) a" "adr (mem S) t = a" "gnr (mem S) t + 4 \<noteq> 0" "kinv t k (mem S)"
    using pc_invD [OF i t] x by simp_all
  have idle: "ctl (mem S) t = IDLE" by (rule plain_outside [OF i t]) (simp add: x)
  have gen: "gnr (mem S) t AND TAG_MASK = 0" using ctl_invD [OF i t] by (simp add: ctl_inv_def)
  let ?g = "gnr (mem S) t + 4"
  let ?w = "upd_local (Thread t) (\<lambda>ln. ln\<lparr>ln_helping := \<lparr>generation = ?g\<rparr>\<rparr>)
      (upd_helping t (\<lambda>hs. hs\<lparr>control := ?g OR GEN_TAG\<rparr>) (mem S))"
  have h: "helping (nodes ?w ! t) = helping (nodes (mem S) ! t)\<lparr>control := ?g OR GEN_TAG\<rparr>" "gnr ?w t = ?g"
    using t by (simp_all add: helping_upd_helping)
  have g4: "?g AND TAG_MASK = 0" using gen by (simp add: tag_defs)
  have nr: "\<not> is_replacement (?g OR GEN_TAG)" using g4 tag_or_gen [of ?g] by (simp add: is_replacement_def tag_defs)
  have lt: "gnr (mem S) t < ?g" by (rule next_generation [OF gen inv(3)])
  have new: "\<exists>g. ctl ?w t = g OR GEN_TAG \<and> g AND TAG_MASK = 0 \<and> gnr (mem S) t < g"
    using h(1) g4 lt by auto
  have ow: "own_words t (mem S) ?w" by (rule own_words_local [OF own_words_upd]) simp
  have le: "gnr (mem S) t \<le> gnr ?w t" using h(2) lt by simp
  have ad: "adr ?w t = adr (mem S) t \<or> cell (mem S) (adr ?w t)" using h(1) by simp
  have k: "kinv t k ?w" by (rule guar_kinv [OF own_words_guar [OF ow le ad new] inv(4)])
  have "keeps S t (Read (F_Load a) k) ?w"
  proof (rule cinv_own_words [OF i t ow le ad new])
    show "knows t (Read (F_Load a) k) ?w" using inv k g4 h by (simp add: knows_def ctl_inv_def cell_def)
  qed (use h idle nr in \<open>simp_all add: x plain_purse plain_mail read_walk [where r = "F_Gen a"]\<close>)
  then show ?thesis using idle by (simp add: upd_local_def upd_helping_def upd_node_def world_order)
qed

lemma F_Load_keeps:
  assumes i: "cinv S" and t: "t < threads S" and x: "pcs S t = Read (F_Load a) k"
  shows "wp (read_step t (F_Load a)) (\<lambda>x w'. keeps S t (resume k x) w') (mem S)"
proof -
  obtain p where p: "storage (mem S) a = Some p" using pc_invD [OF i t] x by (auto simp: cell_def)
  have "keeps S t (Read (F_Slot a p) k) (mem S)"
    by (rule read_look [OF i t x]) (use p stored_not_none [OF i p] in \<open>simp_all add: cell_def\<close>)
  then show ?thesis using p by (simp add: wp_ptr_load)
qed

text \<open>The helping slot of a thread is recorded by nobody else.\<close>

lemma hok_fast: "hok w h \<Longrightarrow> (HelpSlot n, p) \<notin># hnotes h"
  by (auto simp: hok_def hnotes_def split: option.splits)

lemma pok_fast: "pok w q \<Longrightarrow> (HelpSlot n, p) \<notin># pnotes q"
  by (cases q) (auto dest: hok_fast)

lemma help_slot_ious:
  assumes "pc_inv t x w" and "(HelpSlot n, p) \<in># ious t x"
  shows "n = t \<and> (\<exists>r k. x = Read r k \<and> (HelpSlot n, p) \<in># rnotes t r)"
proof (cases x)
  case (Read r k)
  then have "(HelpSlot n, p) \<notin># knotes k" using assms(1) by (cases k) (auto simp: wok_def dest: pok_fast)
  then have "(HelpSlot n, p) \<in># rnotes t r" using Read assms(2) by simp
  then show ?thesis using Read assms(1) by (cases r) (auto simp: mine_def note_ok_def hok_def)
next
  case (Give g d)
  then have "(HelpSlot n, p) \<notin># dnotes d" using assms(1) by (cases d) (auto simp: wok_def dest: hok_fast pok_fast)
  then show ?thesis using Give assms by (cases g) (auto simp: hok_def)
next
  case (Write y z)
  then show ?thesis using assms by (auto simp: wok_def dest: pok_fast)
qed (use assms in \<open>auto dest: hok_fast\<close>)

lemma help_slot_none:
  assumes i: "cinv S" and t: "t < threads S" and no: "\<And>p r k. pcs S t = Read r k \<Longrightarrow> (HelpSlot t, p) \<notin># rnotes t r"
  shows "slot (helping (nodes (mem S) ! t)) = debt_none"
proof (rule ccontr)
  let ?p = "slot (helping (nodes (mem S) ! t))"
  assume "?p \<noteq> debt_none"
  moreover have "slot_val (mem S) (HelpSlot t) = ?p" using t by (simp add: slot_val_def slot_ok_def)
  ultimately have "(HelpSlot t, ?p) \<in># IOUS S" using cinvD(6) [OF i] by (metis noted_def)
  then consider n where "n < threads S" "(HelpSlot t, ?p) \<in># ious n (pcs S n)"
    | h where "h \<in> set (bag S)" "(HelpSlot t, ?p) \<in># hnotes h"
    by (auto simp: IOUS_def set_mset_sum)
  then show False
  proof cases
    case 1
    then show False using help_slot_ious [OF pc_invD [OF i 1(1)] 1(2)] no by auto
  next
    case 2
    then show False using cinvD(3) [OF i] hok_fast by blast
  qed
qed

lemma F_Slot_keeps:
  assumes i: "cinv S" and t: "t < threads S" and x: "pcs S t = Read (F_Slot a p) k"
  shows "wp (read_step t (F_Slot a p)) (\<lambda>x w'. keeps S t (resume k x) w') (mem S)"
proof -
  have inv: "cell (mem S) a" "p \<noteq> debt_none" using pc_invD [OF i t] x by simp_all
  have none: "slot (helping (nodes (mem S) ! t)) = debt_none" by (rule help_slot_none [OF i t]) (simp add: x)
  have "keeps S t (Read (F_Control a p) k) (write_slot (HelpSlot t) p (mem S))"
  proof (rule cinv_take [OF i t _ still_refl])
    show "proceeds S t (Read (F_Control a p) k) (write_slot (HelpSlot t) p (mem S)) (bag S)"
      by (rule proceeds_read [OF i t x still_write_slot])
        (use inv still_cell [OF still_write_slot, of "HelpSlot t" p "mem S" a] in simp_all)
  qed (use none t in \<open>simp_all add: x slot_ok_def plain_mail\<close>)
  then show ?thesis using none by simp
qed

lemma F_Control_keeps:
  assumes i: "cinv S" and t: "t < threads S" and x: "pcs S t = Read (F_Control a p) k"
  shows "wp (read_step t (F_Control a p)) (\<lambda>x w'. keeps S t (resume k x) w') (mem S)"
proof -
  have inv: "p \<noteq> debt_none" "kinv t k (mem S)" using pc_invD [OF i t] x by simp_all
  let ?c = "ctl (mem S) t"
  have gen: "gnr (mem S) t AND TAG_MASK = 0"
    and ctl: "?c = gnr (mem S) t OR GEN_TAG \<or> is_replacement ?c \<and> handover (mem S) (envelope ?c) \<noteq> debt_none"
    using ctl_invD [OF i t] x by (simp_all add: ctl_inv_def)
  have nr: "\<not> is_replacement (gnr (mem S) t OR GEN_TAG)"
    using gen tag_or_gen [of "gnr (mem S) t"] by (simp add: is_replacement_def tag_defs)
  let ?w = "upd_helping t (\<lambda>hs. hs\<lparr>control := IDLE\<rparr>) (mem S)"
  have h: "helping (nodes ?w ! t) = helping (nodes (mem S) ! t)\<lparr>control := IDLE\<rparr>" using t by (simp add: helping_upd_helping)
  have ow: "own_words t (mem S) ?w" by (rule own_words_upd) simp
  have noGen: "ctl ?w t AND TAG_MASK \<noteq> GEN_TAG" using h by (simp add: tag_defs)
  have k: "kinv t k ?w" by (rule guar_kinv [OF own_words_guar [OF ow] inv(2)]) (use noGen h in simp_all)
  have "keeps S t (Read (I_Inc p (HelpSlot t)) k) ?w" if c: "?c = gnr (mem S) t OR GEN_TAG"
  proof (rule cinv_own_words [OF i t ow])
    show "knows t (Read (I_Inc p (HelpSlot t)) k) ?w"
      using inv k gen h by (simp add: knows_def ctl_inv_def note_ok_def)
    fix s q assume "(s, q) \<in> conf (Read (I_Inc p (HelpSlot t)) k)"
    then consider "(s, q) \<in> conf (pcs S t)" | "s = HelpSlot t" "q = p" by (auto simp: x)
    then show "(s, q) \<in> conf (pcs S t) \<or> 0 < stored (storage (mem S)) q \<or>
        (\<exists>n<threads S. n \<noteq> t \<and> left (pcs S n) q s) \<or> left (Read (I_Inc p (HelpSlot t)) k) q s"
    proof cases
      case 2
      have "fresh S t a p" using cinvD(8) [OF i] t x c nr by (simp add: candidates_def)
      then consider "storage (mem S) a = Some p" | n where "n < threads S" "awaits ?c (pcs S n) a p t"
        by (auto simp: fresh_def)
      then show ?thesis
      proof cases
        case 1
        show ?thesis using stored_not_none [OF i 1] \<open>q = p\<close> by simp
      next
        case n: 2
        have "left (pcs S n) p (HelpSlot t)" by (rule awaits_left [OF n(2)])
        then show ?thesis using n(1) 2 x read_walk(1) [of "F_Control a p" k p "HelpSlot t"] by (cases "n = t") auto
      qed
    qed simp
  qed (use noGen h c nr in \<open>simp_all add: x plain_purse plain_mail read_walk [where r = "F_Control a p"]\<close>)
  moreover have "keeps S t (Read (F_Open p (envelope ?c)) k) ?w" if c: "is_replacement ?c" "handover (mem S) (envelope ?c) \<noteq> debt_none"
  proof (rule cinv_own_words [OF i t ow])
    show "knows t (Read (F_Open p (envelope ?c)) k) ?w"
      using inv k gen h c by (simp add: knows_def ctl_inv_def)
  qed (use noGen h c in \<open>simp_all add: x purse_def mail_def read_walk [where r = "F_Control a p"]\<close>)
  ultimately show ?thesis using ctl nr by (auto simp: is_replacement_def envelope_def)
qed

lemma F_Open_keeps:
  assumes i: "cinv S" and t: "t < threads S" and x: "pcs S t = Read (F_Open p e) k"
  shows "wp (read_step t (F_Open p e)) (\<lambda>x w'. keeps S t (resume k x) w') (mem S)"
proof -
  have inv: "p \<noteq> debt_none" "handover (mem S) e \<noteq> debt_none" "kinv t k (mem S)" using pc_invD [OF i t] x by simp_all
  have idle: "ctl (mem S) t = IDLE" by (rule plain_outside [OF i t]) (simp add: x)
  let ?y = "Read (F_Space p e (handover (mem S) e)) k"
  have "keeps S t ?y (mem S)"
  proof (rule cinv_still [OF i t still_refl])
    show "proceeds S t ?y (mem S) (bag S)"
      using inv idle cinvD(3) [OF i]
      by (simp add: proceeds_def x purse_def bconf_def read_walk [where r = "F_Open p e"])
  qed (simp_all add: x mail_def idle)
  then show ?thesis by simp
qed

lemma F_Space_keeps:
  assumes i: "cinv S" and t: "t < threads S" and x: "pcs S t = Read (F_Space p e r) k"
  shows "wp (read_step t (F_Space p e r)) (\<lambda>x w'. keeps S t (resume k x) w') (mem S)"
proof -
  have inv: "p \<noteq> debt_none" "r \<noteq> debt_none" "kinv t k (mem S)" using pc_invD [OF i t] x by simp_all
  have idle: "ctl (mem S) t = IDLE" by (rule plain_outside [OF i t]) (simp add: x)
  have gen: "gnr (mem S) t AND TAG_MASK = 0" using ctl_invD [OF i t] by (simp add: ctl_inv_def)
  let ?w = "upd_helping t (\<lambda>hs. hs\<lparr>space_offer := e\<rparr>) (mem S)"
  have h: "helping (nodes ?w ! t) = helping (nodes (mem S) ! t)\<lparr>space_offer := e\<rparr>" using t by (simp add: helping_upd_helping)
  have ow: "own_words t (mem S) ?w" by (rule own_words_upd) simp
  have noGen: "ctl ?w t AND TAG_MASK \<noteq> GEN_TAG" using h idle by (simp add: tag_defs)
  have k: "kinv t k ?w" by (rule guar_kinv [OF own_words_guar [OF ow] inv(3)]) (use noGen h in simp_all)
  have "keeps S t (Read (F_PayOld p r) k) ?w"
  proof (rule cinv_own_words [OF i t ow])
    show "knows t (Read (F_PayOld p r) k) ?w" using inv k gen h idle by (simp add: knows_def ctl_inv_def)
  qed (use noGen h idle in \<open>simp_all add: x purse_def mail_def read_walk [where r = "F_Space p e r"]\<close>)
  then show ?thesis by simp
qed

lemma F_PayOld_keeps:
  assumes i: "cinv S" and t: "t < threads S" and x: "pcs S t = Read (F_PayOld p r) k"
  shows "wp (read_step t (F_PayOld p r)) (\<lambda>x w'. keeps S t (resume k x) w') (mem S)"
proof -
  have inv: "p \<noteq> debt_none" "r \<noteq> debt_none" using pc_invD [OF i t] x by simp_all
  have ok: "slot_ok (mem S) (HelpSlot t)" using t by (simp add: slot_ok_def)
  have "keeps S t (loaded_by (Hnd r None) k) (write_slot (HelpSlot t) debt_none (mem S))"
    if "read_slot (HelpSlot t) (mem S) = p"
    by (rule read_paid [OF i t x ok that], rule proceeds_loaded [OF i t x still_write_slot])
      (use inv in \<open>simp_all add: hok_def loaded_own hown_def hnotes_def\<close>)
  moreover have "keeps S t (Read (F_DecOld p r) k) (mem S)" if "read_slot (HelpSlot t) (mem S) \<noteq> p"
    by (rule read_unpaid [OF i t x ok that], rule proceeds_read [OF i t x still_refl]) (use inv in simp_all)
  ultimately show ?thesis by (simp add: wp_debt_pay)
qed

section \<open>Counting a reference\<close>

lemma wp_t_inc_arc: "wp (t_inc (ArcP p)) Q w \<longleftrightarrow> 0 < refs w p \<and> Q p (w\<lparr>heap := inc_at KArc p (heap w)\<rparr>)"
  using wp_t_inc [of KArc p Q w] by (simp add: live_arc)

lemma read_dec:
  assumes i: "cinv S" and t: "t < threads S" and x: "pcs S t = Read r k" and q: "q \<noteq> debt_none" "h_ptr h \<noteq> debt_none"
    and h: "h_debt h = None" and ow: "rown r = {#q, h_ptr h#}" "rnotes t r = {#}" and pl: "plain (Read r k)"
    and tr: "transaction (Read r k) = None"
  shows "wp (t_dec KArc q) (\<lambda>_ w'. keeps S t (loaded_by h k) w') (mem S)"
proof -
  have "q \<in># own (pcs S t)" using x ow by simp
  then have live: "0 < refs (mem S) q" by (rule alive_own [OF i q(1) t])
  have "keeps S t (loaded_by h k) (mem S\<lparr>heap := dec_at KArc q (heap (mem S))\<rparr>)"
    by (rule cinv_dec [OF i t proceeds_loaded [OF i t x still_heap]])
      (use q h live ow pl tr in \<open>simp_all add: x hok_def loaded_own hown_def hnotes_def plain_mail\<close>)
  then show ?thesis using live by (simp add: wp_t_dec live_arc)
qed

lemma I_Inc_keeps:
  assumes i: "cinv S" and t: "t < threads S" and x: "pcs S t = Read (I_Inc p s) k"
  shows "wp (read_step t (I_Inc p s)) (\<lambda>x w'. keeps S t (resume k x) w') (mem S)"
proof -
  have inv: "note_ok (mem S) t s p" using pc_invD [OF i t] x by simp
  have "(s, p) \<in> conf (pcs S t)" using x by simp
  then have u: "(s, p) \<in> confs S" using t unfolding confs_def by blast
  have live: "0 < refs (mem S) p" by (rule alive_confirmed [OF i _ u]) (use inv in \<open>simp add: note_ok_def\<close>)
  have "keeps S t (Read (I_Pay p s) k) (mem S\<lparr>heap := inc_at KArc p (heap (mem S))\<rparr>)"
    by (rule cinv_inc [OF i t proceeds_read [OF i t x still_heap]])
      (use inv live in \<open>simp_all add: x still_note_ok [OF still_heap] plain_mail\<close>)
  then show ?thesis using live by (simp add: wp_t_inc_arc)
qed

lemma note_slot_ok: "cinv S \<Longrightarrow> t < threads S \<Longrightarrow> note_ok (mem S) t s p \<Longrightarrow> slot_ok (mem S) s"
  using cinvD(1) [of S] by (auto simp: note_ok_def hok_def slot_ok_def shape_def)

lemma I_Pay_keeps:
  assumes i: "cinv S" and t: "t < threads S" and x: "pcs S t = Read (I_Pay p s) k"
  shows "wp (read_step t (I_Pay p s)) (\<lambda>x w'. keeps S t (resume k x) w') (mem S)"
proof -
  have inv: "note_ok (mem S) t s p" "p \<noteq> debt_none" using pc_invD [OF i t] x by (simp_all add: note_ok_def)
  note ok = note_slot_ok [OF i t inv(1)]
  have "keeps S t (loaded_by (Hnd p None) k) (write_slot s debt_none (mem S))" if "read_slot s (mem S) = p"
    by (rule read_paid [OF i t x ok that], rule proceeds_loaded [OF i t x still_write_slot])
      (use inv in \<open>simp_all add: hok_def loaded_own hown_def hnotes_def\<close>)
  moreover have "keeps S t (Read (I_Dec p) k) (mem S)" if "read_slot s (mem S) \<noteq> p"
    by (rule read_unpaid [OF i t x ok that], rule proceeds_read [OF i t x still_refl]) (use inv in simp_all)
  ultimately show ?thesis by (simp add: wp_debt_pay)
qed

lemma read_keeps:
  assumes i: "cinv S" and t: "t < threads S" and x: "pcs S t = Read r k" and go: "\<not> stopped t S"
  shows "wp (read_step t r) (\<lambda>x w'. keeps S t (resume k x) w') (mem S)"
proof (cases r)
  case (F_DecOld p q)
  then show ?thesis
    using read_dec [OF i t x, of p "Hnd q None"] pc_invD [OF i t] x by simp
next
  case (I_Dec p)
  then show ?thesis
    using read_dec [OF i t x, of p "Hnd p None"] pc_invD [OF i t] x by simp
qed (use assms L_Ptr_keeps L_Slot_keeps L_Take_keeps L_Confirm_keeps L_Pay_keeps F_Addr_keeps F_Gen_keeps F_Load_keeps
    F_Slot_keeps F_Control_keeps F_Open_keeps F_Space_keeps F_PayOld_keeps I_Inc_keeps I_Pay_keeps in \<open>simp_all only:\<close>)

end
