(* ===== verification/Atomic_Writes.thy ===== *)
theory Atomic_Writes
  imports Atomic_Loads
begin

text \<open>
  The steps of drops and of writers keep the invariant and do not fault.
\<close>

section \<open>Drops\<close>

lemma begin_load_simps [simp]:
  "own (begin_load uf a k) = kown k" "ious t (begin_load uf a k) = knotes k" "conf (begin_load uf a k) = set_mset (knotes k)"
  "transaction (begin_load uf a k) = None" "candidate (begin_load uf a k) = None" "plain (begin_load uf a k)"
  "pc_inv t (begin_load uf a k) w \<longleftrightarrow> cell w a \<and> kinv t k w"
  by (simp_all add: begin_load_def)

text \<open>What is wanted of the program counter after a drop.\<close>

definition after :: "tid \<Rightarrow> dctx \<Rightarrow> 'v world \<Rightarrow> pc \<Rightarrow> bool" where
  "after t d w y \<longleftrightarrow> own y = down d \<and> ious t y = dnotes d \<and> conf y \<subseteq> set_mset (dnotes d) \<and> pc_inv t y w \<and>
     transaction y = None \<and> candidate y = None \<and> plain y \<and>
     (\<forall>g p s. left (Give g d) p s \<longrightarrow> left y p s) \<and> (\<forall>g c a p n. awaits c (Give g d) a p n \<longrightarrow> awaits c y a p n)"

lemma examine_wp:
  assumes "c = IDLE \<or> is_replacement c \<or> seen w t j c"
    and "c = IDLE \<or> is_replacement c \<Longrightarrow> Q (Write (W_Pay j 0) x) w" and "seen w t j c \<Longrightarrow> Q (Write (W_Addr j c) x) w"
  shows "wp (examine t x j c) Q w"
proof -
  have "c AND TAG_MASK = GEN_TAG \<and> t \<noteq> j" if "seen w t j c" using that published_tag by (auto simp: seen_def)
  then show ?thesis using assms by (auto simp: examine_def is_replacement_def tag_defs)
qed

lemma dropped_after: "dinv t d w \<Longrightarrow> wp (dropped uf t d) (\<lambda>y w'. w' = w \<and> after t d w y) w"
proof (cases d)
  case (ToHelp x j c)
  assume "dinv t d w"
  with ToHelp have "wp (examine t x j c) (\<lambda>y w'. w' = w \<and> after t d w y) w"
    by (intro examine_wp) (auto simp: after_def seen_def)
  then show ?thesis using ToHelp by simp
qed (auto simp: after_def)

lemma dropped_wp: "dinv t d w \<Longrightarrow> (\<And>y. after t d w y \<Longrightarrow> Q y w) \<Longrightarrow> wp (dropped uf t d) Q w"
  by (rule wp_mono [OF dropped_after]) auto

lemma proceeds_after:
  assumes i: "cinv S" and t: "t < threads S" and x: "pcs S t = Give g d" and a: "after t d w' y"
  shows "proceeds S t y w' (bag S)"
proof -
  have "bconf y (bag S) \<subseteq> bconf (Give g d) (bag S)" using a by (auto simp: bconf_def after_def)
  then show ?thesis
    unfolding proceeds_def x using a cinvD(3) [OF i]
    by (auto simp: after_def plain_purse simp del: left.simps awaits.simps)
qed

lemma G_Dec_keeps:
  assumes i: "cinv S" and t: "t < threads S" and x: "pcs S t = Give (G_Dec p) d"
  shows "wp (pc_step uf t (Give (G_Dec p) d)) (keeps S t) (mem S)"
proof -
  have inv: "p \<noteq> debt_none" "dinv t d (mem S)" using pc_invD [OF i t] x by simp_all
  have live: "0 < refs (mem S) p" by (rule alive_own [OF i inv(1) t]) (simp add: x)
  let ?w = "mem S\<lparr>heap := dec_at KArc p (heap (mem S))\<rparr>"
  have "keeps S t y ?w" if a: "after t d ?w y" for y
    by (rule cinv_dec [OF i t proceeds_after [OF i t x a] live])
      (use a in \<open>simp_all add: x after_def plain_mail\<close>)
  moreover have "dinv t d ?w" using inv still_dinv [OF still_heap] by blast
  ultimately have "wp (dropped uf t d) (keeps S t) ?w" by (simp add: dropped_wp)
  then show ?thesis using live by (simp add: wp_t_dec live_arc)
qed

lemma G_Pay_keeps:
  assumes i: "cinv S" and t: "t < threads S" and x: "pcs S t = Give (G_Pay p s) d"
  shows "wp (pc_step uf t (Give (G_Pay p s) d)) (keeps S t) (mem S)"
proof -
  have inv: "hok (mem S) (Hnd p (Some s))" "p \<noteq> debt_none" "dinv t d (mem S)"
    using pc_invD [OF i t] x by (simp_all add: hok_def)
  have ok: "slot_ok (mem S) s" by (rule note_slot_ok [OF i t, of s p]) (use inv in \<open>simp add: note_ok_def\<close>)
  let ?w = "write_slot s debt_none (mem S)"
  have "keeps S t y ?w" if r: "read_slot s (mem S) = p" and a: "after t d ?w y" for y
    by (rule cinv_paid [OF i t proceeds_after [OF i t x a] ok r])
      (use a in \<open>simp_all add: x after_def plain_mail\<close>)
  moreover have "dinv t d ?w" using inv still_dinv [OF still_write_slot] by blast
  ultimately have "wp (dropped uf t d) (keeps S t) ?w" if "read_slot s (mem S) = p"
    using that by (simp add: dropped_wp)
  moreover have "keeps S t (Give (G_Dec p) d) (mem S)" if r: "read_slot s (mem S) \<noteq> p"
  proof (rule cinv_unpaid [OF i t _ ok r])
    have "left (Give (G_Dec p) d) q u = left (Give (G_Pay p s) d) q u" for q u by (cases d) simp_all
    moreover have "awaits c (Give (G_Dec p) d) a q n = awaits c (Give (G_Pay p s) d) a q n" for c a q n by (cases d) simp_all
    ultimately show "proceeds S t (Give (G_Dec p) d) (mem S) (bag S)"
      unfolding proceeds_def x using inv cinvD(3) [OF i]
      by (auto simp: plain_purse bconf_def simp del: left.simps awaits.simps)
  qed (simp_all add: x plain_mail)
  ultimately show ?thesis by (simp add: wp_debt_pay)
qed

lemma give_keeps:
  assumes "cinv S" and "t < threads S" and "pcs S t = Give g d"
  shows "wp (pc_step uf t (Give g d)) (keeps S t) (mem S)"
  using assms G_Dec_keeps G_Pay_keeps by (cases g) (simp_all only:)

section \<open>How a writer proceeds\<close>

lemma proceeds_write:
  assumes i: "cinv S" and t: "t < threads S" and x: "pcs S t = Write v z" and c: "still (mem S) w'"
    and y: "conf y \<subseteq> set_mset (pnotes (w_purpose z))" "transaction y = None" "candidate y = None" "plain y" "plain (Write v z)"
    and inv: "pc_inv t y w'"
    and lf: "\<And>s p. slot_val w' s = p \<Longrightarrow> p \<noteq> debt_none \<Longrightarrow> left (Write v z) p s \<Longrightarrow> left y p s"
    and aw: "\<And>n a p. n < threads S \<Longrightarrow> n \<noteq> t \<Longrightarrow> candidate (pcs S n) = Some (a, p) \<Longrightarrow>
      \<not> is_replacement (ctl (mem S) n) \<Longrightarrow> awaits (ctl (mem S) n) (Write v z) a p n \<Longrightarrow> awaits (ctl (mem S) n) y a p n"
  shows "proceeds S t y w' (bag S)"
proof -
  have "bconf y (bag S) \<subseteq> bconf (Write v z) (bag S)" using y(1) by (auto simp: bconf_def)
  then show ?thesis
    unfolding proceeds_def x using y inv lf aw cinvD(3) [OF i]
    by (auto simp: plain_purse simp del: left.simps awaits.simps)
qed

lemma write_look:
  assumes i: "cinv S" and t: "t < threads S" and x: "pcs S t = Write v z"
    and y: "conf y \<subseteq> set_mset (pnotes (w_purpose z))" "transaction y = None" "candidate y = None" "plain y" "plain (Write v z)"
    and inv: "pc_inv t y (mem S)"
    and lf: "\<And>s p. slot_val (mem S) s = p \<Longrightarrow> p \<noteq> debt_none \<Longrightarrow> left (Write v z) p s \<Longrightarrow> left y p s"
    and aw: "\<And>n a p. n < threads S \<Longrightarrow> n \<noteq> t \<Longrightarrow> candidate (pcs S n) = Some (a, p) \<Longrightarrow>
      \<not> is_replacement (ctl (mem S) n) \<Longrightarrow> awaits (ctl (mem S) n) (Write v z) a p n \<Longrightarrow> awaits (ctl (mem S) n) y a p n"
    and acc: "own y = own (Write v z)" "ious t y = ious t (Write v z)"
  shows "keeps S t y (mem S)"
  by (rule cinv_look [OF i t still_refl proceeds_write [OF i t x still_refl y inv lf aw]])
    (simp_all add: x acc plain_mail y del: own.simps ious.simps)

text \<open>What a reader with a candidate shows to the writers.\<close>

lemma candidate_shows:
  assumes i: "cinv S" and n: "n < threads S" and c: "candidate (pcs S n) = Some (a, p)" and nr: "\<not> is_replacement (ctl (mem S) n)"
  shows "adr (mem S) n = a" and "ctl (mem S) n = gnr (mem S) n OR GEN_TAG" and "gnr (mem S) n AND TAG_MASK = 0"
proof -
  have "transaction (pcs S n) = Some a" using c by (cases "pcs S n" rule: candidate.cases) auto
  then show "adr (mem S) n = a" and "ctl (mem S) n = gnr (mem S) n OR GEN_TAG" and "gnr (mem S) n AND TAG_MASK = 0"
    using ctl_invD [OF i n] nr by (auto simp: ctl_inv_def)
qed

text \<open>A control word of a node is idle, an envelope, or shows the current generation of another thread.\<close>

lemma ctl_cases:
  assumes i: "cinv S" and t: "t < threads S" and j: "j < threads S" and tr: "transaction (pcs S t) = None"
  shows "ctl (mem S) j = IDLE \<or> is_replacement (ctl (mem S) j) \<or> seen (mem S) t j (ctl (mem S) j)"
proof (cases "transaction (pcs S j)")
  case None
  then show ?thesis using plain_outside [OF i j] by simp
next
  case (Some a)
  then have "j \<noteq> t" using tr by auto
  then show ?thesis using ctl_invD [OF i j] Some j by (auto simp: ctl_inv_def seen_def published_def)
qed

text \<open>A storage somebody shows to load from is there.\<close>

lemma shown_cell:
  assumes i: "cinv S" and j: "j < threads S" and c: "ctl (mem S) j AND TAG_MASK = GEN_TAG"
  shows "cell (mem S) (adr (mem S) j)"
proof (cases "transaction (pcs S j)")
  case None
  then show ?thesis using plain_outside [OF i j] c by (simp add: tag_defs)
next
  case (Some a)
  then have "adr (mem S) j = a" using ctl_invD [OF i j] by (simp add: ctl_inv_def)
  moreover have "cell (mem S) a" using pc_invD [OF i j] Some by (cases "pcs S j" rule: transaction.cases) auto
  ultimately show ?thesis by simp
qed

lemma examine_keeps:
  assumes i: "cinv S" and t: "t < threads S" and x: "pcs S t = Write v z" and pl: "plain (Write v z)"
    and j: "j < threads S" and own: "xown v z = wown z"
    and lf: "\<And>s. wleft v s \<Longrightarrow> snode s \<le> j" and aw: "\<And>c n. wawaits c v n \<Longrightarrow> n \<le> j"
  shows "wp (examine t z j (ctl (mem S) j)) (keeps S t) (mem S)"
proof (rule examine_wp [OF ctl_cases [OF i t j]])
  have ok: "wok (mem S) z" using pc_invD [OF i t] x by simp
  show "keeps S t (Write (W_Pay j 0) z) (mem S)" if c: "ctl (mem S) j = IDLE \<or> is_replacement (ctl (mem S) j)"
  proof (rule write_look [OF i t x])
    fix n a p
    assume n: "n < threads S" "candidate (pcs S n) = Some (a, p)" "\<not> is_replacement (ctl (mem S) n)"
      and w: "awaits (ctl (mem S) n) (Write v z) a p n"
    have "n \<noteq> j" using candidate_shows [OF i n] c n gen_not_idle by (auto simp: tag_defs)
    then show "awaits (ctl (mem S) n) (Write (W_Pay j 0) z) a p n" using w aw by fastforce
  next
    fix s p assume "left (Write v z) p s"
    then show "left (Write (W_Pay j 0) z) p s" using lf [of s] by auto
  qed (use j ok pl own in auto)
  show "keeps S t (Write (W_Addr j (ctl (mem S) j)) z) (mem S)" if c: "seen (mem S) t j (ctl (mem S) j)"
  proof (rule write_look [OF i t x])
    fix n a p assume w: "awaits (ctl (mem S) n) (Write v z) a p n"
    then show "awaits (ctl (mem S) n) (Write (W_Addr j (ctl (mem S) j)) z) a p n"
      using aw [of "ctl (mem S) n" n] by (cases "n = j") auto
  next
    have "cell (mem S) (adr (mem S) j)" using shown_cell [OF i j] published_tag c by (auto simp: seen_def)
    then show "pc_inv t (Write (W_Addr j (ctl (mem S) j)) z) (mem S)" using c ok by auto
  qed (use c ok pl own lf in auto)
qed (simp add: x)

section \<open>The walk over the nodes\<close>

lemma slot_node: "slot_val w s \<noteq> debt_none \<Longrightarrow> snode s < length (nodes w)"
  by (cases s) (auto simp: slot_val_def slot_ok_def split: if_splits)

lemma W_Inc_keeps:
  assumes i: "cinv S" and t: "t < threads S" and x: "pcs S t = Write W_Inc z"
  shows "wp (write_step uf t W_Inc z) (keeps S t) (mem S)"
proof -
  have ok: "wok (mem S) z" using pc_invD [OF i t] x by simp
  have p: "w_old z \<noteq> debt_none" using ok by (simp add: wok_def)
  have live: "0 < refs (mem S) (w_old z)" by (rule alive_own [OF i p t]) (simp add: x)
  let ?w = "mem S\<lparr>heap := inc_at KArc (w_old z) (heap (mem S))\<rparr>"
  obtain m where m: "threads S = Suc m" using t by (cases "threads S") auto
  have "keeps S t (Write (W_Reserve m) z) ?w"
  proof (rule cinv_inc [OF i t _ live])
    show "proceeds S t (Write (W_Reserve m) z) ?w (bag S)"
    proof (rule proceeds_write [OF i t x still_heap])
      fix s p assume "slot_val ?w s = p" "p \<noteq> debt_none" "left (Write W_Inc z) p s"
      then show "left (Write (W_Reserve m) z) p s" using slot_node [of "mem S" s] m by auto
    qed (use ok m in \<open>auto simp: still_wok [OF still_heap]\<close>)
  qed (simp_all add: x plain_mail)
  then show ?thesis using live m by (simp add: wp_t_inc_arc next_stop_def)
qed

lemma still_writers:
  "still w (upd_node j (\<lambda>nd. nd\<lparr>active_writers := f nd\<rparr>) w)"
  "slot_val (upd_node j (\<lambda>nd. nd\<lparr>active_writers := f nd\<rparr>) w) = slot_val w"
  "owed (upd_node j (\<lambda>nd. nd\<lparr>active_writers := f nd\<rparr>) w) p = owed w p"
proof -
  let ?w = "upd_node j (\<lambda>nd. nd\<lparr>active_writers := f nd\<rparr>) w"
  show "still w ?w" by (simp add: still_def mild_def nth_update)
  have ok: "slot_ok ?w s = slot_ok w s" for s by (simp add: slot_ok_def nth_update split: slot_ref.splits)
  have rd: "read_slot s ?w = read_slot s w" for s by (cases s) (simp_all add: nth_update)
  show "slot_val ?w = slot_val w" by (simp add: fun_eq_iff slot_val_def ok rd)
  have fl: "fast (nodes ?w ! n) = fast (nodes w ! n)" "length (nodes ?w) = length (nodes w)" for n by (simp_all add: nth_update)
  have "slot_list ?w = slot_list w" unfolding slot_list_def all_slots_def fl ..
  then show "owed ?w p = owed w p" by (simp add: owed_slots rd)
qed

lemma write_writers:
  assumes i: "cinv S" and t: "t < threads S" and x: "pcs S t = Write v z" and pl: "plain (Write v z)" "plain (Write u z)"
    and inv: "xinv t u z (mem S)" and ow: "xown u z = xown v z"
    and st: "\<And>w'. still (mem S) w' \<Longrightarrow> xinv t u z (mem S) \<Longrightarrow> xinv t u z w'"
    and lf: "\<And>s. snode s < threads S \<Longrightarrow> wleft v s \<Longrightarrow> wleft u s" and aw: "\<And>c n. n < threads S \<Longrightarrow> wawaits c v n \<Longrightarrow> wawaits c u n"
  shows "keeps S t (Write u z) (upd_node j (\<lambda>nd. nd\<lparr>active_writers := f nd\<rparr>) (mem S))"
proof (rule cinv_look [OF i t still_writers(1)])
  let ?w = "upd_node j (\<lambda>nd. nd\<lparr>active_writers := f nd\<rparr>) (mem S)"
  have ok: "wok ?w z" using pc_invD [OF i t] x by (simp add: still_wok [OF still_writers(1)])
  show "proceeds S t (Write u z) ?w (bag S)"
  proof (rule proceeds_write [OF i t x still_writers(1)])
    fix s p assume "slot_val ?w s = p" "p \<noteq> debt_none" "left (Write v z) p s"
    then show "left (Write u z) p s" using slot_node [of "mem S" s] lf [of s] by (auto simp: still_writers(2))
  qed (use ok pl aw st [OF still_writers(1) inv] in auto)
qed (simp_all add: x still_writers plain_mail pl ow)

lemma W_Reserve_keeps:
  assumes i: "cinv S" and t: "t < threads S" and x: "pcs S t = Write (W_Reserve j) z"
  shows "wp (write_step uf t (W_Reserve j) z) (keeps S t) (mem S)"
proof -
  have "j < threads S" using pc_invD [OF i t] x by simp
  then have "keeps S t (Write (W_Control j) z) (upd_node j (\<lambda>nd. nd\<lparr>active_writers := active_writers nd + 1\<rparr>) (mem S))"
    by (intro write_writers [OF i t x]) (auto simp: still_def mild_def)
  then show ?thesis by (simp add: reserve_writer_def)
qed

lemma W_Release_keeps:
  assumes i: "cinv S" and t: "t < threads S" and x: "pcs S t = Write (W_Release j) z"
  shows "wp (write_step uf t (W_Release j) z) (keeps S t) (mem S)"
proof -
  have "j < threads S" using pc_invD [OF i t] x by simp
  then have "keeps S t (Write (next_stop j) z) (upd_node j (\<lambda>nd. nd\<lparr>active_writers := active_writers nd - 1\<rparr>) (mem S))"
    by (intro write_writers [OF i t x]) (auto simp: still_def mild_def next_stop_def split: nat.splits)
  then show ?thesis by (simp add: release_writer_def)
qed

lemma W_Control_keeps:
  assumes i: "cinv S" and t: "t < threads S" and x: "pcs S t = Write (W_Control j) z"
  shows "wp (write_step uf t (W_Control j) z) (keeps S t) (mem S)"
proof -
  have "ctl (mem S) t = IDLE" by (rule plain_outside [OF i t]) (simp add: x)
  moreover have "wp (examine t z j (ctl (mem S) j)) (keeps S t) (mem S)"
    by (rule examine_keeps [OF i t x]) (use pc_invD [OF i t] x in simp_all)
  ultimately show ?thesis by simp
qed

lemma W_Addr_keeps:
  assumes i: "cinv S" and t: "t < threads S" and x: "pcs S t = Write (W_Addr j c) z"
  shows "wp (write_step uf t (W_Addr j c) z) (keeps S t) (mem S)"
proof -
  have inv: "seen (mem S) t j c" "wok (mem S) z" "cell (mem S) (w_addr z) \<or> adr (mem S) j \<noteq> w_addr z"
    using pc_invD [OF i t] x by simp_all
  have "keeps S t (begin_load uf (w_addr z) (ForHelp z j c)) (mem S)" if "adr (mem S) j = w_addr z"
    by (rule write_look [OF i t x]) (use inv that in \<open>auto simp: begin_load_def\<close>)
  moreover have "keeps S t (Write (W_Again j c) z) (mem S)" if ad: "adr (mem S) j \<noteq> w_addr z"
  proof (rule write_look [OF i t x])
    fix n a p
    assume n: "n < threads S" "candidate (pcs S n) = Some (a, p)" "\<not> is_replacement (ctl (mem S) n)"
      and w: "awaits (ctl (mem S) n) (Write (W_Addr j c) z) a p n"
    then show "awaits (ctl (mem S) n) (Write (W_Again j c) z) a p n"
      using candidate_shows(1) [OF i n] ad by auto
  qed (use inv ad in auto)
  ultimately show ?thesis by simp
qed

lemma W_Again_keeps:
  assumes i: "cinv S" and t: "t < threads S" and x: "pcs S t = Write (W_Again j c) z"
  shows "wp (write_step uf t (W_Again j c) z) (keeps S t) (mem S)"
proof -
  have inv: "j < threads S" "wok (mem S) z" using pc_invD [OF i t] x by (simp_all add: seen_def)
  have "keeps S t (Write (W_Pay j 0) z) (mem S)" by (rule write_look [OF i t x]) (use inv in auto)
  moreover have "wp (examine t z j (ctl (mem S) j)) (keeps S t) (mem S)"
    by (rule examine_keeps [OF i t x]) (use inv in simp_all)
  ultimately show ?thesis by simp
qed

lemma W_Their_keeps:
  assumes i: "cinv S" and t: "t < threads S" and x: "pcs S t = Write (W_Their j c r) z"
  shows "wp (write_step uf t (W_Their j c r) z) (keeps S t) (mem S)"
proof -
  have "pc_inv t (Write (W_Their j c r) z) (mem S)" using pc_invD [OF i t] x by simp
  then have "keeps S t (Write (W_Hand j c r (spc (mem S) j)) z) (mem S)" by (intro write_look [OF i t x]) auto
  then show ?thesis by simp
qed

section \<open>Paying all debts\<close>

lemma slot_at_simps: "j < length (nodes w) \<Longrightarrow> length (fast (nodes w ! j)) = DEBT_SLOT_CNT \<Longrightarrow> slot_ok w (slot_at j i)"
  "snode (slot_at j i) = j" "i \<le> DEBT_SLOT_CNT \<Longrightarrow> sidx (slot_at j i) = i"
  by (simp_all add: slot_at_def slot_ok_def)

text \<open>A slot with a pointer in it is named by its node and its index.\<close>

lemma slot_at_unique:
  assumes "shape w" and "slot_val w s \<noteq> debt_none" and "snode s = j" and "sidx s = i"
  shows "s = slot_at j i"
  using assms by (cases s) (auto simp: slot_at_def slot_val_def slot_ok_def shape_def split: if_splits)

lemma W_Pay_keeps:
  assumes i: "cinv S" and t: "t < threads S" and x: "pcs S t = Write (W_Pay j n) z"
  shows "wp (write_step uf t (W_Pay j n) z) (keeps S t) (mem S)"
proof -
  have inv: "j < threads S" "wok (mem S) z" using pc_invD [OF i t] x by simp_all
  note sh = cinvD(1) [OF i]
  let ?s = "slot_at j n"
  let ?w = "write_slot ?s debt_none (mem S)"
  have ok: "slot_ok (mem S) ?s" by (rule slot_at_simps) (use inv sh in \<open>simp_all add: shape_def\<close>)
  have "keeps S t (Write (W_Release j) z) (mem S)" if "DEBT_SLOT_CNT < n"
  proof (rule write_look [OF i t x])
    fix s p assume "slot_val (mem S) s = p" "p \<noteq> debt_none" "left (Write (W_Pay j n) z) p s"
    moreover have "sidx s \<le> DEBT_SLOT_CNT" if "slot_val (mem S) s \<noteq> debt_none"
      using that sh by (cases s) (auto simp: slot_val_def slot_ok_def shape_def split: if_splits)
    ultimately show "left (Write (W_Release j) z) p s" using that by auto
  qed (use inv in auto)
  moreover have "keeps S t (Write (W_Paid j n) z) ?w" if r: "read_slot ?s (mem S) = w_old z"
  proof (rule cinv_pay [OF i t _ ok r])
    show "proceeds S t (Write (W_Paid j n) z) ?w (bag S)"
    proof (rule proceeds_write [OF i t x still_write_slot])
      fix s p assume sv: "slot_val ?w s = p" "p \<noteq> debt_none" and l: "left (Write (W_Pay j n) z) p s"
      from sv have ne: "s \<noteq> ?s" "slot_val (mem S) s \<noteq> debt_none" by (auto simp: slot_val_write [OF ok] split: if_splits)
      then have "\<not> (snode s = j \<and> sidx s = n)" using slot_at_unique [OF sh] by blast
      with l show "left (Write (W_Paid j n) z) p s" by auto
    qed (use inv in \<open>auto simp: still_wok [OF still_write_slot]\<close>)
  qed (simp_all add: x plain_mail)
  moreover have "keeps S t (Write (W_Pay j (Suc n)) z) (mem S)" if r: "read_slot ?s (mem S) \<noteq> w_old z"
  proof (rule write_look [OF i t x])
    fix s p assume sv: "slot_val (mem S) s = p" "p \<noteq> debt_none" and l: "left (Write (W_Pay j n) z) p s"
    then have "s \<noteq> ?s" using r ok by (auto simp: slot_val_def)
    then have "\<not> (snode s = j \<and> sidx s = n)" using slot_at_unique [OF sh] sv by blast
    with l show "left (Write (W_Pay j (Suc n)) z) p s" by auto
  qed (use inv in auto)
  ultimately show ?thesis by (simp add: wp_debt_pay)
qed

lemma W_Paid_keeps:
  assumes i: "cinv S" and t: "t < threads S" and x: "pcs S t = Write (W_Paid j n) z"
  shows "wp (write_step uf t (W_Paid j n) z) (keeps S t) (mem S)"
proof -
  have inv: "j < threads S" "wok (mem S) z" using pc_invD [OF i t] x by simp_all
  have p: "w_old z \<noteq> debt_none" using inv by (simp add: wok_def)
  have live: "0 < refs (mem S) (w_old z)" by (rule alive_own [OF i p t]) (simp add: x)
  have "keeps S t (Write (W_Pay j (Suc n)) z) (mem S\<lparr>heap := inc_at KArc (w_old z) (heap (mem S))\<rparr>)"
    by (rule cinv_inc [OF i t proceeds_write [OF i t x still_heap] live])
      (use inv in \<open>auto simp: x plain_mail still_wok [OF still_heap]\<close>)
  then show ?thesis using live by (simp add: wp_t_inc_arc)
qed

lemma write_dec:
  assumes i: "cinv S" and t: "t < threads S" and x: "pcs S t = Write v z" and v: "v = W_Dec \<or> v = W_DecOld"
    and y: "conf y \<subseteq> set_mset (pnotes (w_purpose z))" "transaction y = None" "candidate y = None" "plain y"
    and inv: "\<And>w'. still (mem S) w' \<Longrightarrow> pc_inv t y w'"
    and ow: "xown v z = add_mset (w_old z) (own y)" "ious t y = pnotes (w_purpose z)"
  shows "wp (t_dec KArc (w_old z)) (\<lambda>_ w'. keeps S t y w') (mem S)"
proof -
  have p: "w_old z \<noteq> debt_none" using pc_invD [OF i t] x by (simp add: wok_def)
  have live: "0 < refs (mem S) (w_old z)" by (rule alive_own [OF i p t]) (simp add: x ow)
  have pl: "plain (Write v z)" using v by auto
  have "keeps S t y (mem S\<lparr>heap := dec_at KArc (w_old z) (heap (mem S))\<rparr>)"
    by (rule cinv_dec [OF i t proceeds_write [OF i t x still_heap y pl inv [OF still_heap]] live])
      (use v ow y pl in \<open>auto simp: x plain_mail\<close>)
  then show ?thesis using live by (simp add: wp_t_dec live_arc)
qed

lemma W_Dec_keeps:
  assumes i: "cinv S" and t: "t < threads S" and x: "pcs S t = Write W_Dec z"
  shows "wp (write_step uf t W_Dec z) (keeps S t) (mem S)"
proof -
  have ok: "wok (mem S) z" using pc_invD [OF i t] x by simp
  show ?thesis
  proof (cases "w_purpose z")
    case Swapping
    then show ?thesis using ok write_dec [OF i t x, of "Ret (Hnd (w_old z) None)"]
      by (simp add: hok_def wok_def hown_def hnotes_def)
  next
    case Storing
    then show ?thesis using ok write_dec [OF i t x, of "Give (G_Dec (w_old z)) ToIdle"] by (simp add: wok_def)
  next
    case (Comparing h)
    then show ?thesis using ok write_dec [OF i t x, of "Write W_DecOld z"] by (simp add: still_wok)
  qed
qed

lemma W_DecOld_keeps:
  assumes i: "cinv S" and t: "t < threads S" and x: "pcs S t = Write W_DecOld z"
  shows "wp (write_step uf t W_DecOld z) (keeps S t) (mem S)"
proof -
  have ok: "wok (mem S) z" "\<exists>h. w_purpose z = Comparing h" using pc_invD [OF i t] x by simp_all
  then obtain h where h: "w_purpose z = Comparing h" by blast
  then show ?thesis using ok write_dec [OF i t x, of "Ret h"] by (simp add: wok_def still_hok)
qed

section \<open>Helping\<close>

lemma slot_val_nodes: "nodes w' = nodes w \<Longrightarrow> slot_val w' = slot_val w"
  by (rule slot_val_cong) simp_all

lemma mail_other:
  assumes i: "cinv S" and n: "n < threads S" "n \<noteq> t" and t: "t < threads S" and h: "ctl w' n = ctl (mem S) n"
    and ho: "\<And>e. e \<noteq> purse t (pcs S t) (mem S) \<Longrightarrow> handover w' e = handover (mem S) e"
  shows "mail n (pcs S n) w' p = mail n (pcs S n) (mem S) p"
proof -
  have "purse n (pcs S n) (mem S) \<noteq> purse t (pcs S t) (mem S)"
    using cinvD(4) [OF i] n t by (auto simp: purses_def inj_on_def)
  then have eq: "handover w' (purse n (pcs S n) (mem S)) = handover (mem S) (purse n (pcs S n) (mem S))" by (rule ho)
  show ?thesis
  proof (cases "plain (pcs S n)")
    case True
    then show ?thesis using eq by (simp add: plain_mail plain_purse h split: if_splits)
  next
    case False
    then have "transaction (pcs S n) = None" by (cases "pcs S n" rule: plain.cases) auto
    then have "ctl (mem S) n = IDLE" by (rule plain_outside [OF i n(1)])
    then show ?thesis using False eq by (cases "pcs S n" rule: plain.cases) (auto simp: mail_def purse_def h)
  qed
qed

lemma W_Hand_keeps:
  assumes i: "cinv S" and t: "t < threads S" and x: "pcs S t = Write (W_Hand j c r th) z"
  shows "wp (write_step uf t (W_Hand j c r th) z) (keeps S t) (mem S)"
proof -
  have inv: "seen (mem S) t j c" "r \<noteq> debt_none" "ctl (mem S) j = c \<longrightarrow> adr (mem S) j = w_addr z \<and> th = spc (mem S) j"
    "wok (mem S) z" "cell (mem S) (w_addr z)" using pc_invD [OF i t] x by simp_all
  have idle: "ctl (mem S) t = IDLE" by (rule plain_outside [OF i t]) (simp add: x)
  let ?my = "spc (mem S) t"
  have pu: "purse t (pcs S t) (mem S) = ?my" using idle by (simp add: x plain_purse)
  have my: "?my \<noteq> 0" "?my AND TAG_MASK = 0" using cinvD(4) [OF i] t pu by (auto simp: purses_def)
  let ?w = "mem S\<lparr>handover := (handover (mem S))(?my := r)\<rparr>"
  have g: "guar t (purse t (pcs S t) (mem S)) (mem S) ?w" by (simp add: guar_def pu cell_def)
  have same: "slot_val ?w = slot_val (mem S)" by (rule slot_val_nodes) simp
  have "keeps S t (Write (W_Cas j c r th) z) ?w"
  proof (rule cinv_words [OF i t g])
    show "knows t (Write (W_Cas j c r th) z) ?w"
      using inv guar_seen [OF g inv(1)] guar_wok [OF g inv(4)] guar_cell [OF g inv(5)] ctl_invD [OF i t] idle by (simp add: knows_def ctl_inv_def x)
    show "purses (moved t (Write (W_Cas j c r th) z) ?w (bag S) S)"
    proof -
      have "purse n (((pcs S)(t := Write (W_Cas j c r th) z)) n) ?w = purse n (pcs S n) (mem S)" for n
        using pu idle purse_cong [of ?w n "mem S"] by (cases "n = t") (simp_all add: plain_purse)
      then show ?thesis using cinvD(4) [OF i] by (simp add: purses_def)
    qed
    show "balanced (moved t (Write (W_Cas j c r th) z) ?w (bag S) S)"
    proof (rule balanced_words [OF i t])
      fix n p assume "n < threads S" "n \<noteq> t"
      then show "mail n (pcs S n) ?w p = mail n (pcs S n) (mem S) p"
        by (intro mail_other [OF i _ _ t]) (auto simp: pu)
    qed (use idle in \<open>simp_all add: x plain_mail owed_def\<close>)
  qed (use same in \<open>auto simp: x\<close>)
  then show ?thesis using my by simp
qed

lemma W_Cas_wins:
  assumes i: "cinv S" and t: "t < threads S" and x: "pcs S t = Write (W_Cas (j::nid) c r th) z" and c: "ctl (mem S) j = c"
  shows "keeps S t (Write (W_Offer j th) z) (upd_helping j (\<lambda>hs. hs\<lparr>control := spc (mem S) t OR REPLACEMENT_TAG\<rparr>) (mem S))"
    (is "keeps S t ?y ?w")
proof -
  have inv: "seen (mem S) t j c" "r \<noteq> debt_none" "th = spc (mem S) j" "handover (mem S) (spc (mem S) t) = r"
    "wok (mem S) z" using pc_invD [OF i t] x c by simp_all
  have j: "j < threads S" "j \<noteq> t" using inv(1) by (simp_all add: seen_def)
  have tag: "ctl (mem S) j AND TAG_MASK = GEN_TAG" using published_tag inv(1) c by (auto simp: seen_def)
  have idle: "ctl (mem S) t = IDLE" by (rule plain_outside [OF i t]) (simp add: x)
  let ?my = "spc (mem S) t"
  have pu: "purse t (pcs S t) (mem S) = ?my" using idle by (simp add: x plain_purse)
  have my: "?my AND TAG_MASK = 0" using cinvD(4) [OF i] t pu by (auto simp: purses_def)
  note rp = replacement_tagged [OF my]
  have nrj: "\<not> is_replacement (ctl (mem S) j)" using tag by (simp add: is_replacement_def tag_defs)
  have plj: "plain (pcs S j)"
    using ctl_invD [OF i j(1)] tag by (cases "pcs S j" rule: plain.cases) (auto simp: ctl_inv_def tag_defs)
  have puj: "purse j (pcs S j) (mem S) = th" using plj nrj inv(3) by (simp add: plain_purse)
  have hj: "helping (nodes ?w ! j) = helping (nodes (mem S) ! j)\<lparr>control := ?my OR REPLACEMENT_TAG\<rparr>"
    using j by (simp add: helping_upd_helping)
  have ho: "helping (nodes ?w ! n) = helping (nodes (mem S) ! n)" if "n \<noteq> j" "n < threads S" for n
    using that by (simp add: helping_upd_helping)
  have ht: "helping (nodes ?w ! t) = helping (nodes (mem S) ! t)" by (rule ho) (use j t in auto)
  have g: "guar t (purse t (pcs S t) (mem S)) (mem S) ?w"
    unfolding guar_def
  proof (intro conjI allI impI)
    fix n assume n: "n < threads S" "n \<noteq> t"
    show "adr ?w n = adr (mem S) n" "spc ?w n = spc (mem S) n" using hj ho [of n] n by (cases "n = j"; simp)+
    show "ctl ?w n = ctl (mem S) n \<or> ctl (mem S) n AND TAG_MASK = GEN_TAG \<and> is_replacement (ctl ?w n) \<and>
        handover ?w (envelope (ctl ?w n)) \<noteq> debt_none"
      using hj ho [of n] n tag rp inv by (cases "n = j") auto
  qed (simp_all add: cell_def fast_upd_helping ht)
  have same: "slot_val ?w = slot_val (mem S)" "owed ?w p = owed (mem S) p" for p
    by (rule slot_upd_helping, simp)+
  show ?thesis
  proof (rule cinv_words [OF i t g])
    show "knows t ?y ?w"
      using j guar_wok [OF g inv(5)] ctl_invD [OF i t] idle ht by (simp add: knows_def ctl_inv_def x)
    show "purses (moved t ?y ?w (bag S) S)"
    proof -
      define f where "f n = (if n = t then j else if n = j then t else n)" for n
      have new: "purse n (((pcs S)(t := ?y)) n) ?w = purse (f n) (pcs S (f n)) (mem S)" if "n < threads S" for n
      proof -
        consider "n = t" | "n = j" "n \<noteq> t" | "n \<noteq> t" "n \<noteq> j" by blast
        then show ?thesis
        proof cases
          case 1
          then show ?thesis using ht idle puj by (simp add: purse_def f_def)
        next
          case 2
          then show ?thesis using hj rp pu by (simp add: purse_def f_def)
        next
          case 3
          then show ?thesis using purse_cong [OF ho] that by (simp add: f_def)
        qed
      qed
      have fin: "f n < threads S" if "n < threads S" for n using that j t by (simp add: f_def)
      have inj: "f n = f m \<Longrightarrow> n = m" for n m by (auto simp: f_def split: if_splits)
      have "inj_on (\<lambda>n. purse n (pcs S n) (mem S)) {..<threads S}" using cinvD(4) [OF i] by (simp add: purses_def)
      then have "inj_on (\<lambda>n. purse n (((pcs S)(t := ?y)) n) ?w) {..<threads S}"
        using new fin inj unfolding inj_on_def by (metis lessThan_iff)
      moreover have "purse n (((pcs S)(t := ?y)) n) ?w \<noteq> 0 \<and> purse n (((pcs S)(t := ?y)) n) ?w AND TAG_MASK = 0"
        if "n < threads S" for n
        unfolding new [OF that] using cinvD(4) [OF i] fin [OF that] by (auto simp: purses_def)
      ultimately show ?thesis unfolding purses_def moved_simps by auto
    qed
    show "balanced (moved t ?y ?w (bag S) S)"
      unfolding balanced_def moved_simps
    proof (intro allI impI)
      fix p :: usize assume p: "p \<noteq> debt_none"
      let ?M = "moved t ?y ?w (bag S) S"
      have len: "length (nodes ?w) = threads S" by simp
      have "OWN ?M + {#r#} + hold ?y (bag S) = OWN S + hold ?y (bag S)"
        using OWN_moved [OF t len, of ?y "bag S"] by (simp add: x)
      then have "OWN S = add_mset r (OWN ?M)" by simp
      then have o: "count (OWN ?M) p + (if r = p then 1 else 0) = count (OWN S) p" by simp
      have n: "on p (IOUS ?M) = on p (IOUS S)"
        using arg_cong [OF IOUS_moved [OF t len, of ?y "bag S"], of "on p"] by (simp add: x)
      have "mail n (((pcs S)(t := ?y)) n) ?w p = mail n (pcs S n) (mem S) p + (if n = j then if r = p then 1 else 0 else 0)"
        if n: "n < threads S" for n
      proof -
        consider "n = t" | "n = j" "n \<noteq> t" | "n \<noteq> t" "n \<noteq> j" by blast
        then show ?thesis
        proof cases
          case 1
          then show ?thesis using ht idle j x by (simp add: mail_def)
        next
          case 2
          then show ?thesis using hj rp inv(4) nrj plj by (simp add: plain_mail)
        next
          case 3
          then show ?thesis using mail_cong [OF ho] n by simp
        qed
      qed
      then have m: "MAIL ?M p = MAIL S p + (if r = p then 1 else 0)"
        using j by (simp add: MAIL_def sum.distrib)
      show "refs ?w p + owed ?w p = count (OWN ?M) p + on p (IOUS ?M) + stored (storage ?w) p + MAIL ?M p"
        using cinvD(5) [OF i] p o n m by (simp add: balanced_def same(2) split: if_splits)
    qed
    fix n a p assume "n < threads S" "\<not> is_replacement (ctl ?w n)" "awaits (ctl ?w n) (pcs S t) a p n"
    then show "awaits (ctl ?w n) ?y a p n" using hj rp x by (cases "n = j") auto
  qed (simp_all add: x same)
qed

lemma W_Cas_keeps:
  assumes i: "cinv S" and t: "t < threads S" and x: "pcs S t = Write (W_Cas j c r th) z"
  shows "wp (write_step uf t (W_Cas j c r th) z) (keeps S t) (mem S)"
proof (cases "ctl (mem S) j = c")
  case True
  then show ?thesis using W_Cas_wins [OF i t x] by simp
next
  case False
  have inv: "seen (mem S) t j c" "r \<noteq> debt_none" "wok (mem S) z" "cell (mem S) (w_addr z)"
    using pc_invD [OF i t] x by simp_all
  have j: "j < threads S" using inv(1) by (simp add: seen_def)
  have "keeps S t (Give (G_Dec r) (ToHelp z j (ctl (mem S) j))) (mem S)"
    by (rule write_look [OF i t x]) (use inv j False ctl_cases [OF i t j] x in auto)
  then show ?thesis using False by simp
qed

lemma W_Offer_keeps:
  assumes i: "cinv S" and t: "t < threads S" and x: "pcs S t = Write (W_Offer j th) z"
  shows "wp (write_step uf t (W_Offer j th) z) (keeps S t) (mem S)"
proof -
  have inv: "j < threads S" "wok (mem S) z" using pc_invD [OF i t] x by simp_all
  have idle: "ctl (mem S) t = IDLE" by (rule plain_outside [OF i t]) (simp add: x)
  have gen: "gnr (mem S) t AND TAG_MASK = 0" using ctl_invD [OF i t] by (simp add: ctl_inv_def)
  let ?w = "upd_helping t (\<lambda>hs. hs\<lparr>space_offer := th\<rparr>) (mem S)"
  have h: "helping (nodes ?w ! t) = helping (nodes (mem S) ! t)\<lparr>space_offer := th\<rparr>" using t by (simp add: helping_upd_helping)
  have ow: "own_words t (mem S) ?w" by (rule own_words_upd) simp
  have noGen: "ctl ?w t AND TAG_MASK \<noteq> GEN_TAG" using h idle by (simp add: tag_defs)
  have k: "wok ?w z" by (rule guar_wok [OF own_words_guar [OF ow] inv(2)]) (use noGen h in simp_all)
  have "keeps S t (Write (W_Pay j 0) z) ?w"
  proof (rule cinv_own_words [OF i t ow])
    show "knows t (Write (W_Pay j 0) z) ?w" using inv k gen h idle by (simp add: knows_def ctl_inv_def)
    fix s p assume "left (pcs S t) p s"
    then show "left (Write (W_Pay j 0) z) p s" using x by auto
  qed (use noGen h idle in \<open>auto simp: x purse_def mail_def\<close>)
  then show ?thesis by simp
qed

lemma write_keeps:
  assumes "cinv S" and "t < threads S" and "pcs S t = Write v z"
  shows "wp (write_step uf t v z) (keeps S t) (mem S)"
  using assms W_Inc_keeps W_Reserve_keeps W_Control_keeps W_Addr_keeps W_Again_keeps W_Their_keeps W_Hand_keeps
    W_Cas_keeps W_Offer_keeps W_Pay_keeps W_Paid_keeps W_Release_keeps W_Dec_keeps W_DecOld_keeps
  by (cases v) (simp_all only:)

section \<open>Taking the pointer out of a storage\<close>

lemma cinv_swap:
  assumes i: "cinv S" and t: "t < threads S" and n: "nodes w' = nodes (mem S)" "locals w' = locals (mem S)"
      "handover w' = handover (mem S)" "heap w' = heap (mem S)"
    and st: "storage (mem S) a = Some old" "storage w' = (storage (mem S))(a := Some new)" "new \<noteq> debt_none"
    and q: "pok (mem S) q" and pl: "plain (pcs S t)" "transaction (pcs S t) = None"
    and ow: "own (pcs S t) = add_mset new (pown q)" "ious t (pcs S t) = pnotes q" "conf (pcs S t) = set_mset (pnotes q)"
    and lf: "\<And>p s. \<not> left (pcs S t) p s" "\<And>c b p n. \<not> awaits c (pcs S t) b p n"
  shows "keeps S t (Write W_Inc (WCtx a old q)) w'"
proof -
  note sh = cinvD(1) [OF i]
  have fin: "finite (dom (storage (mem S)))" using sh by (simp add: shape_def)
  have old: "old \<noteq> debt_none" using stored_not_none [OF i st(1)] by simp
  have c: "mild (mem S) w'" by (simp add: mild_def n)
  have sv: "slot_val w' = slot_val (mem S)" by (rule slot_val_nodes [OF n(1)])
  have owed: "owed w' p = owed (mem S) p" for p by (rule owed_cong [OF n(1)])
  have cell: "cell w' b" if "cell (mem S) b" for b using that by (simp add: cell_def st(2))
  have stq: "0 < stored (storage w') p \<or> p = old" if "0 < stored (storage (mem S)) p" for p
    using that stored_upd [OF fin, of a "Some new" p] st(1,2) by (auto split: if_splits)
  show ?thesis
  proof (rule cinv_mild [OF i t c cell])
    show "finite (dom (storage w'))" "\<forall>a. storage w' a \<noteq> Some debt_none"
      using sh st by (simp_all add: shape_def)
    show "pc_inv t (Write W_Inc (WCtx a old q)) w'"
      using q old st(2) by (cases q) (simp_all add: wok_def cell_def hok_def n)
    show "hok w' h" if "h \<in> set (bag S)" for h using cinvD(3) [OF i that] by (simp add: hok_def n)
    show "purse t (Write W_Inc (WCtx a old q)) (mem S) = purse t (pcs S t) (mem S)" using pl by (simp add: plain_purse)
    fix p :: usize assume "p \<noteq> debt_none"
    show "refs w' p + owed w' p + count (hold (pcs S t) (bag S)) p + on p (book t (pcs S t) (bag S))
          + stored (storage (mem S)) p + mail t (pcs S t) (mem S) p
        = refs (mem S) p + owed (mem S) p + count (hold (Write W_Inc (WCtx a old q)) (bag S)) p
          + on p (book t (Write W_Inc (WCtx a old q)) (bag S))
          + stored (storage w') p + mail t (Write W_Inc (WCtx a old q)) (mem S) p"
      using stored_upd [OF fin, of a "Some new" p] st pl by (auto simp: n(4) owed ow plain_mail split: if_splits)
  next
    fix s p
    assume "(s, p) \<in> bconf (Write W_Inc (WCtx a old q)) (bag S)"
    then show "(s, p) \<in> bconf (pcs S t) (bag S) \<or> 0 < stored (storage w') p \<or> (\<exists>n<threads S. n \<noteq> t \<and> left (pcs S n) p s)"
      by (simp add: bconf_def ow)
  next
    fix m b p
    show "(storage (mem S) b = Some p \<longrightarrow> storage w' b = Some p \<or>
          awaits (ctl (mem S) m) (Write W_Inc (WCtx a old q)) b p m) \<and>
        (awaits (ctl (mem S) m) (pcs S t) b p m \<longrightarrow> awaits (ctl (mem S) m) (Write W_Inc (WCtx a old q)) b p m)"
      using st lf by auto
  qed (use pl stq lf in \<open>auto simp: sv ow\<close>)
qed

lemma Swap_Out_keeps:
  assumes i: "cinv S" and t: "t < threads S" and x: "pcs S t = Swap_Out a new q"
  shows "wp (pc_step uf t (Swap_Out a new q)) (keeps S t) (mem S)"
proof -
  have inv: "cell (mem S) a" "new \<noteq> debt_none" "q = Swapping \<or> q = Storing" using pc_invD [OF i t] x by simp_all
  obtain old where old: "storage (mem S) a = Some old" using inv(1) by (auto simp: cell_def)
  have "keeps S t (Write W_Inc (WCtx a old q)) (mem S\<lparr>storage := (storage (mem S))(a := Some new)\<rparr>)"
    by (rule cinv_swap [OF i t _ _ _ _ old]) (use inv in \<open>auto simp: x\<close>)
  then show ?thesis using old by (simp add: wp_ptr_swap)
qed

lemma begin_drop_simps:
  "own (begin_drop h d) = hown h + down d" "ious t (begin_drop h d) = hnotes h + dnotes d"
  "conf (begin_drop h d) = set_mset (dnotes d)" "plain (begin_drop h d)" "transaction (begin_drop h d) = None"
  "candidate (begin_drop h d) = None"
  by (simp_all add: begin_drop_def hown_def hnotes_def split: option.splits)

lemma begin_drop_inv: "hok w h \<Longrightarrow> dinv t d w \<Longrightarrow> pc_inv t (begin_drop h d) w"
  by (cases h) (auto simp: begin_drop_def hok_def split: option.splits)

lemma exchange_fails:
  assumes i: "cinv S" and t: "t < threads S" and x: "pcs S t = Exchange a cur new h" and c: "still (mem S) w'"
    and w: "nodes w' = nodes (mem S)" "heap w' = heap (mem S)"
  shows "keeps S t (begin_drop h (ToCas a cur new)) w'"
proof (rule cinv_look [OF i t c])
  have inv: "cell (mem S) a" "new \<noteq> debt_none" "hok (mem S) h" using pc_invD [OF i t] x by simp_all
  show "proceeds S t (begin_drop h (ToCas a cur new)) w' (bag S)"
    unfolding proceeds_def x using inv cinvD(3) [OF i]
    by (auto simp: begin_drop_simps plain_purse bconf_def still_hok [OF c] still_cell [OF c] intro!: begin_drop_inv)
  show "slot_val w' = slot_val (mem S)" by (rule slot_val_nodes [OF w(1)])
  show "owed w' p = owed (mem S) p" for p by (rule owed_cong [OF w(1)])
qed (simp_all add: x w begin_drop_simps plain_mail)

lemma Exchange_keeps:
  assumes i: "cinv S" and t: "t < threads S" and x: "pcs S t = Exchange a cur new h"
  shows "wp (pc_step uf t (Exchange a cur new h)) (keeps S t) (mem S)"
proof -
  have inv: "cell (mem S) a" "new \<noteq> debt_none" "hok (mem S) h" using pc_invD [OF i t] x by simp_all
  obtain old where old: "storage (mem S) a = Some old" using inv(1) by (auto simp: cell_def)
  have fails: "keeps S t (begin_drop h (ToCas a cur new)) w'" if "w' = mem S \<or> w' = mem S\<lparr>spurious := bs\<rparr>" for w' bs
    by (rule exchange_fails [OF i t x]) (use that in \<open>auto simp: still_def mild_def\<close>)
  have wins: "keeps S t (Write W_Inc (WCtx a cur (Comparing h))) w'"
    if "old = cur" "w' = mem S\<lparr>storage := (storage (mem S))(a := Some new)\<rparr> \<or>
      w' = mem S\<lparr>spurious := bs, storage := (storage (mem S))(a := Some new)\<rparr>" for w' bs
    by (rule cinv_swap [OF i t _ _ _ _ old [unfolded that(1)]]) (use that inv in \<open>auto simp: x\<close>)
  show ?thesis using fails wins by (auto simp: wp_ptr_cas_weak [OF old] split: list.splits)
qed

section \<open>Every step\<close>

text \<open>The handles after a step of the thread \<open>t\<close>.\<close>

definition bag_after :: "'v cst \<Rightarrow> tid \<Rightarrow> hnd list" where
  "bag_after S t = (case pcs S t of Ret h \<Rightarrow> bag S @ [h] | _ \<Rightarrow> bag S)"

lemma Ret_keeps:
  assumes i: "cinv S" and t: "t < threads S" and x: "pcs S t = Ret h"
  shows "cinv (moved t Idle (mem S) (bag S @ [h]) S)"
proof (rule cinv_look [OF i t still_refl])
  show "proceeds S t Idle (mem S) (bag S @ [h])"
    unfolding proceeds_def x using pc_invD [OF i t] x cinvD(3) [OF i] by (auto simp: plain_purse bconf_def)
qed (simp_all add: x plain_mail)

lemma Idle_keeps:
  assumes i: "cinv S" and t: "t < threads S" and x: "pcs S t = Idle"
  shows "keeps S t Idle (mem S)"
proof -
  have "moved t Idle (mem S) (bag S) S = S" using x by (simp add: moved_def fun_upd_idem)
  then show ?thesis using i by simp
qed

theorem pc_step_keeps:
  assumes i: "cinv S" and t: "t < threads S" and go: "\<not> stopped t S"
  shows "wp (pc_step uf t (pcs S t)) (\<lambda>y w'. cinv (moved t y w' (bag_after S t) S)) (mem S)"
proof (cases "pcs S t")
  case Idle
  then show ?thesis using Idle_keeps [OF i t] by (simp add: bag_after_def)
next
  case (Ret h)
  then show ?thesis using Ret_keeps [OF i t] by (simp add: bag_after_def)
next
  case (Read r k)
  then show ?thesis using read_keeps [OF i t Read go] by (simp add: bag_after_def)
next
  case (Give g d)
  then show ?thesis using give_keeps [OF i t Give] by (simp add: bag_after_def)
next
  case (Swap_Out a new q)
  then show ?thesis using Swap_Out_keeps [OF i t] by (simp add: bag_after_def)
next
  case (Exchange a cur new h)
  then show ?thesis using Exchange_keeps [OF i t] by (simp add: bag_after_def)
next
  case (Write v z)
  then show ?thesis using write_keeps [OF i t] by (simp add: bag_after_def)
qed

end
