(* ===== verification/Schedules.thy ===== *)
theory Schedules
  imports Atomic_Writes
begin

text \<open>
  All interleavings: calls, the start, and schedules. A schedule is a list of events, a thread makes its next access
  or begins a call; \<open>play\<close> runs it.
\<close>

section \<open>Calls\<close>

lemma hold_del: "n < length b \<Longrightarrow> hown (b ! n) + sum_list (map hown (del_nth n b)) = sum_list (map hown b)"
  "n < length b \<Longrightarrow> hnotes (b ! n) + sum_list (map hnotes (del_nth n b)) = sum_list (map hnotes b)"
  using sum_list_del_nth [of n b hown] sum_list_del_nth [of n b hnotes] by (simp_all add: ac_simps)

text \<open>A call that takes its arguments and begins.\<close>

lemma call_begins:
  assumes i: "cinv S" and t: "t < threads S" and x: "pcs S t = Idle" and b: "set b' \<subseteq> set (bag S)"
    and y: "pc_inv t y (mem S)" "transaction y = None" "candidate y = None" "plain y"
    and cf: "conf y \<subseteq> (\<Union>h\<in>set (bag S). set_mset (hnotes h))"
    and ow: "own y + sum_list (map hown b') = sum_list (map hown (bag S))"
      "ious t y + sum_list (map hnotes b') = sum_list (map hnotes (bag S))"
  shows "cinv (moved t y (mem S) b' S)"
proof (rule cinv_look [OF i t still_refl])
  show "proceeds S t y (mem S) b'"
    unfolding proceeds_def x using y cf b cinvD(3) [OF i] by (auto simp: plain_purse bconf_def)
qed (simp_all add: x ow y plain_mail)

lemma handle_notes: "n < length b \<Longrightarrow> set_mset (hnotes (b ! n)) \<subseteq> (\<Union>h\<in>set b. set_mset (hnotes h))"
  using nth_mem by blast

lemma given_ok: "cinv S \<Longrightarrow> n < length (bag S) \<Longrightarrow> h_ptr (bag S ! n) \<noteq> debt_none"
  using cinvD(3) nth_mem by (fastforce simp: hok_def)

lemma call_takes:
  assumes i: "cinv S" and t: "t < threads S" and x: "pcs S t = Idle" and n: "n < length (bag S)" "h_debt (bag S ! n) = None"
    and y: "pc_inv t y (mem S)" "transaction y = None" "candidate y = None" "plain y"
    and ow: "own y = {#h_ptr (bag S ! n)#}" "ious t y = {#}" "conf y = {}"
  shows "cinv (moved t y (mem S) (del_nth n (bag S)) S)"
  by (rule call_begins [OF i t x set_del_nth_subset y]) (use ow hold_del [OF n(1)] n(2) in \<open>simp_all add: hown_def hnotes_def\<close>)

text \<open>A storage that is destroyed: nobody who comes back to it is left, and the debts on its pointer are paid.\<close>

lemma knows_destroyed:
  assumes k: "knows n x w" and b: "\<not> borrows x a"
  shows "knows n x (w\<lparr>storage := (storage w)(a := None)\<rparr>)"
proof -
  let ?w = "w\<lparr>storage := (storage w)(a := None)\<rparr>"
  have cell: "cell ?w c \<longleftrightarrow> c \<noteq> a \<and> cell w c" for c by (simp add: cell_def)
  have hok: "hok ?w h = hok w h" for h by (simp add: hok_def)
  then have pok: "pok ?w q = pok w q" for q by (cases q) simp_all
  have other: "wok ?w z = wok w z" "seen ?w n j c = seen w n j c" "note_ok ?w n s p = note_ok w n s p" for z j c s p
    by (simp_all add: wok_def pok seen_def published_def note_ok_def hok)
  have kin: "kinv n k ?w" if "kinv n k w" "\<not> loans k a" for k using that by (cases k) (simp_all add: cell other)
  have "pc_inv n x w" using k by (simp add: knows_def)
  then have "pc_inv n x ?w"
  proof (cases x)
    case (Read r k)
    have "rinv n r ?w" using Read \<open>pc_inv n x w\<close> b by (cases r) (simp_all add: cell other)
    then show ?thesis using Read \<open>pc_inv n x w\<close> b kin by simp
  next
    case (Give g d)
    have "ginv n g ?w" using Give \<open>pc_inv n x w\<close> by (cases g) (simp_all add: hok)
    moreover have "dinv n d ?w" using Give \<open>pc_inv n x w\<close> b by (cases d) (simp_all add: hok cell other)
    ultimately show ?thesis using Give by simp
  next
    case (Write v z)
    have "xinv n v z ?w" using Write \<open>pc_inv n x w\<close> b by (cases v) (simp_all add: cell other)
    then show ?thesis using Write \<open>pc_inv n x w\<close> by (simp add: other)
  qed (use b in \<open>simp_all add: hok cell\<close>)
  then show ?thesis using k by (simp add: knows_def ctl_inv_def split: option.splits)
qed

lemma candidate_borrows: "candidate x = Some (a, p) \<Longrightarrow> borrows x a"
  by (cases x rule: candidate.cases) auto

lemma destroy_keeps:
  assumes i: "cinv S" and t: "t < threads S" and x: "pcs S t = Idle" and st: "storage (mem S) a = Some old"
    and un: "unused a S" and q: "q = Swapping \<or> q = Storing"
  shows "cinv (moved t (Write W_Inc (WCtx a old q)) (mem S\<lparr>storage := (storage (mem S))(a := None)\<rparr>) (bag S) S)"
    (is "cinv (moved t ?y ?w (bag S) S)")
proof -
  note I = cinvD [OF i] and old = stored_not_none [OF i st]
  have own: "own ?y = {#old#}" "ious t ?y = {#}" "conf ?y = {}" using q by auto
  have c: "mild (mem S) ?w" and len: "length (nodes ?w) = threads S" by (simp_all add: mild_def)
  have ctl: "ctl ?w n = ctl (mem S) n" for n by simp
  have sv: "slot_val ?w = slot_val (mem S)" and owed: "owed ?w p = owed (mem S) p" for p
    by (rule slot_val_nodes, simp) (rule owed_cong, simp)
  have fin: "finite (dom (storage (mem S)))" using I(1) by (simp add: shape_def)
  have sto: "stored (storage ?w) p + (if old = p then 1 else 0) = stored (storage (mem S)) p" for p
    using stored_upd [OF fin, of a None p] st by (simp split: if_splits)
  have "shape ?w" using I(1) by (simp add: shape_def)
  moreover have "knows n (pcs (moved t ?y ?w (bag S) S) n) ?w" if n: "n < threads S" for n
  proof (cases "n = t")
    case True
    have "ctl_inv t ?y ?w" using ctl_invD [OF i t] x by (simp add: ctl_inv_def)
    then show ?thesis using True old q by (auto simp: knows_def wok_def)
  next
    case False
    then show ?thesis using knows_destroyed [OF I(2) [OF n]] un n by (simp add: unused_def list_all_iff)
  qed
  moreover have "hok ?w h" if "h \<in> set (bag S)" for h using I(3) [OF that] by (simp add: hok_def)
  moreover have "purses (moved t ?y ?w (bag S) S)" by (rule mild_purses [OF I(4) c]) (simp add: x plain_purse)
  moreover have "balanced (moved t ?y ?w (bag S) S)"
  proof (rule balanced_moved [OF I(5) t len])
    fix p :: usize
    show "refs ?w p + owed ?w p + count (hold (pcs S t) (bag S)) p + on p (book t (pcs S t) (bag S))
          + stored (storage (mem S)) p + mail t (pcs S t) (mem S) p
        = refs (mem S) p + owed (mem S) p + count (hold ?y (bag S)) p + on p (book t ?y (bag S))
          + stored (storage ?w) p + mail t ?y ?w p"
      using sto [of p] unfolding x own by (simp add: owed mild_mail [OF c] plain_mail del: fun_upd_apply split: if_splits)
  qed (simp add: mild_mail [OF c])
  moreover have "noted (moved t ?y ?w (bag S) S)"
    by (rule noted_moved [OF I(6) t len]) (simp add: sv x own)
  moreover have "guarded (moved t ?y ?w (bag S) S)"
  proof (rule guarded_moved [OF I(7) t len])
    fix s p assume "(s, p) \<in> bconf ?y (bag S)"
    then show "(s, p) \<in> bconf (pcs S t) (bag S) \<or> covered (moved t ?y ?w (bag S) S) s p" using own by (simp add: bconf_def x)
  next
    fix s p
    assume "slot_val ?w s = p"
    moreover have "0 < stored (storage ?w) p \<or> left ?y p s" if "0 < stored (storage (mem S)) p"
      using sto [of p] that by (auto split: if_splits)
    ultimately show "slot_val (mem S) s = p \<and> count (book t (pcs S t) (bag S)) (s, p) \<le> count (book t ?y (bag S)) (s, p) \<and>
          (0 < stored (storage (mem S)) p \<longrightarrow> 0 < stored (storage ?w) p \<or> left ?y p s) \<and> (left (pcs S t) p s \<longrightarrow> left ?y p s)
        \<or> count (book t (pcs S t) (bag S)) (s, p) < count (book t ?y (bag S)) (s, p)"
      unfolding sv x own by simp
  qed
  moreover have "candidates (moved t ?y ?w (bag S) S)"
  proof (rule candidates_kept [OF I(8) len t])
    fix n b p assume n: "n < threads S" "candidate (pcs S n) = Some (b, p)"
    then have "b \<noteq> a" using candidate_borrows [OF n(2)] un by (auto simp: unused_def list_all_iff)
    then show "(storage (mem S) b = Some p \<longrightarrow> storage ?w b = Some p \<or> awaits (ctl ?w n) ?y b p n) \<and>
        (awaits (ctl ?w n) (pcs S t) b p n \<longrightarrow> awaits (ctl ?w n) ?y b p n)" by (simp add: x)
  qed simp_all
  ultimately show ?thesis using len unfolding cinv_def moved_simps by simp
qed

lemma call_keeps:
  assumes i: "cinv S" and t: "t < threads S" and x: "pcs S t = Idle" and pre: "call_pre c S"
  shows "\<exists>S'. call_step uf t c S = Inr S' \<and> cinv S'"
proof (cases c)
  case (CLoad a)
  have "cinv (moved t (begin_load uf a ForUser) (mem S) (bag S) S)"
    by (rule call_begins [OF i t x]) (use CLoad pre in \<open>simp_all add: cell_def\<close>)
  then show ?thesis using CLoad by (simp add: moved_def)
next
  case (CSwap a n)
  have "cinv (moved t (Swap_Out a (h_ptr (bag S ! n)) Swapping) (mem S) (del_nth n (bag S)) S)"
    by (rule call_takes [OF i t x]) (use CSwap pre given_ok [OF i] in \<open>simp_all add: cell_def\<close>)
  then show ?thesis using CSwap by (simp add: moved_def)
next
  case (CStore a n)
  have "cinv (moved t (Swap_Out a (h_ptr (bag S ! n)) Storing) (mem S) (del_nth n (bag S)) S)"
    by (rule call_takes [OF i t x]) (use CStore pre given_ok [OF i] in \<open>simp_all add: cell_def\<close>)
  then show ?thesis using CStore by (simp add: moved_def)
next
  case (CCas a cur n)
  have "cinv (moved t (begin_load uf a (ForCas a cur (h_ptr (bag S ! n)))) (mem S) (del_nth n (bag S)) S)"
    by (rule call_takes [OF i t x]) (use CCas pre given_ok [OF i] in \<open>simp_all add: cell_def\<close>)
  then show ?thesis using CCas by (simp add: moved_def)
next
  case (CDrop n)
  then have n: "n < length (bag S)" using pre by simp
  have ok: "hok (mem S) (bag S ! n)" using cinvD(3) [OF i nth_mem [OF n]] .
  have "cinv (moved t (begin_drop (bag S ! n) ToIdle) (mem S) (del_nth n (bag S)) S)"
    by (rule call_begins [OF i t x set_del_nth_subset])
      (use begin_drop_inv [OF ok, of t ToIdle] hold_del [OF n] in \<open>simp_all add: begin_drop_simps\<close>)
  then show ?thesis using CDrop by (simp add: moved_def)
next
  case (CCash n)
  then have n: "n < length (bag S)" using pre by simp
  have ok: "hok (mem S) (bag S ! n)" using cinvD(3) [OF i nth_mem [OF n]] .
  let ?y = "case h_debt (bag S ! n) of None \<Rightarrow> Ret (bag S ! n) | Some s \<Rightarrow> Read (I_Inc (h_ptr (bag S ! n)) s) ForUser"
  have "cinv (moved t ?y (mem S) (del_nth n (bag S)) S)"
    by (rule call_begins [OF i t x set_del_nth_subset])
      (use ok hold_del [OF n] handle_notes [OF n] in
        \<open>auto simp: hok_def hown_def hnotes_def note_ok_def split: option.splits\<close>)
  then show ?thesis using CCash by (simp add: moved_def)
next
  case (CClone n)
  then have n: "n < length (bag S)" using pre by simp
  let ?p = "h_ptr (bag S ! n)"
  have ok: "?p \<noteq> debt_none" using cinvD(3) [OF i nth_mem [OF n]] by (simp add: hok_def)
  have live: "0 < refs (mem S) ?p" by (rule alive_handle [OF i nth_mem [OF n]])
  let ?w = "mem S\<lparr>heap := inc_at KArc ?p (heap (mem S))\<rparr>"
  have "cinv (moved t Idle ?w (bag S @ [Hnd ?p None]) S)"
  proof (rule cinv_inc [OF i t _ live])
    show "proceeds S t Idle ?w (bag S @ [Hnd ?p None])"
      unfolding proceeds_def x using ok cinvD(3) [OF i]
      by (auto simp: plain_purse bconf_def hok_def hnotes_def)
  qed (simp_all add: x hown_def hnotes_def)
  moreover have "t_inc (ArcP ?p) (mem S) = Inr (?p, ?w)"
    using rc_inc_eq [of KArc ?p "heap (mem S)"] live by (simp add: t_inc_def live_arc)
  ultimately show ?thesis using CClone x by (simp add: moved_def fun_upd_idem)
next
  case (CAlloc p v)
  then have p: "heap (mem S) p = None" "p \<noteq> debt_none" using pre by simp_all
  let ?w = "mem S\<lparr>heap := (heap (mem S))(p := Some \<lparr>strong = 1, weak = 0, pointee = v\<rparr>)\<rparr>"
  have "cinv (moved t Idle ?w (bag S @ [Hnd p None]) S)"
  proof (rule cinv_still [OF i t still_heap])
    show "proceeds S t Idle ?w (bag S @ [Hnd p None])"
      unfolding proceeds_def x using p cinvD(3) [OF i]
      by (auto simp: plain_purse bconf_def hok_def hnotes_def)
  qed (use p in \<open>auto simp: x hown_def hnotes_def rc_count_def\<close>)
  then show ?thesis using CAlloc x by (simp add: moved_def fun_upd_idem)
next
  case (CCreate a n)
  then have n: "n < length (bag S)" and d: "h_debt (bag S ! n) = None" and a: "storage (mem S) a = None"
    using pre by simp_all
  let ?p = "h_ptr (bag S ! n)"
  let ?w = "mem S\<lparr>storage := (storage (mem S))(a := Some ?p)\<rparr>"
  have ok: "?p \<noteq> debt_none" using cinvD(3) [OF i nth_mem [OF n]] by (simp add: hok_def)
  note sh = cinvD(1) [OF i]
  have fin: "finite (dom (storage (mem S)))" using sh by (simp add: shape_def)
  have sv: "slot_val ?w = slot_val (mem S)" and owed: "owed ?w p = owed (mem S) p" for p
    by (rule slot_val_nodes, simp) (rule owed_cong, simp)
  have hd: "sum_list (map hown (bag S)) = add_mset ?p (sum_list (map hown (del_nth n (bag S))))"
    "sum_list (map hnotes (bag S)) = sum_list (map hnotes (del_nth n (bag S)))"
    using hold_del [OF n] d by (simp_all add: hown_def hnotes_def)
  have sm: "0 < stored (storage ?w) p" if "0 < stored (storage (mem S)) p" for p
    using that stored_upd [OF fin, of a "Some ?p" p] a by simp
  have bc: "bconf Idle (del_nth n (bag S)) \<subseteq> bconf Idle (bag S)"
    unfolding bconf_def using set_del_nth_subset [of n "bag S"] by fastforce
  have "cinv (moved t Idle ?w (del_nth n (bag S)) S)"
  proof (rule cinv_mild [OF i t])
    show "mild (mem S) ?w" by (simp add: mild_def)
    show "hok ?w h" if "h \<in> set (del_nth n (bag S))" for h
      using cinvD(3) [OF i] set_del_nth_subset that by (fastforce simp: hok_def)
    fix p :: usize
    show "refs ?w p + owed ?w p + count (hold (pcs S t) (bag S)) p + on p (book t (pcs S t) (bag S))
          + stored (storage (mem S)) p + mail t (pcs S t) (mem S) p
        = refs (mem S) p + owed (mem S) p + count (hold Idle (del_nth n (bag S))) p + on p (book t Idle (del_nth n (bag S)))
          + stored (storage ?w) p + mail t Idle (mem S) p"
      using stored_upd [OF fin, of a "Some ?p" p] a hd
      by (simp add: x owed split: if_splits)
  qed (use sh a ok bc sm in \<open>auto simp: x sv hd cell_def shape_def\<close>)
  then show ?thesis using CCreate x by (simp add: moved_def fun_upd_idem)
next
  case (CIntoInner a)
  then obtain old where st: "storage (mem S) a = Some old" "unused a S" using pre by auto
  then show ?thesis using CIntoInner destroy_keeps [OF i t x st, of Swapping] by (simp add: moved_def)
next
  case (CDispose a)
  then obtain old where st: "storage (mem S) a = Some old" "unused a S" using pre by auto
  then show ?thesis using CDispose destroy_keeps [OF i t x st, of Storing] by (simp add: moved_def)
qed

section \<open>The start\<close>

text \<open>The envelopes the allocator gives to the nodes are aligned, not null and different from each other.\<close>

definition envelopes_ok :: "nat \<Rightarrow> (nid \<Rightarrow> usize) \<Rightarrow> bool" where
  "envelopes_ok N pl \<longleftrightarrow> inj_on pl {..<N} \<and> (\<forall>n<N. pl n \<noteq> 0 \<and> pl n AND TAG_MASK = 0)"

lemma start_cinv:
  assumes "envelopes_ok N pl"
  shows "cinv (cstart N pl sp :: 'v cst)"
proof -
  let ?S = "cstart N pl sp :: 'v cst"
  let ?w = "mem ?S"
  have len: "length (nodes ?w) = N" by (simp add: cstart_def)
  have nd: "nodes ?w ! n = node_default\<lparr>helping := helping_init (pl n) helping_slots_default,
      next_node := (if n = 0 then None else Some (n - 1))\<rparr>" if "n < N" for n
    using that by (simp add: cstart_def)
  have hp: "helping (nodes ?w ! n) = \<lparr>control = IDLE, slot = debt_none, active_addr = 0, space_offer = pl n\<rparr>"
    and fs: "fast (nodes ?w ! n) = replicate DEBT_SLOT_CNT debt_none" if "n < N" for n
    using that by (simp_all add: nd helping_init_def helping_slots_default_def node_default_def fast_slots_default_def)
  have pc: "pcs ?S = (\<lambda>_. Idle)" "bag ?S = []" by (simp_all add: cstart_def)
  have st: "storage ?w = (\<lambda>_. None)" "heap ?w = (\<lambda>_. None)" by (simp_all add: cstart_def start_world_def)
  have gn: "gnr ?w n = 0" for n by (simp add: cstart_def local_default_def)
  have rd: "slot_val ?w s = debt_none" for s
    by (cases s) (auto simp: slot_val_def slot_ok_def len hp fs)
  have own: "OWN ?S = {#}" "IOUS ?S = {#}" by (simp_all add: OWN_def IOUS_def pc)
  have pu: "purse n Idle ?w = pl n" if "n < N" for n using that by (simp add: purse_def hp)
  have ml: "MAIL ?S p = 0" for p by (simp add: MAIL_def pc len mail_def hp)
  have "read_slot s ?w = debt_none" if "s \<in> set (slot_list ?w)" for s
    using that rd [of s] by (simp add: slot_list_iff slot_val_def)
  then have ow: "owed ?w p = 0" if "p \<noteq> debt_none" for p
    using that by (simp add: owed_slots filter_empty_conv)
  have "shape ?w" by (simp add: shape_def len fs st)
  moreover have "knows t (pcs ?S t) ?w" if "t < N" for t using that by (simp add: knows_def ctl_inv_def pc hp gn)
  moreover have "purses ?S" using assms pu by (auto simp: purses_def len pc envelopes_ok_def inj_on_def)
  moreover have "balanced ?S" by (simp add: balanced_def own ml ow st rc_count_def stored_def)
  moreover have "noted ?S" by (simp add: noted_def rd)
  moreover have "guarded ?S" by (simp add: guarded_def confs_def pc)
  moreover have "candidates ?S" by (simp add: candidates_def pc)
  ultimately show ?thesis by (simp add: cinv_def len pc)
qed

section \<open>All schedules\<close>

lemma run_keeps:
  assumes "cinv S" and "t < threads S" and "\<not> stopped t S"
  shows "\<exists>S'. run_thread uf t S = Inr S' \<and> cinv S'"
proof -
  obtain y w' where "pc_step uf t (pcs S t) (mem S) = Inr (y, w')" "cinv (moved t y w' (bag_after S t) S)"
    using pc_step_keeps [OF assms, of uf] by (auto simp: wp_result)
  then show ?thesis by (simp add: run_thread_def moved_def bag_after_def)
qed

lemma happen_keeps: "cinv S \<Longrightarrow> \<exists>S'. happen uf e S = Inr S' \<and> cinv S'"
  by (cases e) (auto intro: run_keeps call_keeps)

lemma play_keeps: "cinv S \<Longrightarrow> \<exists>S'. play uf es S = Inr S' \<and> cinv S'"
proof (induction es arbitrary: S)
  case (Cons e es)
  obtain S1 where "happen uf e S = Inr S1" "cinv S1" using happen_keeps [OF Cons.prems] by blast
  then show ?case using Cons.IH by simp
qed simp

lemma cstep_keeps: "cstep uf S S' \<Longrightarrow> cinv S \<Longrightarrow> cinv S'"
proof (induction rule: cstep.induct)
  case (go t S S')
  then show ?case using run_keeps [of S t uf] by auto
next
  case (call t S x S')
  then show ?case using call_keeps [of S t x uf] by auto
qed

lemma creachable_cinv: "creachable uf N pl sp S \<Longrightarrow> envelopes_ok N pl \<Longrightarrow> cinv S"
  by (induction rule: creachable.induct) (auto intro: start_cinv cstep_keeps)

lemma play_append: "play uf (es @ fs) S = (case play uf es S of Inl f \<Rightarrow> Inl f | Inr S' \<Rightarrow> play uf fs S')"
  by (induction es arbitrary: S) (auto split: sum.splits)

text \<open>Schedules reach exactly the reachable states.\<close>

lemma happen_cstep: "happen uf e S = Inr S' \<Longrightarrow> S' = S \<or> cstep uf S S'"
  by (cases e) (auto split: if_splits intro: cstep.intros)

lemma cstep_happen: "cstep uf S S' \<Longrightarrow> \<exists>e. happen uf e S = Inr S'"
proof (induction rule: cstep.induct)
  case (go t S S')
  then show ?case by (intro exI [of _ "Tick t"]) simp
next
  case (call t S x S')
  then show ?case by (intro exI [of _ "Call t x"]) simp
qed

lemma play_creachable:
  "creachable uf N pl sp S \<longleftrightarrow> (\<exists>es. play uf es (cstart N pl sp) = Inr S)"
proof
  assume "creachable uf N pl sp S"
  then show "\<exists>es. play uf es (cstart N pl sp) = Inr S"
  proof (induction rule: creachable.induct)
    case start
    show ?case by (intro exI [of _ "[]"]) simp
  next
    case (step S S')
    then obtain es e where "play uf es (cstart N pl sp) = Inr S" "happen uf e S = Inr S'"
      using cstep_happen by blast
    then show ?case by (intro exI [of _ "es @ [e]"]) (simp add: play_append)
  qed
next
  have "creachable uf N pl sp S0 \<Longrightarrow> play uf es S0 = Inr S \<Longrightarrow> creachable uf N pl sp S" for es S0
  proof (induction es arbitrary: S0)
    case (Cons e es)
    then obtain S1 where "happen uf e S0 = Inr S1" "play uf es S1 = Inr S" by (auto split: sum.splits)
    then show ?case using Cons happen_cstep [of uf e S0 S1] by (auto intro: creachable.step)
  qed simp
  then show "\<exists>es. play uf es (cstart N pl sp) = Inr S \<Longrightarrow> creachable uf N pl sp S"
    using creachable.start by blast
qed

end
