(* ===== verification/Progress.thy ===== *)
theory Progress
  imports Schedules
begin

text \<open>
  What follows for all schedules: exact accounts when nobody is in the middle of an operation, values that
  stay behind their handles, and loads that end after a bounded number of their own steps.
\<close>

section \<open>Accounts at rest\<close>

definition quiescent :: "'v cst \<Rightarrow> bool" where
  "quiescent S \<longleftrightarrow> (\<forall>t<threads S. pcs S t = Idle)"

definition handles_on :: "'v cst \<Rightarrow> usize \<Rightarrow> nat" where
  "handles_on S p = length (filter (\<lambda>h. h_ptr h = p) (bag S))"

lemma handle_account: "count (sum_list (map hown b)) p + on p (sum_list (map hnotes b)) = length (filter (\<lambda>h. h_ptr h = p) b)"
  by (induction b) (auto simp: hown_def hnotes_def split: option.splits)

lemma rest_account:
  assumes i: "cinv S" and r: "quiescent S" and p: "p \<noteq> debt_none"
  shows "refs (mem S) p + owed (mem S) p = handles_on S p + stored (storage (mem S)) p"
proof -
  have x: "pcs S t = Idle" if "t < threads S" for t using r that by (simp add: quiescent_def)
  have "OWN S = sum_list (map hown (bag S))" "IOUS S = sum_list (map hnotes (bag S))"
    by (simp_all add: OWN_def IOUS_def x)
  moreover have "MAIL S p = 0"
    using x plain_outside [OF i] by (simp add: MAIL_def mail_def)
  ultimately show ?thesis
    using cinvD(5) [OF i] p handle_account [of "bag S" p] by (simp add: balanced_def handles_on_def)
qed

lemma rest_no_debts:
  assumes i: "cinv S" and r: "quiescent S" and b: "bag S = []"
  shows "slot_val (mem S) s = debt_none"
proof -
  have "IOUS S = {#}" using r b by (simp add: IOUS_def quiescent_def)
  then show ?thesis using cinvD(6) [OF i] by (auto simp: noted_def)
qed

section \<open>Values\<close>

abbreviation value_at :: "'v cst \<Rightarrow> usize \<Rightarrow> 'v option" where
  "value_at S p \<equiv> map_option pointee (heap (mem S) p)"

text \<open>A step makes no node and changes no value in the heap.\<close>

definition same_values :: "'v world \<Rightarrow> 'v world \<Rightarrow> bool" where
  "same_values w w' \<longleftrightarrow> length (nodes w') = length (nodes w) \<and>
     (\<forall>q. heap w' q \<noteq> None \<longrightarrow> map_option pointee (heap w' q) = map_option pointee (heap w q))"

lemma same_values_inc [simp]: "same_values w (w\<lparr>heap := inc_at k p (heap w)\<rparr>)"
  by (simp add: same_values_def pointee_inc_at)

lemma same_values_dec [simp]: "same_values w (w\<lparr>heap := dec_at k p (heap w)\<rparr>)"
  by (auto simp: same_values_def pointee_dec_at)

lemma same_values_trans: "same_values w w' \<Longrightarrow> same_values w' w'' \<Longrightarrow> same_values w w''"
  unfolding same_values_def by (metis option.map_disc_iff)

definition keeps_values :: "('v world, 'a) op \<Rightarrow> bool" where
  "keeps_values m \<longleftrightarrow> (\<forall>w a w'. m w = Inr (a, w') \<longrightarrow> same_values w w')"

named_theorems values_intro \<open>operations that keep the values in the heap\<close>

lemma kv_ret [values_intro]: "keeps_values (ret a)"
  by (simp add: keeps_values_def ret_def same_values_def)

lemma kv_raise [values_intro]: "keeps_values (raise e)"
  by (simp add: keeps_values_def raise_def)

lemma kv_gets [values_intro]: "keeps_values (gets f)"
  by (simp add: keeps_values_def gets_def same_values_def)

lemma kv_modify [values_intro]: "(\<And>w. heap (f w) = heap w \<and> length (nodes (f w)) = length (nodes w)) \<Longrightarrow> keeps_values (modify f)"
  by (simp add: keeps_values_def modify_def same_values_def)

lemma kv_bnd [values_intro]: "keeps_values m \<Longrightarrow> (\<And>a. keeps_values (f a)) \<Longrightarrow> keeps_values (bnd m f)"
  unfolding keeps_values_def bnd_def by (auto split: sum.splits) (metis same_values_trans)

lemma kv_require [values_intro]: "keeps_values (require e b)"
  by (simp add: require_def kv_ret kv_raise)

lemma kv_unwrap [values_intro]: "keeps_values (unwrap e x)"
  by (simp add: unwrap_def kv_ret kv_raise split: option.splits)

lemma kv_if [values_intro]: "keeps_values m \<Longrightarrow> keeps_values n \<Longrightarrow> keeps_values (if b then m else n)"
  by simp

lemma rc_inc_arc: "rc_inc (ArcP p) h = (if live KArc h p then Inr (p, inc_at KArc p h) else Inl (Use_After_Free p))"
  using rc_inc_eq [of KArc p h] by simp

lemma kv_t_inc [values_intro]: "keeps_values (t_inc (ArcP p))"
  unfolding keeps_values_def by (auto simp: t_inc_def rc_inc_arc split: sum.splits if_splits)

lemma kv_t_dec [values_intro]: "keeps_values (t_dec KArc p)"
  unfolding keeps_values_def by (auto simp: t_dec_def heap_op_def rc_dec_eq split: if_splits)

lemma kv_ptr_load [values_intro]: "keeps_values (ptr_load a)"
  unfolding ptr_load_def by (intro values_intro)

lemma kv_ptr_store [values_intro]: "keeps_values (ptr_store a p)"
  unfolding ptr_store_def by (intro values_intro) simp

lemma kv_ptr_swap [values_intro]: "keeps_values (ptr_swap a p)"
  unfolding ptr_swap_def by (intro values_intro)

lemma kv_fails_spuriously [values_intro]: "keeps_values fails_spuriously"
  by (auto simp: keeps_values_def fails_spuriously_def same_values_def split: list.splits)

lemma kv_ptr_cas_weak [values_intro]: "keeps_values (ptr_cas_weak a cur new)"
  unfolding ptr_cas_weak_def ptr_cas_def by (intro values_intro)

lemma kv_debt_pay [values_intro]: "keeps_values (debt_pay s p)"
  unfolding debt_pay_def by (intro values_intro) simp

lemma kv_read: "keeps_values (read_step t r)"
  by (cases r) (auto intro!: values_intro simp: Let_def split: prod.splits)

lemma kv_give: "keeps_values (give_step g)"
  by (cases g) (auto intro!: values_intro)

lemma kv_examine [values_intro]: "keeps_values (examine t x j c)"
  by (auto simp: examine_def intro!: values_intro)

lemma kv_dropped [values_intro]: "keeps_values (dropped uf t d)"
  by (cases d) (auto intro!: values_intro)

lemma kv_write: "keeps_values (write_step uf t v z)"
  by (cases v) (auto intro!: values_intro simp: reserve_writer_def release_writer_def split: prod.splits)

lemma kv_pc: "keeps_values (pc_step uf t x)"
  by (cases x) (auto intro!: values_intro kv_read kv_give kv_write split: option.splits prod.splits)

lemma happen_values:
  assumes i: "cinv S" and h: "happen uf e S = Inr S'" and q: "0 < refs (mem S) q" "0 < refs (mem S') q"
  shows "value_at S' q = value_at S q"
proof -
  have q': "heap (mem S') q \<noteq> None" "heap (mem S) q \<noteq> None" using q by (auto simp: rc_count_def split: option.splits)
  show ?thesis
  proof (cases e)
    case (Tick t)
    show ?thesis
    proof (cases "t < threads S \<and> \<not> stopped t S")
      case True
      then obtain y where "pc_step uf t (pcs S t) (mem S) = Inr (y, mem S')"
        using h Tick by (auto simp: run_thread_def split: sum.splits prod.splits)
      then have "same_values (mem S) (mem S')" using kv_pc [of uf t "pcs S t"] unfolding keeps_values_def by blast
      then show ?thesis using q' by (simp add: same_values_def)
    next
      case False
      then show ?thesis using h Tick by auto
    qed
  next
    case (Call t c)
    show ?thesis
    proof (cases "t < threads S \<and> pcs S t = Idle \<and> call_pre c S")
      case True
      then have st: "call_step uf t c S = Inr S'" using h Call by simp
      show ?thesis
      proof (cases c)
        case (CClone n)
        then obtain p where "t_inc (ArcP (h_ptr (bag S ! n))) (mem S) = Inr (p, mem S')"
          using st by (auto split: sum.splits prod.splits)
        then have "same_values (mem S) (mem S')" using kv_t_inc [of "h_ptr (bag S ! n)"] unfolding keeps_values_def by blast
        then show ?thesis using q' by (simp add: same_values_def)
      next
        case (CAlloc p v)
        then show ?thesis using st q' True by (auto split: if_splits)
      qed (use st in \<open>auto split: option.splits\<close>)
    next
      case False
      then show ?thesis using h Call by auto
    qed
  qed
qed

section \<open>Loads end\<close>

text \<open>The number of accesses a load has still to make at most.\<close>

fun read_rank :: "rpc \<Rightarrow> nat" where
  "read_rank (L_Ptr a) = 22"
| "read_rank (L_Slot a p i) = 13 + (DEBT_SLOT_CNT - i)"
| "read_rank (L_Take a p j) = 12"
| "read_rank (L_Confirm a p s) = 11"
| "read_rank (L_Pay a p s) = 10"
| "read_rank (F_Addr a) = 9"
| "read_rank (F_Gen a) = 8"
| "read_rank (F_Load a) = 7"
| "read_rank (F_Slot a p) = 6"
| "read_rank (F_Control a p) = 5"
| "read_rank (F_Open p e) = 4"
| "read_rank (F_Space p e r) = 3"
| "read_rank (F_PayOld p r) = 2"
| "read_rank (F_DecOld p r) = 1"
| "read_rank (I_Inc p s) = 3"
| "read_rank (I_Pay p s) = 2"
| "read_rank (I_Dec p) = 1"

lemma read_rank_less:
  assumes "read_step t r w = Inr (Inl r', w')" and len: "length (fast (nodes w ! t)) = DEBT_SLOT_CNT"
  shows "read_rank r' < read_rank r"
proof (cases r)
  case (L_Slot a p i)
  then show ?thesis
    using assms by (auto simp: bnd_def gets_def ret_def Let_def DEBT_SLOT_CNT_def split: if_splits)
qed (use assms in \<open>auto simp: bnd_def gets_def modify_def require_def unwrap_def raise_def ret_def ptr_load_def DEBT_SLOT_CNT_def
    split: if_splits sum.splits prod.splits option.splits\<close>)

text \<open>What another thread does leaves the program counter of a thread alone.\<close>

lemma happen_other:
  assumes h: "happen uf e S = Inr S'" and x: "pcs S t = Read r k" and e: "e \<noteq> Tick t"
  shows "pcs S' t = Read r k"
proof (cases e)
  case (Tick n)
  then show ?thesis using h x e by (auto simp: run_thread_def split: sum.splits if_splits)
next
  case (Call n c)
  then show ?thesis using h x by (cases c) (auto split: sum.splits if_splits)
qed

fun ticks :: "tid \<Rightarrow> 'v event list \<Rightarrow> nat" where
  "ticks t [] = 0"
| "ticks t (Tick n # es) = (if n = t then 1 else 0) + ticks t es"
| "ticks t (Call n c # es) = ticks t es"

lemma happen_read:
  assumes i: "cinv S" and t: "t < threads S" and go: "\<not> stopped t S" and x: "pcs S t = Read r k"
    and h: "happen uf (Tick t) S = Inr S'"
  shows "(\<exists>r'. pcs S' t = Read r' k \<and> read_rank r' < read_rank r) \<or> (\<exists>h. pcs S' t = loaded_by h k)"
proof -
  obtain y w' where s: "read_step t r (mem S) = Inr (y, w')" and p: "pcs S' t = resume k y"
    using h t go x by (auto simp: run_thread_def bnd_def ret_def split: sum.splits prod.splits)
  have "length (fast (nodes (mem S) ! t)) = DEBT_SLOT_CNT" using cinvD(1) [OF i] t by (simp add: shape_def)
  then show ?thesis using read_rank_less [of t r "mem S"] s p by (cases y) auto
qed

lemma happen_threads:
  assumes h: "happen uf e S = Inr S'"
  shows "threads S' = threads S"
proof (cases e)
  case (Tick t)
  show ?thesis
  proof (cases "t < threads S \<and> \<not> stopped t S")
    case True
    then obtain y where "pc_step uf t (pcs S t) (mem S) = Inr (y, mem S')"
      using h Tick by (auto simp: run_thread_def split: sum.splits prod.splits)
    then have "same_values (mem S) (mem S')" using kv_pc [of uf t "pcs S t"] unfolding keeps_values_def by blast
    then show ?thesis by (simp add: same_values_def)
  next
    case False
    then show ?thesis using h Tick by auto
  qed
next
  case (Call t c)
  then show ?thesis using h by (cases c) (auto simp: t_inc_def split: sum.splits prod.splits if_splits)
qed

text \<open>
  A load that is given as many accesses as its rank says ends, whatever the other threads do in between, unless the generation of
  its thread would wrap around.
\<close>

lemma load_ends:
  assumes "cinv S" and "t < threads S" and "pcs S t = Read r k" and "read_rank r \<le> ticks t es"
  shows "\<exists>es1 es2 S1. es = es1 @ es2 \<and> play uf es1 S = Inr S1 \<and> (stopped t S1 \<or> (\<exists>h. pcs S1 t = loaded_by h k))"
  using assms
proof (induction es arbitrary: S r)
  case Nil
  then show ?case by (cases r) (auto simp: DEBT_SLOT_CNT_def)
next
  case (Cons e es)
  obtain S' where h: "happen uf e S = Inr S'" and i': "cinv S'" using happen_keeps [OF Cons.prems(1)] by blast
  have t': "t < threads S'" using happen_threads [OF h] Cons.prems(2) by simp
  have later: ?case if go: "pcs S' t = Read r' k" "read_rank r' \<le> ticks t es" for r'
  proof -
    obtain es1 es2 S1 where "es = es1 @ es2" "play uf es1 S' = Inr S1" "stopped t S1 \<or> (\<exists>h. pcs S1 t = loaded_by h k)"
      using Cons.IH [OF i' t' go] by blast
    then show ?thesis using h by (intro exI [of _ "e # es1"] exI [of _ es2] exI [of _ S1]) simp
  qed
  show ?case
  proof (cases "e = Tick t")
    case False
    then have "ticks t (e # es) = ticks t es" by (cases e) auto
    then show ?thesis using later happen_other [OF h Cons.prems(3) False] Cons.prems(4) by simp
  next
    case True
    show ?thesis
    proof (cases "stopped t S")
      case True
      then show ?thesis by (intro exI [of _ "[]"] exI [of _ "e # es"] exI [of _ S]) simp
    next
      case False
      from happen_read [OF Cons.prems(1,2) False Cons.prems(3)] h True
      consider r' where "pcs S' t = Read r' k" "read_rank r' < read_rank r" | g where "pcs S' t = loaded_by g k" by blast
      then show ?thesis
      proof cases
        case 1
        then show ?thesis using later [of r'] Cons.prems(4) True by simp
      next
        case 2
        then show ?thesis using h by (intro exI [of _ "[e]"] exI [of _ es] exI [of _ S']) auto
      qed
    qed
  qed
qed

end
