(* ===== verification/Step_Effects.thy ===== *)
theory Step_Effects
  imports Progress
begin

text \<open>
  What the steps of the machine of single accesses do to the words of the helping slots and to the envelopes, whatever state they
  start from: partial correctness, by a transformer of its own.
\<close>

section \<open>What a step does if it does not fault\<close>

definition wlp :: "('w, 'a) op \<Rightarrow> ('a \<Rightarrow> 'w \<Rightarrow> bool) \<Rightarrow> 'w \<Rightarrow> bool" where
  "wlp m Q w \<longleftrightarrow> (\<forall>a w'. m w = Inr (a, w') \<longrightarrow> Q a w')"

lemma wlp_ret [simp]: "wlp (ret a) Q w \<longleftrightarrow> Q a w"
  by (simp add: wlp_def ret_def)

lemma wlp_raise [simp]: "wlp (raise e) Q w"
  by (simp add: wlp_def raise_def)

lemma wlp_bnd [simp]: "wlp (bnd m f) Q w \<longleftrightarrow> wlp m (\<lambda>a w'. wlp (f a) Q w') w"
  by (auto simp: wlp_def bnd_def split: sum.splits)

lemma wlp_gets [simp]: "wlp (gets f) Q w \<longleftrightarrow> Q (f w) w"
  by (simp add: wlp_def gets_def)

lemma wlp_modify [simp]: "wlp (modify f) Q w \<longleftrightarrow> Q () (f w)"
  by (simp add: wlp_def modify_def)

lemma wlp_require [simp]: "wlp (require e b) Q w \<longleftrightarrow> (b \<longrightarrow> Q () w)"
  by (simp add: require_def)

lemma wlp_t_inc [simp]: "wlp (t_inc (ArcP p)) Q w \<longleftrightarrow> (live KArc (heap w) p \<longrightarrow> Q p (w\<lparr>heap := inc_at KArc p (heap w)\<rparr>))"
  by (simp add: wlp_def t_inc_def rc_inc_arc)

lemma wlp_t_dec [simp]: "wlp (t_dec KArc p) Q w \<longleftrightarrow> (live KArc (heap w) p \<longrightarrow> Q () (w\<lparr>heap := dec_at KArc p (heap w)\<rparr>))"
  by (simp add: wlp_def t_dec_def heap_op_def rc_dec_eq)

lemma wlp_ptr_load [simp]: "wlp (ptr_load a) Q w \<longleftrightarrow> (\<forall>p. storage w a = Some p \<longrightarrow> Q p w)"
  by (auto simp: ptr_load_def unwrap_def split: option.splits)

lemma wlp_ptr_store [simp]: "wlp (ptr_store a p) Q w \<longleftrightarrow> Q () (w\<lparr>storage := (storage w)(a := Some p)\<rparr>)"
  by (simp add: ptr_store_def)

lemma wlp_debt_pay [simp]:
  "wlp (debt_pay s p) Q w \<longleftrightarrow> (if read_slot s w = p then Q True (write_slot s debt_none w) else Q False w)"
  by (simp add: debt_pay_def)

lemma wlp_fails [simp]: "wlp fails_spuriously Q w \<longleftrightarrow>
    (case spurious w of [] \<Rightarrow> Q False w | b # bs \<Rightarrow> Q b (w\<lparr>spurious := bs\<rparr>))"
  unfolding wlp_def fails_spuriously_def by (cases "spurious w") auto

section \<open>What a load reads and will return\<close>

text \<open>The pointer a load will return as far as it is known.\<close>

fun outcome :: "'v world \<Rightarrow> rpc \<Rightarrow> usize option" where
  "outcome w (L_Slot a p i) = Some p"
| "outcome w (L_Take a p j) = Some p"
| "outcome w (L_Confirm a p s) = Some p"
| "outcome w (L_Pay a p s) = Some p"
| "outcome w (F_Slot a p) = Some p"
| "outcome w (F_Control a p) = Some p"
| "outcome w (F_Open p e) = Some (handover w e)"
| "outcome w (F_Space p e r) = Some r"
| "outcome w (F_PayOld p r) = Some r"
| "outcome w (F_DecOld p r) = Some r"
| "outcome w (I_Inc p s) = Some p"
| "outcome w (I_Pay p s) = Some p"
| "outcome w (I_Dec p) = Some p"
| "outcome w _ = None"

text \<open>What an owned pointer made of a guard starts with; whether a thread is in a load.\<close>

fun known :: "rpc \<Rightarrow> usize set" where
  "known (I_Inc p s) = {p}"
| "known r = {}"

fun reading :: "pc \<Rightarrow> bool" where
  "reading (Read r k) = True"
| "reading x = False"

lemma ctl_upd_helping: "n \<noteq> m \<Longrightarrow> helping (nodes (upd_helping m f w) ! n) = helping (nodes w ! n)"
  by (simp add: upd_helping_def nth_update)

lemma ctl_write_slot: "ctl (write_slot s x w) n = ctl w n" "spc (write_slot s x w) n = spc w n"
  using still_write_slot [of w s x] by (simp_all add: still_def mild_def)

text \<open>A step of a load writes to no envelope and to the words of no other node.\<close>

lemma read_frame:
  "wlp (read_step t r) (\<lambda>y w'. handover w' = handover w \<and> (\<forall>n. n \<noteq> t \<longrightarrow> ctl w' n = ctl w n) \<and>
      (ctl w' t = ctl w t \<or> ctl w' t = IDLE \<or> (\<exists>a. r = F_Gen a) \<and> (t < length (nodes w) \<longrightarrow> ctl w' t = (gnr w t + 4) OR GEN_TAG))) w"
  by (cases r) (auto simp: Let_def ctl_upd_helping ctl_write_slot nth_update helping_upd_helping upd_helping_def
      simp del: write_slot.simps)

lemma gen_shown:
  assumes "t < length (nodes w)"
  shows "wlp (read_step t (F_Gen a)) (\<lambda>y w'. ctl w' t = (gnr w t + 4) OR GEN_TAG) w"
  using assms by (simp add: helping_upd_helping)

text \<open>A transaction begins with a fresh generation.\<close>

lemma read_transaction:
  "wlp (read_step t r) (\<lambda>y w'. case y of
      Inl r' \<Rightarrow> transaction (Read r' k) \<noteq> None \<longrightarrow>
        transaction (Read r k) \<noteq> None \<and> ctl w' t = ctl w t \<or> (\<exists>a. r = F_Gen a)
    | Inr h \<Rightarrow> True) w"
  by (cases r) (simp_all add: Let_def ctl_write_slot nth_update upd_helping_def del: write_slot.simps)

lemma read_outcome:
  "wlp (read_step t r) (\<lambda>y w'. case y of
      Inl r' \<Rightarrow> (cell_of r' = cell_of r \<or> cell_of r' = None) \<and>
        (\<forall>q. outcome w' r' = Some q \<longrightarrow> outcome w r = Some q \<or> (\<exists>a. cell_of r = Some a \<and> storage w a = Some q) \<or>
          is_replacement (ctl w t) \<and> (\<exists>a p. r = F_Control a p) \<and> q = handover w (envelope (ctl w t)))
    | Inr h \<Rightarrow> outcome w r = Some (h_ptr h)) w"
  by (cases r) (auto simp: Let_def is_replacement_def envelope_def simp del: write_slot.simps)

text \<open>Steps that are not of a load: the only control word that changes is one that a writer answers.\<close>

definition answers :: "tid \<Rightarrow> pc \<Rightarrow> 'v world \<Rightarrow> 'v world \<Rightarrow> bool" where
  "answers t x w w' \<longleftrightarrow>
     (\<forall>n. ctl w' n = ctl w n \<or> (\<exists>c r th z. x = Write (W_Cas n c r th) z \<and> ctl w n = c \<and>
        (n < length (nodes w) \<longrightarrow> ctl w' n = spc w t OR REPLACEMENT_TAG) \<and> handover w' = handover w)) \<and>
     (handover w' = handover w \<or> (\<exists>j c r th z. x = Write (W_Hand j c r th) z) \<and>
        (\<forall>e. e \<noteq> spc w t \<longrightarrow> handover w' e = handover w e))"

lemma answers_same [simp]: "(\<And>n. ctl w' n = ctl w n) \<Longrightarrow> handover w' = handover w \<Longrightarrow> answers t x w w'"
  by (simp add: answers_def)

lemma wlp_dropped: "(\<And>y. Q y w) \<Longrightarrow> wlp (dropped uf t d) Q w"
  by (cases d) (simp_all add: examine_def)

lemma write_answers: "wlp (write_step uf t v z) (\<lambda>y w'. answers t (Write v z) w w') w"
proof (cases v)
  case (W_Cas j c r th)
  then show ?thesis by (auto simp: answers_def nth_update upd_helping_def split: if_splits)
next
  case (W_Hand j c r th)
  then show ?thesis by (simp add: answers_def)
next
  case (W_Pay j i)
  then show ?thesis by (simp add: ctl_write_slot del: write_slot.simps)
qed (simp_all add: examine_def nth_update reserve_writer_def release_writer_def upd_helping_def)

lemma pc_answers:
  assumes "\<not> reading x"
  shows "wlp (pc_step uf t x) (\<lambda>y w'. answers t x w w') w"
proof (cases x)
  case (Read r k)
  then show ?thesis using assms by simp
next
  case (Give g d)
  then show ?thesis
    by (cases g) (auto simp: ctl_write_slot intro!: wlp_dropped simp del: write_slot.simps)
next
  case (Write v z)
  then show ?thesis using write_answers [of uf t v z w] by simp
next
  case (Exchange a cur new h)
  then show ?thesis by (auto simp: ptr_cas_weak_def ptr_cas_def split: list.splits)
qed (simp_all add: ptr_swap_def)

text \<open>A load begins without an outcome; a helper comes to its load from the word with the address.\<close>

definition onset :: "pc \<Rightarrow> pc \<Rightarrow> 'v world \<Rightarrow> 'v world \<Rightarrow> bool" where
  "onset x y w w' \<longleftrightarrow> (case y of
     Read r k \<Rightarrow> outcome w' r = None \<and> transaction y = None \<and> known r = {} \<and>
       (\<forall>z j c. k = ForHelp z j c \<longrightarrow> x = Write (W_Addr j c) z \<and> cell_of r = Some (w_addr z) \<and> w' = w)
   | Write (W_Their j c r) z \<Rightarrow> False
   | Write (W_Hand j c r th) z \<Rightarrow> x = Write (W_Their j c r) z
   | Write (W_Cas j c r th) z \<Rightarrow> x = Write (W_Hand j c r th) z
   | _ \<Rightarrow> True)"

lemma onset_begin: "onset x (begin_load uf a (ForCas b cur new)) w w'"
  by (simp add: onset_def begin_load_def)

lemma onset_drop [simp]: "onset x (begin_drop h d) w w'"
  by (simp add: onset_def begin_drop_def split: option.splits)

lemma onset_examine: "wlp (examine t z j c) (\<lambda>y w'. onset x y v w') w"
  by (simp add: examine_def onset_def)

lemma onset_dropped: "wlp (dropped uf t d) (\<lambda>y w'. onset x y v w') w"
  by (cases d) (simp_all add: onset_examine onset_begin, simp_all add: onset_def)

lemma pc_onset:
  assumes "\<not> reading x"
  shows "wlp (pc_step uf t x) (\<lambda>y w'. onset x y w w') w"
proof (cases x)
  case (Read r k)
  then show ?thesis using assms by simp
next
  case (Give g d)
  then show ?thesis by (cases g) (simp_all add: onset_dropped, simp_all add: onset_def)
next
  case (Write v z)
  show ?thesis
  proof (cases v)
    case (W_Control j)
    then show ?thesis using Write by (simp add: onset_examine)
  next
    case (W_Again j c)
    then show ?thesis using Write by (simp add: onset_examine) (simp add: onset_def)
  next
    case (W_Addr j c)
    then show ?thesis using Write by (simp add: onset_def begin_load_def)
  next
    case W_Dec
    then show ?thesis using Write by (simp add: onset_def split: purpose.splits)
  next
    case W_DecOld
    then show ?thesis using Write by (simp add: onset_def split: purpose.splits)
  qed (use Write in \<open>simp_all add: onset_def next_stop_def reserve_writer_def release_writer_def split: nat.splits\<close>)
next
  case (Exchange a cur new h)
  then show ?thesis by (auto simp: ptr_cas_weak_def ptr_cas_def split: list.splits) (simp_all add: onset_def)
qed (simp_all add: ptr_swap_def onset_def)

end
