(* ===== verification/Linear.thy ===== *)
theory Linear
  imports Step_Effects
begin

text \<open>
  A load returns what was in its storage at some moment between its begin and its end, also when a writer helped it.
  The proof follows what every load could have seen so far.
\<close>

section \<open>What a load could have seen\<close>

text \<open>
  For every thread the pointers its present load could have seen: a set that starts with what is in the storage when the load
  begins and grows by whatever is stored there as long as the load may read it. A handle that is turned into an owned
  pointer counts as seen.
\<close>

type_synonym sights = "tid \<Rightarrow> usize set"

definition now :: "'v cst \<Rightarrow> rpc \<Rightarrow> usize set" where
  "now S r = (case cell_of r of None \<Rightarrow> {} | Some a \<Rightarrow> {p. storage (mem S) a = Some p})"

definition track :: "'v cst \<Rightarrow> 'v cst \<Rightarrow> sights \<Rightarrow> sights" where
  "track S S' H = (\<lambda>t. case pcs S' t of
      Read r k \<Rightarrow> (if reading (pcs S t) then H t else known r) \<union> now S' r
    | _ \<Rightarrow> H t)"

text \<open>What holds of the sights: the outcome of a load is among them, also the one a helper has sent or is going to send.\<close>

fun helps :: "'v cst \<Rightarrow> sights \<Rightarrow> tid \<Rightarrow> pc \<Rightarrow> bool" where
  "helps S H t (Read r (ForHelp z j c)) \<longleftrightarrow>
     (cell_of r = None \<or> cell_of r = Some (w_addr z)) \<and> (ctl (mem S) j = c \<longrightarrow> H t \<subseteq> H j)"
| "helps S H t (Write (W_Their j c r) z) \<longleftrightarrow> (ctl (mem S) j = c \<longrightarrow> r \<in> H j)"
| "helps S H t (Write (W_Hand j c r th) z) \<longleftrightarrow> (ctl (mem S) j = c \<longrightarrow> r \<in> H j)"
| "helps S H t (Write (W_Cas j c r th) z) \<longleftrightarrow> (ctl (mem S) j = c \<longrightarrow> r \<in> H j)"
| "helps S H t _ \<longleftrightarrow> True"

definition sees :: "'v cst \<Rightarrow> sights \<Rightarrow> tid \<Rightarrow> bool" where
  "sees S H t \<longleftrightarrow>
     (\<forall>r k. pcs S t = Read r k \<longrightarrow> now S r \<subseteq> H t \<and> (\<forall>q. outcome (mem S) r = Some q \<longrightarrow> q \<in> H t)) \<and>
     (transaction (pcs S t) \<noteq> None \<longrightarrow> is_replacement (ctl (mem S) t) \<longrightarrow> handover (mem S) (envelope (ctl (mem S) t)) \<in> H t) \<and>
     helps S H t (pcs S t)"

definition sinv :: "'v cst \<Rightarrow> sights \<Rightarrow> bool" where
  "sinv S H \<longleftrightarrow> (\<forall>t<threads S. sees S H t)"

lemma track_mono: "reading (pcs S t) \<or> \<not> reading (pcs S' t) \<Longrightarrow> H t \<subseteq> track S S' H t"
  by (cases "pcs S' t") (auto simp: track_def)

lemma track_now: "pcs S' t = Read r k \<Longrightarrow> now S' r \<subseteq> track S S' H t"
  by (auto simp: track_def)

lemma transaction_reading: "transaction x = Some a \<Longrightarrow> \<exists>r k. x = Read r k \<and> cell_of r = Some a"
  by (cases x rule: transaction.cases) auto

text \<open>A control word with a generation: its thread is in a load from the storage it shows.\<close>

lemma shown_reading:
  assumes i: "cinv S" and j: "j < threads S" and c: "ctl (mem S) j AND TAG_MASK = GEN_TAG"
  shows "\<exists>r k. pcs S j = Read r k \<and> cell_of r = Some (adr (mem S) j)"
proof (cases "transaction (pcs S j)")
  case None
  then show ?thesis using plain_outside [OF i j] c by (simp add: tag_defs)
next
  case (Some a)
  then have "adr (mem S) j = a" using ctl_invD [OF i j] by (simp add: ctl_inv_def)
  then show ?thesis using transaction_reading [OF Some] by simp
qed

section \<open>The sights of the other threads\<close>

text \<open>An event of the thread \<open>t\<close>, as the other threads see it.\<close>

definition noticed :: "'v cst \<Rightarrow> 'v cst \<Rightarrow> tid \<Rightarrow> bool" where
  "noticed S S' t \<longleftrightarrow> (\<forall>n. n \<noteq> t \<longrightarrow> pcs S' n = pcs S n) \<and>
     (answers t (pcs S t) (mem S) (mem S') \<or>
      handover (mem S') = handover (mem S) \<and> (\<forall>n. n \<noteq> t \<longrightarrow> ctl (mem S') n = ctl (mem S) n) \<and> reading (pcs S t) \<and>
      (ctl (mem S') t = ctl (mem S) t \<or> ctl (mem S') t = IDLE \<or>
          ctl (mem S') t = (gnr (mem S) t + 4) OR GEN_TAG \<and> gnr (mem S) t + 4 \<noteq> 0))"

lemma noticed_cases:
  assumes "noticed S S' t"
  shows "answers t (pcs S t) (mem S) (mem S') \<or>
    handover (mem S') = handover (mem S) \<and> (\<forall>n. n \<noteq> t \<longrightarrow> ctl (mem S') n = ctl (mem S) n) \<and> reading (pcs S t) \<and>
      (ctl (mem S') t = ctl (mem S) t \<or> ctl (mem S') t = IDLE \<or>
          ctl (mem S') t = (gnr (mem S) t + 4) OR GEN_TAG \<and> gnr (mem S) t + 4 \<noteq> 0)"
  using assms by (auto simp: noticed_def)

text \<open>An envelope another thread has is not written to.\<close>

lemma envelope_kept:
  assumes i: "cinv S" and t: "t < threads S" and n: "n < threads S" "n \<noteq> t" and no: "noticed S S' t"
  shows "handover (mem S') (purse n (pcs S n) (mem S)) = handover (mem S) (purse n (pcs S n) (mem S))"
proof (cases "\<exists>j c r th z. pcs S t = Write (W_Hand j c r th) z")
  case True
  then obtain j c r th z where x: "pcs S t = Write (W_Hand j c r th) z" by blast
  have "ctl (mem S) t = IDLE" by (rule plain_outside [OF i t]) (simp add: x)
  then have "purse t (pcs S t) (mem S) = spc (mem S) t" by (simp add: x plain_purse)
  moreover have "purse n (pcs S n) (mem S) \<noteq> purse t (pcs S t) (mem S)"
    using cinvD(4) [OF i] n t by (auto simp: purses_def inj_on_def)
  ultimately show ?thesis using noticed_cases [OF no] by (auto simp: answers_def)
next
  case False
  then show ?thesis using noticed_cases [OF no] by (auto simp: answers_def)
qed

text \<open>A generation that a writer has seen does not come back.\<close>

lemma seen_before:
  assumes i: "cinv S" and t: "t < threads S" and no: "noticed S S' t" and sn: "seen (mem S) n j c" and c: "ctl (mem S') j = c"
  shows "ctl (mem S) j = c"
proof -
  have j: "j < threads S" and pb: "published (mem S) j c" using sn by (simp_all add: seen_def)
  have tag: "c AND TAG_MASK = GEN_TAG" by (rule published_tag [OF pb])
  have notIdle: "c \<noteq> IDLE" using tag by (auto simp: tag_defs)
  from noticed_cases [OF no] show ?thesis
  proof
    assume a: "answers t (pcs S t) (mem S) (mem S')"
    show ?thesis
    proof (rule ccontr)
      assume "ctl (mem S) j \<noteq> c"
      then have ch: "ctl (mem S') j \<noteq> ctl (mem S) j" using c by simp
      then obtain r th z where x: "pcs S t = Write (W_Cas j (ctl (mem S) j) r th) z"
        and eq: "ctl (mem S') j = spc (mem S) t OR REPLACEMENT_TAG"
        using a j by (auto simp: answers_def)
      have "ctl (mem S) t = IDLE" by (rule plain_outside [OF i t]) (simp add: x)
      then have "spc (mem S) t AND TAG_MASK = 0" using cinvD(4) [OF i] t x by (auto simp: purses_def plain_purse)
      then have "is_replacement c" using replacement_tagged(2) eq c by simp
      then show False using tag by (simp add: is_replacement_def tag_defs)
    qed
  next
    assume r: "handover (mem S') = handover (mem S) \<and> (\<forall>n. n \<noteq> t \<longrightarrow> ctl (mem S') n = ctl (mem S) n) \<and> reading (pcs S t) \<and>
      (ctl (mem S') t = ctl (mem S) t \<or> ctl (mem S') t = IDLE \<or>
          ctl (mem S') t = (gnr (mem S) t + 4) OR GEN_TAG \<and> gnr (mem S) t + 4 \<noteq> 0)"
    show ?thesis
    proof (cases "j = t")
      case True
      have gen: "gnr (mem S) t AND TAG_MASK = 0" using ctl_invD [OF i t] by (simp add: ctl_inv_def)
      have "\<not> (ctl (mem S') t = (gnr (mem S) t + 4) OR GEN_TAG \<and> gnr (mem S) t + 4 \<noteq> 0)"
      proof
        assume g: "ctl (mem S') t = (gnr (mem S) t + 4) OR GEN_TAG \<and> gnr (mem S) t + 4 \<noteq> 0"
        have "gnr (mem S) t + 4 \<le> gnr (mem S) t"
          by (rule new_not_published [where c = c]) (use pb True g c gen in \<open>simp_all add: tag_defs\<close>)
        then show False using next_generation [OF gen] g by (simp add: leD)
      qed
      then show ?thesis using r True c notIdle by auto
    next
      case False
      then show ?thesis using r c by simp
    qed
  qed
qed

text \<open>
  A load on behalf of the transaction \<open>c\<close> of the node \<open>j\<close> sees no more than the reader it helps.
\<close>

lemma helped_sees:
  assumes i: "cinv S" "cinv S'" and t: "t < threads S" "threads S' = threads S" and no: "noticed S S' t"
    and sn: "seen (mem S) n j c" and c: "ctl (mem S') j = c"
  shows "ctl (mem S) j = c" and "H j \<subseteq> track S S' H j"
    and "\<exists>r k. pcs S' j = Read r k \<and> cell_of r = Some (adr (mem S') j)"
proof -
  have j: "j < threads S" and tag: "c AND TAG_MASK = GEN_TAG"
    using sn published_tag by (auto simp: seen_def)
  show old: "ctl (mem S) j = c" by (rule seen_before [OF i(1) t(1) no sn c])
  have "reading (pcs S j)" using shown_reading [OF i(1) j] old tag by auto
  then show "H j \<subseteq> track S S' H j" by (intro track_mono) simp
  show "\<exists>r k. pcs S' j = Read r k \<and> cell_of r = Some (adr (mem S') j)"
    using shown_reading [OF i(2)] j t c tag by simp
qed

lemma helped_load:
  assumes i: "cinv S" "cinv S'" and t: "t < threads S" "threads S' = threads S" and no: "noticed S S' t"
    and n: "n < threads S" and x: "pcs S n = Read r k" and y: "pcs S' n = Read r' k" and k: "k = ForHelp z j c"
    and cl: "cell_of r' = None \<or> cell_of r' = Some (w_addr z)" and sub: "ctl (mem S) j = c \<Longrightarrow> H n \<subseteq> H j"
    and c: "ctl (mem S') j = c"
  shows "track S S' H n \<subseteq> track S S' H j"
proof -
  have sn: "seen (mem S) n j c" using pc_invD [OF i(1) n] x k by simp
  note hs = helped_sees [OF i t no sn c]
  obtain r2 k2 where p: "pcs S' j = Read r2 k2" "cell_of r2 = Some (adr (mem S') j)" using hs(3) by blast
  have "adr (mem S') j = w_addr z" using pc_invD [OF i(2), of n] n t y k c by simp
  then have "now S' r' \<subseteq> now S' r2" using cl p by (auto simp: now_def)
  then have "now S' r' \<subseteq> track S S' H j" using track_now [OF p(1)] by blast
  moreover have "track S S' H n = H n \<union> now S' r'" using x y by (simp add: track_def)
  ultimately show ?thesis using sub [OF hs(1)] hs(2) by blast
qed

lemma others_see:
  assumes i: "cinv S" "cinv S'" and t: "t < threads S" "threads S' = threads S" and no: "noticed S S' t"
    and n: "n < threads S" "n \<noteq> t" and s: "sees S H n" "sees S H t"
  shows "sees S' (track S S' H) n"
proof -
  have x: "pcs S' n = pcs S n" using no n by (simp add: noticed_def)
  have mono: "H n \<subseteq> track S S' H n" by (rule track_mono) (use x in auto)
  note kept = envelope_kept [OF i(1) t(1) n no]
  have "now S' r \<subseteq> track S S' H n \<and> (\<forall>q. outcome (mem S') r = Some q \<longrightarrow> q \<in> track S S' H n)"
    if r: "pcs S n = Read r k" for r k
  proof -
    have "outcome (mem S') r = outcome (mem S) r"
    proof (cases r)
      case (F_Open p e)
      have "ctl (mem S) n = IDLE" by (rule plain_outside [OF i(1) n(1)]) (simp add: r F_Open)
      then show ?thesis using kept F_Open r by (simp add: purse_def)
    qed simp_all
    then show ?thesis using s(1) r mono track_now [where S' = S' and r = r and t = n and k = k and S = S and H = H] x by (auto simp: sees_def)
  qed
  moreover have "handover (mem S') (envelope (ctl (mem S') n)) \<in> track S S' H n"
    if tr: "transaction (pcs S n) \<noteq> None" and rp: "is_replacement (ctl (mem S') n)"
  proof (cases "ctl (mem S') n = ctl (mem S) n")
    case True
    then have "handover (mem S) (envelope (ctl (mem S) n)) \<in> H n" using s(1) tr rp by (simp add: sees_def)
    then show ?thesis using kept True rp mono by (auto simp: purse_def)
  next
    case False
    then obtain r th z where w: "pcs S t = Write (W_Cas n (ctl (mem S) n) r th) z"
      and eq: "ctl (mem S') n = spc (mem S) t OR REPLACEMENT_TAG" "handover (mem S') = handover (mem S)"
      using noticed_cases [OF no] n by (auto simp: answers_def)
    have "ctl (mem S) t = IDLE" by (rule plain_outside [OF i(1) t(1)]) (simp add: w)
    then have "spc (mem S) t AND TAG_MASK = 0" using cinvD(4) [OF i(1)] t w by (auto simp: purses_def plain_purse)
    then have "envelope (ctl (mem S') n) = spc (mem S) t" using replacement_tagged(3) eq by simp
    moreover have "handover (mem S) (spc (mem S) t) = r" using pc_invD [OF i(1) t(1)] w by simp
    moreover have "r \<in> H n" using s(2) w by (simp add: sees_def)
    ultimately show ?thesis using eq(2) mono by auto
  qed
  moreover have "helps S' (track S S' H) n (pcs S n)"
  proof -
    have hand: "r \<in> track S S' H j"
      if "ctl (mem S) j = c \<longrightarrow> r \<in> H j" "seen (mem S) n j c" "ctl (mem S') j = c" for j c r
      using helped_sees(1,2) [OF i t no that(2,3)] that(1) by blast
    note inv = pc_invD [OF i(1) n(1)] and sh = s(1) [unfolded sees_def]
    show ?thesis
    proof (cases "pcs S n")
      case (Read r k)
      then show ?thesis
        using helped_load [OF i t no n(1), of r k r] sh x by (cases k) auto
    next
      case (Write v z)
      then show ?thesis using hand inv sh by (cases v) auto
    qed simp_all
  qed
  ultimately show ?thesis unfolding sees_def x by blast
qed

section \<open>The sights of the thread that moves\<close>

lemma tick_pc:
  assumes "happen uf (Tick t) S = Inr S'" and "t < threads S" and "\<not> stopped t S"
  obtains y where "pc_step uf t (pcs S t) (mem S) = Inr (y, mem S')" and "pcs S' = (pcs S)(t := y)"
  using assms by (auto simp: run_thread_def split: sum.splits prod.splits)

lemma tick_read:
  assumes "happen uf (Tick t) S = Inr S'" and "t < threads S" and "\<not> stopped t S" and "pcs S t = Read r k"
  obtains y where "read_step t r (mem S) = Inr (y, mem S')" and "pcs S' = (pcs S)(t := resume k y)"
  using assms by (auto simp: run_thread_def bnd_def ret_def split: sum.splits prod.splits)

lemma wlpD: "wlp m Q w \<Longrightarrow> m w = Inr (a, w') \<Longrightarrow> Q a w'"
  by (simp add: wlp_def)

lemma load_sees:
  assumes i: "cinv S" "cinv S'" and t: "t < threads S" "threads S' = threads S" and x: "pcs S t = Read r k"
    and st: "read_step t r (mem S) = Inr (y, mem S')" and y: "pcs S' = (pcs S)(t := resume k y)" and s: "sees S H t"
  shows "noticed S S' t" and "sees S' (track S S' H) t"
    and "\<And>h. y = Inr h \<Longrightarrow> h_ptr h \<in> H t"
proof -
  note fr = wlpD [OF read_frame st] and oc = wlpD [OF read_outcome st]
  have g4: "gnr (mem S) t + 4 \<noteq> 0" if "r = F_Gen a" for a using pc_invD [OF i(1) t(1)] x that by simp
  show no: "noticed S S' t" unfolding noticed_def using fr g4 y x t by auto
  have seen: "now S r \<subseteq> H t" "\<And>q. outcome (mem S) r = Some q \<Longrightarrow> q \<in> H t"
    "transaction (Read r k) \<noteq> None \<Longrightarrow> is_replacement (ctl (mem S) t) \<Longrightarrow> handover (mem S) (envelope (ctl (mem S) t)) \<in> H t"
    "helps S H t (Read r k)"
    using s x by (auto simp: sees_def)
  show res: "h_ptr h \<in> H t" if "y = Inr h" for h using oc that seen(2) by simp
  have mono: "H t \<subseteq> track S S' H t" by (rule track_mono) (simp add: x)
  have pt: "pcs S' t = resume k y" using y by simp
  show "sees S' (track S S' H) t"
  proof (cases y)
    case (Inl r')
    then have y': "pcs S' t = Read r' k" using pt by simp
    have "outcome (mem S') r' = Some q \<Longrightarrow> q \<in> H t" for q
      using oc Inl seen by (auto simp: now_def split: option.splits)
    moreover have "handover (mem S') (envelope (ctl (mem S') t)) \<in> H t"
      if tr: "transaction (Read r' k) \<noteq> None" and rp: "is_replacement (ctl (mem S') t)"
    proof -
      have "transaction (Read r k) \<noteq> None \<and> ctl (mem S') t = ctl (mem S) t \<or> (\<exists>a. r = F_Gen a)"
        using wlpD [OF read_transaction [where k = k] st] Inl tr by simp
      moreover have "\<not> (\<exists>a. r = F_Gen a)"
      proof
        assume "\<exists>a. r = F_Gen a"
        then obtain a where a: "r = F_Gen a" by blast
        have "ctl (mem S') t = (gnr (mem S) t + 4) OR GEN_TAG"
          by (rule wlpD [OF gen_shown [OF t(1)] st [unfolded a]])
        moreover have "(gnr (mem S) t + 4) AND TAG_MASK = 0" using ctl_invD [OF i(1) t(1)] by (simp add: ctl_inv_def tag_defs)
        ultimately show False using rp tag_or_gen [of "gnr (mem S) t + 4"] by (simp add: is_replacement_def tag_defs)
      qed
      ultimately show ?thesis using seen(3) rp fr by auto
    qed
    moreover have "helps S' (track S S' H) t (Read r' k)"
    proof (cases k)
      case (ForHelp z j c)
      have cl: "cell_of r' = None \<or> cell_of r' = Some (w_addr z)" using seen(4) ForHelp oc Inl by auto
      show ?thesis
        using helped_load [OF i t no t(1) x y' ForHelp cl, of H] cl seen(4) ForHelp by auto
    qed simp_all
    ultimately show ?thesis unfolding sees_def y' using mono track_now [OF y'] by auto
  next
    case (Inr h)
    then have y': "pcs S' t = loaded_by h k" using pt by simp
    note hp = res [OF Inr]
    show ?thesis
    proof (cases k)
      case (ForHelp z j c)
      have sn: "seen (mem S) t j c" using pc_invD [OF i(1) t(1)] x ForHelp by simp
      have sub: "ctl (mem S) j = c \<Longrightarrow> H t \<subseteq> H j" using seen(4) ForHelp by simp
      show ?thesis
      proof (cases "h_debt h")
        case None
        then show ?thesis
          using y' ForHelp hp sub helped_sees(1,2) [OF i t no sn] by (fastforce simp: sees_def)
      next
        case (Some d)
        then have y2: "pcs S' t = Read (I_Inc (h_ptr h) d) k" using y' ForHelp by simp
        have "ctl (mem S') j = c \<Longrightarrow> track S S' H t \<subseteq> track S S' H j"
          by (rule helped_load [OF i t no t(1) x y2 ForHelp]) (use sub in simp_all)
        then show ?thesis using y2 ForHelp hp mono by (auto simp: sees_def now_def)
      qed
    qed (use y' hp in \<open>auto simp: sees_def\<close>)
  qed
qed

lemma else_sees:
  assumes i: "cinv S" "cinv S'" and t: "t < threads S" "threads S' = threads S" and x: "\<not> reading (pcs S t)"
    and st: "pc_step uf t (pcs S t) (mem S) = Inr (y, mem S')" and y: "pcs S' = (pcs S)(t := y)" and s: "sees S H t"
  shows "noticed S S' t" and "sees S' (track S S' H) t"
proof -
  note an = wlpD [OF pc_answers [OF x] st] and on = wlpD [OF pc_onset [OF x] st]
  show no: "noticed S S' t" unfolding noticed_def using an y by simp
  have pt: "pcs S' t = y" using y by simp
  have hand: "r \<in> track S S' H j"
    if "ctl (mem S) j = c \<longrightarrow> r \<in> H j" "seen (mem S) t j c" "ctl (mem S') j = c" for j c r
    using helped_sees(1,2) [OF i t no that(2,3)] that(1) by blast
  show "sees S' (track S S' H) t"
  proof (cases y)
    case (Read r k)
    note y' = pt [unfolded Read]
    have o: "outcome (mem S') r = None" "transaction (Read r k) = None" "known r = {}"
      and k: "\<And>z j c. k = ForHelp z j c \<Longrightarrow> pcs S t = Write (W_Addr j c) z \<and> cell_of r = Some (w_addr z)"
      using on Read by (auto simp: onset_def)
    have "helps S' (track S S' H) t (Read r k)"
    proof (cases k)
      case (ForHelp z j c)
      have "track S S' H t \<subseteq> track S S' H j" if c: "ctl (mem S') j = c"
      proof -
        have sn: "seen (mem S) t j c" using pc_invD [OF i(1) t(1)] k [OF ForHelp] by simp
        obtain r2 k2 where p: "pcs S' j = Read r2 k2" "cell_of r2 = Some (adr (mem S') j)"
          using helped_sees(3) [OF i t no sn c] by blast
        have "adr (mem S') j = w_addr z" using pc_invD [OF i(2), of t] t y' ForHelp c by simp
        then have "now S' r = now S' r2" using k [OF ForHelp] p by (simp add: now_def)
        moreover have "track S S' H t = now S' r" using y' x o(3) by (simp add: track_def)
        ultimately show ?thesis using track_now [OF p(1)] by simp
      qed
      then show ?thesis using ForHelp k [OF ForHelp] by simp
    qed simp_all
    then show ?thesis unfolding sees_def y' using o track_now [OF y'] by auto
  next
    case (Write v z)
    have "helps S' (track S S' H) t (Write v z)"
    proof (cases v)
      case (W_Their j c r)
      then show ?thesis using on Write by (simp add: onset_def)
    next
      case (W_Hand j c r th)
      then have p: "pcs S t = Write (W_Their j c r) z" using on Write by (simp add: onset_def)
      then show ?thesis using W_Hand hand [of j c r] s pc_invD [OF i(1) t(1)] by (auto simp: sees_def)
    next
      case (W_Cas j c r th)
      then have p: "pcs S t = Write (W_Hand j c r th) z" using on Write by (simp add: onset_def)
      then show ?thesis using W_Cas hand [of j c r] s pc_invD [OF i(1) t(1)] by (auto simp: sees_def)
    qed simp_all
    then show ?thesis by (simp add: sees_def pt Write)
  qed (simp_all add: sees_def pt)
qed

lemma call_sees:
  assumes st: "call_step uf t c S = Inr S'" and x: "pcs S t = Idle"
  shows "noticed S S' t" and "sees S' (track S S' H) t"
proof -
  have same: "handover (mem S') = handover (mem S)" "ctl (mem S') n = ctl (mem S) n" "n \<noteq> t \<Longrightarrow> pcs S' n = pcs S n" for n
    using st by (cases c; auto simp: t_inc_def split: sum.splits prod.splits option.splits)+
  then show "noticed S S' t" by (simp add: noticed_def)
  show "sees S' (track S S' H) t"
  proof (cases "\<exists>a. c = CIntoInner a \<or> c = CDispose a")
    case True
    then obtain z where "pcs S' t = Write W_Inc z" using st by (auto split: option.splits)
    then show ?thesis by (simp add: sees_def)
  next
    case False
    then show ?thesis
      using st x by (cases c) (auto simp: sees_def begin_load_def begin_drop_def track_def now_def
          split: sum.splits prod.splits option.splits if_splits)
  qed
qed

section \<open>All schedules keep the sights\<close>

lemma same_sees:
  assumes i: "cinv S" and s: "sinv S H" and n: "n < threads S"
  shows "sees S (track S S H) n"
proof -
  have eq: "track S S H m = H m" if "m < threads S" for m
    using s that by (cases "pcs S m") (auto simp: sinv_def sees_def track_def)
  have "helps S (track S S H) n (pcs S n)" if "helps S H n (pcs S n)"
  proof (cases "pcs S n")
    case (Read r k)
    then show ?thesis using that pc_invD [OF i n] n by (cases k) (auto simp: eq seen_def)
  next
    case (Write v z)
    then show ?thesis using that pc_invD [OF i n] by (cases v) (auto simp: eq seen_def)
  qed simp_all
  then show ?thesis using s n by (auto simp: sinv_def sees_def eq)
qed

lemma happen_sees:
  assumes i: "cinv S" and s: "sinv S H" and h: "happen uf e S = Inr S'"
  shows "sinv S' (track S S' H)"
proof -
  obtain S1 where "happen uf e S = Inr S1" "cinv S1" using happen_keeps [OF i] by blast
  then have i': "cinv S'" using h by simp
  have len: "threads S' = threads S" by (rule happen_threads [OF h])
  have all: "sinv S' (track S S' H)" if t: "t < threads S" and "noticed S S' t" and self: "sees S' (track S S' H) t" for t
    unfolding sinv_def len
  proof (intro allI impI)
    fix n assume n: "n < threads S"
    show "sees S' (track S S' H) n"
      using self others_see [OF i i' t len that(2) n] s t n by (cases "n = t") (auto simp: sinv_def)
  qed
  have skip: ?thesis if "S' = S" using same_sees [OF i s] that by (simp add: sinv_def)
  show ?thesis
  proof (cases e)
    case (Tick t)
    show ?thesis
    proof (cases "t < threads S \<and> \<not> stopped t S")
      case True
      then have t: "t < threads S" and go: "\<not> stopped t S" by simp_all
      have st: "sees S H t" using s t by (simp add: sinv_def)
      show ?thesis
      proof (cases "reading (pcs S t)")
        case True
        then obtain r k where x: "pcs S t = Read r k" by (cases "pcs S t") auto
        obtain y where "read_step t r (mem S) = Inr (y, mem S')" "pcs S' = (pcs S)(t := resume k y)"
          by (rule tick_read [OF h [unfolded Tick] t go x])
        from load_sees(1,2) [OF i i' t len x this st] show ?thesis by (rule all [OF t])
      next
        case False
        obtain y where "pc_step uf t (pcs S t) (mem S) = Inr (y, mem S')" "pcs S' = (pcs S)(t := y)"
          by (rule tick_pc [OF h [unfolded Tick] t go])
        from else_sees [OF i i' t len False this st] show ?thesis by (rule all [OF t])
      qed
    next
      case False
      then show ?thesis using h Tick skip by auto
    qed
  next
    case (Call t c)
    show ?thesis
    proof (cases "t < threads S \<and> pcs S t = Idle \<and> call_pre c S")
      case True
      then have "call_step uf t c S = Inr S'" using h Call by simp
      from call_sees [OF this] True show ?thesis by (auto intro: all)
    next
      case False
      then show ?thesis using h Call skip by auto
    qed
  qed
qed

lemma start_sees: "sinv (cstart N pl sp) (\<lambda>_. {})"
  by (simp add: sinv_def sees_def cstart_def)

lemma creachable_sees: "creachable uf N pl sp S \<Longrightarrow> envelopes_ok N pl \<Longrightarrow> \<exists>H. sinv S H"
proof (induction rule: creachable.induct)
  case start
  then show ?case using start_sees by blast
next
  case (step S S')
  then obtain H e where "sinv S H" "happen uf e S = Inr S'" using cstep_happen by blast
  then show ?case using happen_sees creachable_cinv [OF step.hyps(1) step.prems] by blast
qed

section \<open>Loads are linearizable\<close>

text \<open>A load that has just begun may forget what it saw before.\<close>

lemma begun_sees:
  assumes i: "cinv S" and s: "sinv S H" and t: "t < threads S" and x: "pcs S t = begin_load uf a k"
  shows "sinv S (H(t := {p. storage (mem S) a = Some p}))"
proof -
  let ?H = "H(t := {p. storage (mem S) a = Some p})"
  obtain r where x': "pcs S t = Read r k" and r: "r = L_Ptr a \<or> r = F_Addr a" using x by (auto simp: begin_load_def)
  have st: "sees S H t" using s t by (simp add: sinv_def)
  have sub: "{p. storage (mem S) a = Some p} \<subseteq> H t" using st x' r by (auto simp: sees_def now_def)
  have idle: "ctl (mem S) t = IDLE" by (rule plain_outside [OF i t]) (simp add: x)
  have ne: "ctl (mem S) t \<noteq> c" if "seen (mem S) n t c" for n c
    using that published_tag [of "mem S" t c] idle by (auto simp: seen_def tag_defs)
  have "helps S ?H n (pcs S n)" if n: "n < threads S" and h: "helps S H n (pcs S n)" for n
  proof (cases "pcs S n")
    case (Read q l)
    then show ?thesis
      using h pc_invD [OF i n] sub ne [of n] by (cases l) (auto simp: seen_def)
  next
    case (Write v z)
    then show ?thesis using h pc_invD [OF i n] ne [of n] by (cases v) auto
  qed simp_all
  moreover have "sees S H n" if "n < threads S" for n using s that by (simp add: sinv_def)
  ultimately show ?thesis using x' r by (auto simp: sinv_def sees_def now_def)
qed

lemma loaded_inj: "loaded_by h k = loaded_by g k \<Longrightarrow> h_ptr h = h_ptr g"
  by (cases k; cases h; cases g) (auto split: option.splits if_splits)

text \<open>While the schedule runs the thread stays in the load; a pointer is in a storage at some moment of a schedule.\<close>

fun within :: "rctx \<Rightarrow> pc \<Rightarrow> bool" where
  "within k (Read r k') = (k' = k)"
| "within k x = False"

fun throughout :: "(usize \<Rightarrow> bool) \<Rightarrow> tid \<Rightarrow> rctx \<Rightarrow> 'v event list \<Rightarrow> 'v cst \<Rightarrow> bool" where
  "throughout uf t k [] S = True"
| "throughout uf t k (e # es) S = (within k (pcs S t) \<and>
     (case happen uf e S of Inl f \<Rightarrow> False | Inr S' \<Rightarrow> throughout uf t k es S'))"

fun was_stored :: "(usize \<Rightarrow> bool) \<Rightarrow> 'v event list \<Rightarrow> 'v cst \<Rightarrow> usize \<Rightarrow> usize \<Rightarrow> bool" where
  "was_stored uf [] S a p = (storage (mem S) a = Some p)"
| "was_stored uf (e # es) S a p = (storage (mem S) a = Some p \<or>
     (case happen uf e S of Inl f \<Rightarrow> False | Inr S' \<Rightarrow> was_stored uf es S' a p))"

lemma within_read: "within k x \<longleftrightarrow> (\<exists>r. x = Read r k)"
  by (cases x) auto

lemma was_stored_now: "storage (mem S) a = Some p \<Longrightarrow> was_stored uf es S a p"
  by (cases es) simp_all

text \<open>In other words: at the end of an initial part of the schedule.\<close>

lemma was_stored_prefix:
  "was_stored uf es S a p \<longleftrightarrow>
     (\<exists>es1 es2 S1. es = es1 @ es2 \<and> play uf es1 S = Inr S1 \<and> storage (mem S1) a = Some p)"
proof (induction es arbitrary: S)
  case (Cons e es)
  show ?case
  proof
    assume "was_stored uf (e # es) S a p"
    then consider "storage (mem S) a = Some p" | S1 where "happen uf e S = Inr S1" "was_stored uf es S1 a p"
      by (auto split: sum.splits)
    then show "\<exists>es1 es2 S1. e # es = es1 @ es2 \<and> play uf es1 S = Inr S1 \<and> storage (mem S1) a = Some p"
    proof cases
      case 1
      then show ?thesis by (intro exI [of _ "[]"] exI [of _ "e # es"] exI [of _ S]) simp
    next
      case 2
      then obtain es1 es2 S2 where "es = es1 @ es2" "play uf es1 S1 = Inr S2" "storage (mem S2) a = Some p"
        using Cons.IH by blast
      then show ?thesis using 2(1) by (intro exI [of _ "e # es1"] exI [of _ es2] exI [of _ S2]) simp
    qed
  next
    assume "\<exists>es1 es2 S1. e # es = es1 @ es2 \<and> play uf es1 S = Inr S1 \<and> storage (mem S1) a = Some p"
    then obtain es1 es2 S1 where d: "e # es = es1 @ es2" "play uf es1 S = Inr S1" "storage (mem S1) a = Some p" by blast
    show "was_stored uf (e # es) S a p"
    proof (cases es1)
      case Nil
      then have "storage (mem S) a = Some p" using d by simp
      then show ?thesis by simp
    next
      case (Cons e1 es1')
      then show ?thesis using d Cons.IH by (auto split: sum.splits)
    qed
  qed
qed simp

lemma load_window:
  assumes "cinv S" and "sinv S H" and "t < threads S" and "pcs S t = Read r k" and "cell_of r = None \<or> cell_of r = Some a"
    and "H t \<subseteq> V" and "play uf es S = Inr S'" and "pcs S' t = loaded_by h k" and "throughout uf t k es S"
  shows "h_ptr h \<in> V \<or> was_stored uf es S a (h_ptr h)"
  using assms
proof (induction es arbitrary: S H r V)
  case Nil
  then have eq: "Read r k = loaded_by h k" by simp
  then obtain d where "r = I_Inc (h_ptr h) d"
    by (cases k) (auto split: option.splits if_splits)
  then have "h_ptr h \<in> H t" using Nil.prems(2,3,4) by (auto simp: sinv_def sees_def)
  then show ?case using Nil.prems(6) by blast
next
  case (Cons e es)
  note P = Cons.prems
  obtain S1 where h1: "happen uf e S = Inr S1" and i1: "cinv S1" using happen_keeps [OF P(1)] by blast
  have run: "play uf es S1 = Inr S'" using P(7) h1 by simp
  have t1: "t < threads S1" using happen_threads [OF h1] P(3) by simp
  have th: "throughout uf t k es S1" using P(9) h1 by simp
  note s1 = happen_sees [OF P(1,2) h1]
  have go_on: ?case if x1: "pcs S1 t = Read r1 k" and c1: "cell_of r1 = None \<or> cell_of r1 = Some a" for r1
  proof -
    have "track S S1 H t = H t \<union> now S1 r1" using x1 P(4) by (simp add: track_def)
    then have "track S S1 H t \<subseteq> V \<union> {p. storage (mem S1) a = Some p}" using P(6) c1 by (auto simp: now_def)
    from Cons.IH [OF i1 s1 t1 x1 c1 this run P(8) th]
    show ?thesis using h1 was_stored_now [of S1 a "h_ptr h" uf es] by auto
  qed
  show ?case
  proof (cases "e = Tick t \<and> \<not> stopped t S")
    case True
    then have h': "happen uf (Tick t) S = Inr S1" and go: "\<not> stopped t S" using h1 by simp_all
    obtain y where st: "read_step t r (mem S) = Inr (y, mem S1)" and p1: "pcs S1 = (pcs S)(t := resume k y)"
      by (rule tick_read [OF h' P(3) go P(4)])
    have self: "sees S H t" using P(2,3) by (simp add: sinv_def)
    show ?thesis
    proof (cases y)
      case (Inl r1)
      then have "cell_of r1 = None \<or> cell_of r1 = Some a" using wlpD [OF read_outcome st] P(5) by auto
      then show ?thesis using go_on [of r1] p1 Inl by simp
    next
      case (Inr g)
      have g: "h_ptr g \<in> V"
        using load_sees(3) [OF P(1) i1 P(3) happen_threads [OF h1] P(4) st p1 self Inr] P(6) by blast
      show ?thesis
      proof (cases es)
        case Nil
        then show ?thesis using run p1 Inr P(8) g loaded_inj [of h k g] by simp
      next
        case (Cons e2 es2)
        then have "\<exists>r1. pcs S1 t = Read r1 k" using th by (simp add: within_read)
        then obtain r1 where r1: "loaded_by g k = Read r1 k" using p1 Inr by auto
        then have "cell_of r1 = None" by (cases k) (auto split: option.splits if_splits)
        then show ?thesis using go_on [of r1] p1 Inr r1 by simp
      qed
    qed
  next
    case False
    then have "pcs S1 t = Read r k" using h1 happen_other [OF h1 P(4)] P(4) by (cases "e = Tick t") auto
    then show ?thesis using go_on P(5) by blast
  qed
qed

end
