(* ===== verification/Runs.thy ===== *)
theory Runs
  imports Linear
begin

text \<open>
  A concrete schedule of the machine of single accesses: thread 1 loads through its helping slot and has its candidate when
  thread 0 replaces the pointer; thread 0 helps, and thread 1 ends with the new pointer.
\<close>

definition ex_envelope :: "nid \<Rightarrow> usize" where
  "ex_envelope n = (if n = 0 then 64 else 128)"

definition ex_slow :: "usize \<Rightarrow> bool" where
  "ex_slow a = False"

definition ex_setup :: "nat event list" where
  "ex_setup = [Call 0 (CAlloc 4096 7), Call 0 (CCreate 16 0), Call 0 (CAlloc 8192 9), Call 1 (CLoad 16)]"

definition ex_crossing :: "nat event list" where
  "ex_crossing = replicate 4 (Tick 1) @ [Call 0 (CStore 16 0)] @ replicate 16 (Tick 0) @ replicate 4 (Tick 1)"

definition ex_rest :: "nat event list" where
  "ex_rest = Tick 1 # replicate 28 (Tick 0)"

text \<open>The state a schedule leads to.\<close>

definition ex_run :: "nat event list \<Rightarrow> nat cst" where
  "ex_run es = (case play ex_slow es (cstart 2 ex_envelope []) of Inr S \<Rightarrow> S | Inl f \<Rightarrow> cstart 2 ex_envelope [])"

lemma ex_envelopes: "envelopes_ok 2 ex_envelope"
proof -
  have "n = 0 \<or> n = 1" if "n < (2::nat)" for n using that by auto
  then show ?thesis by (auto simp: envelopes_ok_def inj_on_def ex_envelope_def tag_defs)
qed

lemma ex_play: "play ex_slow es (cstart 2 ex_envelope []) = Inr (ex_run es)"
  using play_keeps [OF start_cinv [OF ex_envelopes], of ex_slow es "[]"] by (auto simp: ex_run_def)

lemma ex_creachable: "creachable ex_slow 2 ex_envelope [] (ex_run es)"
  using ex_play play_creachable by blast

lemma ex_run_append: "play ex_slow fs (ex_run es) = Inr (ex_run (es @ fs))"
  using ex_play [of "es @ fs"] ex_play [of es] by (simp add: play_append)

lemma ex_run_begun: "pcs (ex_run ex_setup) 1 = begin_load ex_slow 16 ForUser" "threads (ex_run ex_setup) = 2"
  by code_simp+

lemma ex_run_crossed:
  "pcs (ex_run (ex_setup @ ex_crossing)) 1 = Ret (Hnd 8192 None)"
  "throughout ex_slow 1 ForUser ex_crossing (ex_run ex_setup)"
  by code_simp+

lemma ex_run_done:
  "bag (ex_run (ex_setup @ ex_crossing @ ex_rest)) = [Hnd 8192 None]"
  "pcs (ex_run (ex_setup @ ex_crossing @ ex_rest)) 0 = Idle" "pcs (ex_run (ex_setup @ ex_crossing @ ex_rest)) 1 = Idle"
  "threads (ex_run (ex_setup @ ex_crossing @ ex_rest)) = 2"
  "storage (mem (ex_run (ex_setup @ ex_crossing @ ex_rest))) 16 = Some 8192"
  by code_simp+

end
