(* ===== verification/Solo.thy ===== *)
theory Solo
  imports Runs
begin

text \<open>
  A thread that runs alone finishes its operation, wherever the others have been stopped: no thread waits for another one. The proof
  counts the accesses that are left at most.
\<close>

section \<open>The accesses an operation has left when it runs alone\<close>

text \<open>A helper whose control word is outdated goes round once more.\<close>

definition late :: "'v world \<Rightarrow> nid \<Rightarrow> usize \<Rightarrow> nat" where
  "late w j c = (if ctl w j = c then 0 else 30)"

text \<open>A load on behalf of a compare-and-swap that will return what is in the storage now.\<close>

definition timely :: "tid \<Rightarrow> usize \<Rightarrow> rpc \<Rightarrow> 'v world \<Rightarrow> bool" where
  "timely t a r w \<longleftrightarrow> \<not> is_replacement (ctl w t) \<and> (cell_of r = None \<or> cell_of r = Some a) \<and>
     (\<forall>q. outcome w r = Some q \<longrightarrow> storage w a = Some q)"

fun grank :: "gpc \<Rightarrow> nat" where
  "grank (G_Pay p s) = 2"
| "grank (G_Dec p) = 1"

fun wrank :: "'v world \<Rightarrow> wpc \<Rightarrow> nat" where
  "wrank w W_Inc = 12 + 100 * length (nodes w)"
| "wrank w (W_Reserve j) = 12 + 100 * j + 98"
| "wrank w (W_Control j) = 12 + 100 * j + 97"
| "wrank w (W_Addr j c) = 12 + 100 * j + 47 + late w j c"
| "wrank w (W_Again j c) = 12 + 100 * j + 22 + late w j c"
| "wrank w (W_Their j c r) = 12 + 100 * j + 24 + late w j c"
| "wrank w (W_Hand j c r th) = 12 + 100 * j + 23 + late w j c"
| "wrank w (W_Cas j c r th) = 12 + 100 * j + 22 + late w j c"
| "wrank w (W_Offer j th) = 12 + 100 * j + 21"
| "wrank w (W_Pay j i) = 12 + 100 * j + 2 + 2 * (Suc DEBT_SLOT_CNT - i)"
| "wrank w (W_Paid j i) = 12 + 100 * j + 3 + 2 * (DEBT_SLOT_CNT - i)"
| "wrank w (W_Release j) = 12 + 100 * j + 1"
| "wrank w W_Dec = 10"
| "wrank w W_DecOld = 5"

abbreviation round :: "'v world \<Rightarrow> nat" where
  "round w \<equiv> 13 + 100 * length (nodes w) + 60 * length (spurious w)"

fun krank :: "tid \<Rightarrow> rpc \<Rightarrow> rctx \<Rightarrow> 'v world \<Rightarrow> nat" where
  "krank t r ForUser w = 1"
| "krank t r (ForHelp z j c) w = 12 + 100 * j + 24 + late w j c"
| "krank t r (ForCas a cur new) w = round w + 30 + (if timely t a r w then 0 else 60)"

fun drank :: "dctx \<Rightarrow> 'v world \<Rightarrow> nat" where
  "drank ToIdle w = 0"
| "drank (ToRet h) w = 1"
| "drank (ToCas a cur new) w = round w + 52"
| "drank (ToHelp z j c) w = 12 + 100 * j + 47 + late w j c"

fun rank :: "tid \<Rightarrow> pc \<Rightarrow> 'v world \<Rightarrow> nat" where
  "rank t Idle w = 0"
| "rank t (Ret h) w = 1"
| "rank t (Read r k) w = krank t r k w + read_rank r"
| "rank t (Give g d) w = drank d w + grank g"
| "rank t (Swap_Out a new p) w = 13 + 100 * length (nodes w)"
| "rank t (Exchange a cur new h) w = round w + 25 + (if storage w a = Some cur then 0 else 60)"
| "rank t (Write v z) w = wrank w v"

section \<open>Every access of its own brings a thread closer to the end\<close>

text \<open>A step of a load leaves the storages alone and only a confirmed fast slot ends with a debt.\<close>

lemma read_keeps_storage:
  "wlp (read_step t r) (\<lambda>y w'. storage w' = storage w \<and> spurious w' = spurious w \<and> length (nodes w') = length (nodes w) \<and>
     (\<forall>h. y = Inr h \<longrightarrow> h_debt h \<noteq> None \<longrightarrow> read_rank r = 11)) w"
  by (cases r) (auto simp: Let_def upd_helping_def simp del: write_slot.simps)

lemma storage_write_slot [simp]: "storage (write_slot s x w) = storage w" "spurious (write_slot s x w) = spurious w"
  "length (nodes (write_slot s x w)) = length (nodes w)"
  by (cases s; simp add: upd_helping_def)+

lemma read_rank_pos: "0 < read_rank r"
  by (cases r) simp_all

lemma generation_no_envelope: "g AND TAG_MASK = 0 \<Longrightarrow> \<not> is_replacement ((g + 4) OR GEN_TAG)"
  using tag_or_gen [of "g + 4"] by (simp add: is_replacement_def tag_defs)

lemma timely_goes:
  assumes i: "cinv S" and t: "t < threads S" and x: "pcs S t = Read r k" and st: "read_step t r (mem S) = Inr (Inl r', w')"
    and tm: "timely t a r (mem S)"
  shows "timely t a r' w'"
proof -
  note fr = wlpD [OF read_frame st] and oc = wlpD [OF read_outcome st] and sm = wlpD [OF read_keeps_storage st]
  have "gnr (mem S) t AND TAG_MASK = 0" using ctl_invD [OF i t] by (simp add: ctl_inv_def)
  then have "\<not> is_replacement (ctl w' t)"
    using fr tm t generation_no_envelope by (auto simp: timely_def)
  then show ?thesis using tm oc sm by (auto simp: timely_def)
qed

lemma read_goes:
  assumes i: "cinv S" and t: "t < threads S" and x: "pcs S t = Read r k" and st: "read_step t r (mem S) = Inr (y, w')"
  shows "rank t (resume k y) w' < rank t (pcs S t) (mem S)"
proof -
  note fr = wlpD [OF read_frame st] and oc = wlpD [OF read_outcome st] and sm = wlpD [OF read_keeps_storage st]
  have lt: "late w' j c = late (mem S) j c" if "k = ForHelp z j c" for z j c
    using pc_invD [OF i t] x that fr by (simp add: seen_def late_def)
  show ?thesis
  proof (cases y)
    case (Inl r')
    have "length (fast (nodes (mem S) ! t)) = DEBT_SLOT_CNT" using cinvD(1) [OF i] t by (simp add: shape_def)
    then have "read_rank r' < read_rank r" using read_rank_less st Inl by blast
    moreover have "krank t r' k w' \<le> krank t r k (mem S)"
      using lt sm timely_goes [OF i t x st [unfolded Inl]] by (cases k) auto
    ultimately show ?thesis using Inl x by simp
  next
    case (Inr h)
    have p: "outcome (mem S) r = Some (h_ptr h)" using oc Inr by simp
    have d: "h_debt h \<noteq> None \<Longrightarrow> read_rank r = 11" using sm Inr by simp
    show ?thesis
    proof (cases k)
      case ForUser
      then show ?thesis using Inr x read_rank_pos [of r] by simp
    next
      case (ForHelp z j c)
      then show ?thesis using Inr x read_rank_pos [of r] lt [OF ForHelp] d by (auto split: option.splits)
    next
      case (ForCas a cur new)
      then show ?thesis using Inr x read_rank_pos [of r] sm p by (auto simp: timely_def)
    qed
  qed
qed

text \<open>Loads begin in time, also the ones after a drop.\<close>

lemma begin_load_rank:
  "ctl w t = IDLE \<Longrightarrow> rank t (begin_load uf a (ForCas a cur new)) w \<le> round w + 52"
  "rank t (begin_load uf a (ForHelp z j c)) w \<le> 12 + 100 * j + 46 + late w j c"
  by (simp_all add: begin_load_def timely_def)

lemma examine_rank: "wlp (examine t z j c) (\<lambda>y w'. w' = w \<and> rank t y w \<le> 12 + 100 * j + 47 + late w j c) w"
  by (simp add: examine_def DEBT_SLOT_CNT_def)

lemma dropped_rank: "ctl w t = IDLE \<Longrightarrow> wlp (dropped uf t d) (\<lambda>y w'. w' = w \<and> rank t y w \<le> drank d w) w"
  using begin_load_rank(1) [of w t uf] examine_rank by (cases d) simp_all

lemma begin_drop_rank: "rank t (begin_drop h d) w \<le> drank d w + 2"
  by (simp add: begin_drop_def split: option.splits)

lemma late_cong: "ctl w' j = ctl w j \<Longrightarrow> late w' j c = late w j c"
  by (simp add: late_def)

lemma wlp_mono: "wlp m P w \<Longrightarrow> (\<And>a w'. P a w' \<Longrightarrow> Q a w') \<Longrightarrow> wlp m Q w"
  by (simp add: wlp_def)

lemma give_goes:
  assumes idle: "ctl w t = IDLE"
  shows "wlp (pc_step uf t (Give g d)) (\<lambda>y w'. rank t y w' < rank t (Give g d) w) w"
proof -
  have end_at: "wlp (dropped uf t d) (\<lambda>y w'. rank t y w' < drank d w + grank g) v"
    if "\<And>n. ctl v n = ctl w n" "length (nodes v) = length (nodes w)" "spurious v = spurious w" for v
  proof -
    have "drank d v = drank d w" using that by (cases d) (simp_all add: late_def)
    moreover have "0 < grank g" by (cases g) simp_all
    ultimately show ?thesis using idle that by (intro wlp_mono [OF dropped_rank]) auto
  qed
  have paid: "drank d (write_slot s x w) = drank d w" for s x by (cases d) (simp_all add: late_def ctl_write_slot)
  show ?thesis
  proof (cases g)
    case (G_Pay p s)
    then show ?thesis using end_at [of "write_slot s debt_none w"]
      by (simp add: ctl_write_slot del: write_slot.simps)
  next
    case (G_Dec p)
    then show ?thesis using end_at [of "w\<lparr>heap := dec_at KArc p (heap w)\<rparr>"] by simp
  qed
qed

lemma write_goes:
  assumes inv: "pc_inv t (Write v z) w" and tN: "t < length (nodes w)" and idle: "ctl w t = IDLE"
  shows "wlp (write_step uf t v z) (\<lambda>y w'. rank t y w' < rank t (Write v z) w) w"
proof (cases v)
  case W_Inc
  then show ?thesis using tN by (cases "length (nodes w)") (simp_all add: next_stop_def)
next
  case (W_Reserve j)
  then show ?thesis by (simp add: reserve_writer_def)
next
  case (W_Control j)
  then show ?thesis by (auto intro!: wlp_mono [OF examine_rank] simp: late_def)
next
  case (W_Addr j c)
  then show ?thesis using begin_load_rank(2) [of t uf "w_addr z" z j c w] by auto
next
  case (W_Again j c)
  then show ?thesis by (auto intro!: wlp_mono [OF examine_rank] simp: late_def DEBT_SLOT_CNT_def)
next
  case (W_Their j c r)
  then show ?thesis by simp
next
  case (W_Hand j c r th)
  then show ?thesis by (simp add: late_def)
next
  case (W_Cas j c r th)
  then show ?thesis by (simp add: late_def)
next
  case (W_Offer j th)
  then show ?thesis by (simp add: DEBT_SLOT_CNT_def)
next
  case (W_Pay j i)
  then show ?thesis by (simp add: Suc_diff_le del: write_slot.simps)
next
  case (W_Paid j i)
  then show ?thesis by simp
next
  case (W_Release j)
  then show ?thesis by (simp add: release_writer_def next_stop_def split: nat.splits)
next
  case W_Dec
  then show ?thesis by (simp split: purpose.splits)
next
  case W_DecOld
  then show ?thesis by (simp split: purpose.splits)
qed

lemma exchange_goes:
  assumes "ctl w t = IDLE"
  shows "wlp (pc_step uf t (Exchange a cur new h)) (\<lambda>y w'. rank t y w' < rank t (Exchange a cur new h) w) w"
proof -
  have "rank t (begin_drop h (ToCas a cur new)) v \<le> round v + 54" for v :: "'a world"
    using begin_drop_rank [of t h "ToCas a cur new" v] by simp
  note d = this [THEN le_less_trans]
  show ?thesis
    by (auto simp: ptr_cas_weak_def ptr_cas_def intro!: d split: list.splits)
qed

text \<open>A step of a thread that is in the middle of an operation.\<close>

lemma step_goes:
  assumes i: "cinv S" and t: "t < threads S" and x: "pcs S t \<noteq> Idle" and st: "pc_step uf t (pcs S t) (mem S) = Inr (y, w')"
  shows "rank t y w' < rank t (pcs S t) (mem S)"
proof (cases "pcs S t")
  case (Read r k)
  then show ?thesis using read_goes [OF i t Read] st by (auto simp: bnd_def ret_def split: sum.splits prod.splits)
next
  case (Give g d)
  have "ctl (mem S) t = IDLE" by (rule plain_outside [OF i t]) (simp add: Give)
  from wlpD [OF give_goes [OF this] st [unfolded Give]] show ?thesis by (simp add: Give)
next
  case (Exchange a cur new h)
  have "ctl (mem S) t = IDLE" by (rule plain_outside [OF i t]) (simp add: Exchange)
  from wlpD [OF exchange_goes [OF this] st [unfolded Exchange]] show ?thesis by (simp add: Exchange)
next
  case (Write v z)
  have "ctl (mem S) t = IDLE" by (rule plain_outside [OF i t]) (simp add: Write)
  from wlpD [OF write_goes [OF _ t this, of v z uf] st [unfolded Write pc_step.simps]] show ?thesis
    using pc_invD [OF i t] by (simp add: Write)
qed (use st x in \<open>auto simp: bnd_def ret_def ptr_swap_def ptr_load_def ptr_store_def gets_def modify_def unwrap_def raise_def split: sum.splits option.splits\<close>)

section \<open>Running alone\<close>

lemma solo_ends:
  assumes "cinv S" and "t < threads S"
  shows "\<exists>n S'. n \<le> rank t (pcs S t) (mem S) \<and> play uf (replicate n (Tick t)) S = Inr S' \<and> (pcs S' t = Idle \<or> stopped t S')"
  using assms
proof (induction "rank t (pcs S t) (mem S)" arbitrary: S rule: less_induct)
  case less
  show ?case
  proof (cases "pcs S t = Idle \<or> stopped t S")
    case True
    then show ?thesis by (intro exI [of _ 0] exI [of _ S]) simp
  next
    case False
    obtain S1 where h: "happen uf (Tick t) S = Inr S1" and i1: "cinv S1" using happen_keeps [OF less.prems(1)] by blast
    then obtain y where st: "pc_step uf t (pcs S t) (mem S) = Inr (y, mem S1)" and p: "pcs S1 = (pcs S)(t := y)"
      using tick_pc [OF h less.prems(2)] False by blast
    have lt: "rank t (pcs S1 t) (mem S1) < rank t (pcs S t) (mem S)"
      using step_goes [OF less.prems _ st] False p by simp
    have "t < threads S1" using happen_threads [OF h] less.prems(2) by simp
    from less.hyps [OF lt i1 this] obtain n S' where
      "n \<le> rank t (pcs S1 t) (mem S1)" "play uf (replicate n (Tick t)) S1 = Inr S'" "pcs S' t = Idle \<or> stopped t S'"
      by blast
    then show ?thesis using lt h by (intro exI [of _ "Suc n"] exI [of _ S']) auto
  qed
qed

lemma read_rank_le: "read_rank r \<le> 22"
  by (cases r) (simp_all add: DEBT_SLOT_CNT_def)

lemma rank_le:
  assumes i: "cinv S" and t: "t < threads S"
  shows "rank t (pcs S t) (mem S) \<le> 100 * threads S + 60 * length (spurious (mem S)) + 125"
proof -
  have late: "late w j c \<le> 30" for w :: "'a world" and j c by (simp add: late_def)
  have most: "12 + 100 * j + (88 + late (mem S) j c) \<le> 100 * threads S + 60 * length (spurious (mem S)) + 125"
    if "j < threads S" for j c using that late [of "mem S" j c] by linarith
  note inv = pc_invD [OF i t]
  show ?thesis
  proof (cases "pcs S t")
    case (Read r k)
    have rr: "read_rank r \<le> 22" by (rule read_rank_le)
    show ?thesis
    proof (cases k)
      case (ForHelp z j c)
      then show ?thesis using most [of j c] inv Read rr by (simp add: seen_def)
    qed (use Read rr in simp_all)
  next
    case (Give g d)
    have gr: "grank g \<le> 2" by (cases g) simp_all
    show ?thesis
    proof (cases d)
      case (ToHelp z j c)
      then show ?thesis using most [of j c] inv Give gr by simp
    qed (use Give gr in simp_all)
  next
    case (Write v z)
    show ?thesis
    proof (cases v)
      case (W_Addr j c)
      then show ?thesis using most [of j c] inv Write by (simp add: seen_def)
    next
      case (W_Again j c)
      then show ?thesis using most [of j c] inv Write by (simp add: seen_def)
    next
      case (W_Their j c r)
      then show ?thesis using most [of j c] inv Write by (simp add: seen_def)
    next
      case (W_Hand j c r th)
      then show ?thesis using most [of j c] inv Write by (simp add: seen_def)
    next
      case (W_Cas j c r th)
      then show ?thesis using most [of j c] inv Write by (simp add: seen_def)
    qed (use Write inv in \<open>auto simp: DEBT_SLOT_CNT_def\<close>)
  qed simp_all
qed

end
