(* ===== verification/Livelock.thy ===== *)
theory Livelock
  imports Solo
begin

text \<open>
  Two writers can keep each other busy for ever. A helper loads through its own helping slot when its fast slots are
  taken; a second writer sees this transaction and helps in turn. If each finds the transaction of the other replaced by the next one whenever
  it has a replacement to offer, none of them gets on.
\<close>

section \<open>Accesses in a row\<close>

definition wraps :: "tid \<Rightarrow> pc \<Rightarrow> 'v world \<Rightarrow> bool" where
  "wraps t x w \<longleftrightarrow> (case x of Read (F_Addr a) k \<Rightarrow> gnr w t + 4 = 0 | _ \<Rightarrow> False)"

text \<open>After \<open>n\<close> accesses of the thread \<open>t\<close>, and no access of another one, \<open>Q\<close> holds; no operation is finished on the way.\<close>

fun runs :: "nat \<Rightarrow> (usize \<Rightarrow> bool) \<Rightarrow> tid \<Rightarrow> (pc \<Rightarrow> 'v world \<Rightarrow> bool) \<Rightarrow> pc \<Rightarrow> 'v world \<Rightarrow> bool" where
  "runs 0 uf t Q x w = Q x w"
| "runs (Suc n) uf t Q x w =
     ((\<forall>h. x \<noteq> Ret h) \<and> \<not> wraps t x w \<and> wlp (pc_step uf t x) (\<lambda>y w'. runs n uf t Q y w') w)"

lemma runs_mono: "runs n uf t P x w \<Longrightarrow> (\<And>y w'. P y w' \<Longrightarrow> Q y w') \<Longrightarrow> runs n uf t Q x w"
  by (induction n arbitrary: x w) (auto elim!: wlp_mono)

lemma runs_add: "runs m uf t (runs n uf t Q) x w \<Longrightarrow> runs (m + n) uf t Q x w"
  by (induction m arbitrary: x w) (auto elim!: wlp_mono)

lemma runs_play:
  assumes "cinv S" and "t < threads S" and "runs n uf t Q (pcs S t) (mem S)"
  shows "\<exists>S'. play uf (replicate n (Tick t)) S = Inr S' \<and> cinv S' \<and> Q (pcs S' t) (mem S') \<and> bag S' = bag S \<and>
    (\<forall>m. m \<noteq> t \<longrightarrow> pcs S' m = pcs S m) \<and> threads S' = threads S"
  using assms
proof (induction n arbitrary: S)
  case (Suc n)
  obtain S1 where h: "happen uf (Tick t) S = Inr S1" and i1: "cinv S1" using happen_keeps [OF Suc.prems(1)] by blast
  have go: "\<not> stopped t S" using Suc.prems(3) by (auto simp: wraps_def stopped_def split: pc.splits rpc.splits)
  obtain y where st: "pc_step uf t (pcs S t) (mem S) = Inr (y, mem S1)" and p: "pcs S1 = (pcs S)(t := y)"
    by (rule tick_pc [OF h Suc.prems(2) go])
  have b: "bag S1 = bag S"
    using h go Suc.prems(2,3) by (auto simp: run_thread_def split: sum.splits prod.splits pc.splits)
  have t1: "threads S1 = threads S" by (rule happen_threads [OF h])
  have "wlp (pc_step uf t (pcs S t)) (runs n uf t Q) (mem S)" using Suc.prems(3) by simp
  from wlpD [OF this st] have "runs n uf t Q (pcs S1 t) (mem S1)" using p by simp
  from Suc.IH [OF i1 _ this] t1 Suc.prems(2) obtain S' where
    "play uf (replicate n (Tick t)) S1 = Inr S'" "cinv S'" "Q (pcs S' t) (mem S')" "bag S' = bag S1"
    "\<forall>m. m \<noteq> t \<longrightarrow> pcs S' m = pcs S1 m" "threads S' = threads S1" by auto
  then show ?case using h b p t1 by (intro exI [of _ S']) simp
qed simp

section \<open>A futile round\<close>

text \<open>What the accesses of \<open>t\<close> leave alone.\<close>

definition apart :: "tid \<Rightarrow> 'v world \<Rightarrow> 'v world \<Rightarrow> bool" where
  "apart t w w' \<longleftrightarrow> length (nodes w') = length (nodes w) \<and> storage w' = storage w \<and> spurious w' = spurious w \<and>
     (\<forall>n. fast (nodes w' ! n) = fast (nodes w ! n)) \<and>
     (\<forall>n. n \<noteq> t \<longrightarrow> helping (nodes w' ! n) = helping (nodes w ! n) \<and> gnr w' n = gnr w n)"

lemma apart_refl: "apart t w w"
  by (simp add: apart_def)

lemma apart_trans: "apart t u v \<Longrightarrow> apart t v w \<Longrightarrow> apart t u w"
  by (simp add: apart_def)

lemma apart_own: "apart t w (upd_helping t f w)" "apart t w (upd_local (Thread t) g w)" "apart t w (w\<lparr>heap := h\<rparr>)"
    "apart t w (w\<lparr>handover := e\<rparr>)"
  by (simp_all add: apart_def upd_helping_def nth_update)

text \<open>A helper that finds its work outdated drops its replacement and begins a load for the next transaction.\<close>

lemma futile_help:
  assumes "t < length (nodes w)" and "j \<noteq> t" and "ctl w t = gnr w t OR GEN_TAG" and "ctl w j \<noteq> c"
    and "ctl w j AND TAG_MASK = GEN_TAG" and "adr w j = w_addr z"
  shows "runs 9 uf t (\<lambda>y w'. y = begin_load uf (w_addr z) (ForHelp z j (ctl w j)) \<and> apart t w w' \<and> gnr w' t = gnr w t)
    (Read (F_Slot a p) (ForHelp z j c)) w"
  using assms
  by (simp add: eval_nat_numeral wraps_def upd_helping_def nth_update apart_def examine_def tag_defs)

text \<open>The fast slots are taken, so the load comes to its helping slot.\<close>

definition full :: "'v world \<Rightarrow> tid \<Rightarrow> bool" where
  "full w t \<longleftrightarrow> length (fast (nodes w ! t)) = DEBT_SLOT_CNT \<and> (\<forall>i<DEBT_SLOT_CNT. fast (nodes w ! t) ! i \<noteq> debt_none)"

lemma futile_scan:
  assumes "full w t" and "n \<le> DEBT_SLOT_CNT"
  shows "runs (Suc n) uf t (\<lambda>y w'. y = Read (F_Addr a) k \<and> w' = w) (Read (L_Slot a p (DEBT_SLOT_CNT - n)) k) w"
  using assms(2)
proof (induction n)
  case 0
  then show ?case using assms(1) by (simp add: full_def wraps_def)
next
  case (Suc n)
  then have n: "Suc (DEBT_SLOT_CNT - Suc n) = DEBT_SLOT_CNT - n" by simp
  have "fast (nodes w ! t) ! ((DEBT_SLOT_CNT - Suc n + m) mod DEBT_SLOT_CNT) \<noteq> debt_none" for m
    using assms(1) by (simp add: full_def DEBT_SLOT_CNT_def)
  then show ?case using assms(1) Suc n by (simp add: full_def wraps_def Let_def)
qed

lemma slow_load:
  assumes t: "t < length (nodes w)" and "full w t" and st: "storage w a = Some p" and "uf a" and g: "gnr w t + 4 \<noteq> 0"
  shows "runs 12 uf t (\<lambda>y w'. y = Read (F_Load a) k \<and> apart t w w' \<and> gnr w' t = gnr w t + 4 \<and>
      ctl w' t = gnr w' t OR GEN_TAG \<and> adr w' t = a) (begin_load uf a k) w"
proof -
  let ?Q = "\<lambda>y w'. y = Read (F_Load a) k \<and> apart t w w' \<and> gnr w' t = gnr w t + 4 \<and>
      ctl w' t = gnr w' t OR GEN_TAG \<and> adr w' t = a"
  have "runs 2 uf t ?Q (Read (F_Addr a) k) w"
    using assms by (simp add: eval_nat_numeral wraps_def upd_helping_def nth_update apart_def)
  then have "runs (Suc DEBT_SLOT_CNT) uf t (runs 2 uf t ?Q) (Read (L_Slot a p 0) k) w"
    using runs_mono [OF futile_scan [OF assms(2) order_refl]] by simp
  then have "runs (Suc DEBT_SLOT_CNT + 2) uf t ?Q (Read (L_Slot a p 0) k) w" by (rule runs_add)
  then have "runs 11 uf t ?Q (Read (L_Slot a p 0) k) w" by (simp add: DEBT_SLOT_CNT_def)
  then have "runs (Suc 11) uf t ?Q (begin_load uf a k) w"
    unfolding runs.simps(2) using st \<open>uf a\<close> by (simp add: begin_load_def wraps_def)
  then show ?thesis by simp
qed

lemma futile_load:
  assumes t: "t < length (nodes w)" and "full w t" and st: "storage w a = Some p" and "uf a" and g: "gnr w t + 4 \<noteq> 0"
  shows "runs 13 uf t (\<lambda>y w'. y = Read (F_Slot a p) k \<and> apart t w w' \<and> gnr w' t = gnr w t + 4 \<and>
      ctl w' t = gnr w' t OR GEN_TAG \<and> adr w' t = a) (begin_load uf a k) w"
proof -
  have "runs (12 + 1) uf t (\<lambda>y w'. y = Read (F_Slot a p) k \<and> apart t w w' \<and> gnr w' t = gnr w t + 4 \<and>
      ctl w' t = gnr w' t OR GEN_TAG \<and> adr w' t = a) (begin_load uf a k) w"
    by (rule runs_add, rule runs_mono [OF slow_load [where uf = uf and a = a, OF assms]]) (use st in \<open>auto simp: wraps_def apart_def\<close>)
  then show ?thesis by simp
qed

lemma apart_full: "apart t w w' \<Longrightarrow> full w' n = full w n"
  by (simp add: apart_def full_def)

text \<open>A whole round of the thread \<open>t\<close> against \<open>j\<close>.\<close>

definition jammed :: "tid \<Rightarrow> nid \<Rightarrow> wctx \<Rightarrow> usize \<Rightarrow> 'v world \<Rightarrow> bool" where
  "jammed t j z p w \<longleftrightarrow> t < length (nodes w) \<and> j \<noteq> t \<and> full w t \<and> storage w (w_addr z) = Some p \<and>
     ctl w t = gnr w t OR GEN_TAG \<and> gnr w t AND TAG_MASK = 0 \<and> adr w t = w_addr z"

lemma futile_round:
  assumes "jammed t j z p w" and "uf (w_addr z)" and "gnr w t + 4 \<noteq> 0"
    and "ctl w j \<noteq> c" and "ctl w j AND TAG_MASK = GEN_TAG" and "adr w j = w_addr z"
  shows "runs 22 uf t (\<lambda>y w'. y = Read (F_Slot (w_addr z) p) (ForHelp z j (ctl w j)) \<and> apart t w w' \<and>
      jammed t j z p w' \<and> gnr w' t = gnr w t + 4) (Read (F_Slot (w_addr z) p) (ForHelp z j c)) w"
proof -
  note J = assms(1) [unfolded jammed_def]
  let ?k = "ForHelp z j (ctl w j)"
  let ?Q = "\<lambda>y w'. y = Read (F_Slot (w_addr z) p) ?k \<and> apart t w w' \<and> jammed t j z p w' \<and> gnr w' t = gnr w t + 4"
  have load: "runs 13 uf t ?Q (begin_load uf (w_addr z) ?k) v" if v: "apart t w v" "gnr v t = gnr w t" for v
  proof (rule runs_mono [OF futile_load])
    show "t < length (nodes v)" "full v t" "storage v (w_addr z) = Some p" "uf (w_addr z)" "gnr v t + 4 \<noteq> 0"
      using J v assms(2,3) apart_full [OF v(1)] by (simp_all add: apart_def)
    fix y w'
    assume q: "y = Read (F_Slot (w_addr z) p) ?k \<and> apart t v w' \<and> gnr w' t = gnr v t + 4 \<and>
        ctl w' t = gnr w' t OR GEN_TAG \<and> adr w' t = w_addr z"
    then have a: "apart t w w'" using apart_trans [OF v(1)] by blast
    have "(gnr w t + 4) AND TAG_MASK = 0" using J by (simp add: tag_defs)
    then show "?Q y w'" using q a J v apart_full [OF a] by (simp add: jammed_def apart_def)
  qed
  have "runs (9 + 13) uf t ?Q (Read (F_Slot (w_addr z) p) (ForHelp z j c)) w"
    by (rule runs_add, rule runs_mono [OF futile_help]) (use J assms load in auto)
  then show ?thesis by simp
qed

section \<open>Two writers in each other's way\<close>

text \<open>
  Both are in a load to help the other one: \<open>t\<close> for a transaction of \<open>j\<close> that is over, \<open>j\<close> for the present one of \<open>t\<close>.
\<close>

definition knot :: "tid \<Rightarrow> tid \<Rightarrow> wctx \<Rightarrow> wctx \<Rightarrow> usize \<Rightarrow> 'v cst \<Rightarrow> bool" where
  "knot t j z y p S \<longleftrightarrow> cinv S \<and> w_addr y = w_addr z \<and> jammed t j z p (mem S) \<and> jammed j t y p (mem S) \<and>
     (\<exists>c. pcs S t = Read (F_Slot (w_addr z) p) (ForHelp z j c) \<and> ctl (mem S) j \<noteq> c) \<and>
     pcs S j = Read (F_Slot (w_addr z) p) (ForHelp y t (ctl (mem S) t))"

definition entangle :: "tid \<Rightarrow> tid \<Rightarrow> 'v event list" where
  "entangle t j = replicate 22 (Tick t) @ replicate 22 (Tick j)"

lemma apart_jammed: "apart t w w' \<Longrightarrow> jammed j t y p w \<Longrightarrow> jammed j t y p w'"
  using apart_full [of t w w' j] by (auto simp: jammed_def apart_def)

lemma jammed_shows: "jammed t j z p w \<Longrightarrow> ctl w t AND TAG_MASK = GEN_TAG"
  using tag_or_gen [of "gnr w t"] by (simp add: jammed_def tag_defs)

lemma knot_round:
  assumes k: "knot t j z y p S" and u: "uf (w_addr z)"
    and g: "gnr (mem S) t + 4 \<noteq> 0" "gnr (mem S) j + 4 \<noteq> 0"
  shows "\<exists>S'. play uf (entangle t j) S = Inr S' \<and> knot t j z y p S' \<and> bag S' = bag S \<and>
    gnr (mem S') t = gnr (mem S) t + 4 \<and> gnr (mem S') j = gnr (mem S) j + 4"
proof -
  let ?a = "w_addr z"
  obtain c where i: "cinv S" and a: "w_addr y = ?a" and J: "jammed t j z p (mem S)" "jammed j t y p (mem S)"
    and pt: "pcs S t = Read (F_Slot ?a p) (ForHelp z j c)" "ctl (mem S) j \<noteq> c"
    and pj: "pcs S j = Read (F_Slot ?a p) (ForHelp y t (ctl (mem S) t))"
    using k by (auto simp: knot_def)
  have N: "t < threads S" "j < threads S" "j \<noteq> t" using J by (auto simp: jammed_def)
  have aj: "adr (mem S) j = ?a" using J a by (simp add: jammed_def)
  obtain S1 where p1: "play uf (replicate 22 (Tick t)) S = Inr S1" and i1: "cinv S1" and b1: "bag S1 = bag S"
    and o1: "\<forall>m. m \<noteq> t \<longrightarrow> pcs S1 m = pcs S m" and t1: "threads S1 = threads S"
    and q1: "pcs S1 t = Read (F_Slot ?a p) (ForHelp z j (ctl (mem S) j))" "apart t (mem S) (mem S1)"
      "jammed t j z p (mem S1)" "gnr (mem S1) t = gnr (mem S) t + 4"
    using runs_play [OF i N(1), of 22 uf] futile_round [where uf = uf and z = z, OF J(1) u g(1) pt(2) jammed_shows [OF J(2)] aj] pt(1) by auto
  have same: "ctl (mem S1) j = ctl (mem S) j" "gnr (mem S1) j = gnr (mem S) j"
    using q1(2) N by (simp_all add: apart_def)
  have J1: "jammed j t y p (mem S1)" by (rule apart_jammed [OF q1(2) J(2)])
  have next_word: "ctl w2 m \<noteq> ctl w1 m"
    if "jammed m n x r w1" "jammed m n x r w2" "gnr w2 m = gnr w1 m + 4" for m n x r and w1 w2 :: "'a world"
    using that gen_tagged_inj [of "gnr w2 m" "gnr w1 m"] by (auto simp: jammed_def tag_defs)
  have new: "ctl (mem S1) t \<noteq> ctl (mem S) t" by (rule next_word [OF J(1) q1(3,4)])
  have at: "adr (mem S1) t = w_addr y" using q1(3) a by (simp add: jammed_def)
  have pj1: "pcs S1 j = Read (F_Slot (w_addr y) p) (ForHelp y t (ctl (mem S) t))" using o1 N pj a by simp
  have uy: "uf (w_addr y)" using u a by simp
  obtain S2 where p2: "play uf (replicate 22 (Tick j)) S1 = Inr S2" and i2: "cinv S2" and b2: "bag S2 = bag S1"
    and o2: "\<forall>m. m \<noteq> j \<longrightarrow> pcs S2 m = pcs S1 m"
    and q2: "pcs S2 j = Read (F_Slot (w_addr y) p) (ForHelp y t (ctl (mem S1) t))" "apart j (mem S1) (mem S2)"
      "jammed j t y p (mem S2)" "gnr (mem S2) j = gnr (mem S1) j + 4"
    using runs_play [OF i1, of j 22 uf] N(2) t1 pj1
      futile_round [where uf = uf and z = y, OF J1 uy _ new jammed_shows [OF q1(3)] at] g(2) same(2) by auto
  have st: "ctl (mem S2) t = ctl (mem S1) t" "gnr (mem S2) t = gnr (mem S1) t"
    using q2(2) N by (simp_all add: apart_def)
  have "ctl (mem S2) j \<noteq> ctl (mem S) j" using next_word [OF J1 q2(3,4)] same(1) by simp
  then have "knot t j z y p S2"
    unfolding knot_def using i2 a q2 st apart_jammed [OF q2(2) q1(3)] o2 N q1(1) by auto
  then show ?thesis
    using p1 p2 b1 b2 q1(4) q2(4) st same by (intro exI [of _ S2]) (simp add: entangle_def play_append)
qed

lemma knot_holds:
  assumes "knot t j z y p S" and "uf (w_addr z)"
    and "unat (gnr (mem S) t) + 4 * n < 2 ^ 64" and "unat (gnr (mem S) j) + 4 * n < 2 ^ 64"
  shows "\<exists>S'. play uf (concat (replicate n (entangle t j))) S = Inr S' \<and> knot t j z y p S' \<and> bag S' = bag S"
  using assms
proof (induction n arbitrary: S)
  case (Suc n)
  have plus: "g + 4 \<noteq> 0 \<and> unat (g + 4) = unat g + 4" if "unat g + 4 * Suc n < 2 ^ 64" for g :: usize
  proof -
    have "unat (g + 4) = unat g + 4" using that by (simp add: unat_word_ariths)
    then show ?thesis by (metis add_eq_0_iff_both_eq_0 unsigned_0 zero_neq_numeral)
  qed
  note P = Suc.prems
  obtain S1 where r: "play uf (entangle t j) S = Inr S1" "knot t j z y p S1" "bag S1 = bag S"
    "gnr (mem S1) t = gnr (mem S) t + 4" "gnr (mem S1) j = gnr (mem S) j + 4"
    using knot_round [where uf = uf and z = z, OF P(1,2)] plus [OF P(3)] plus [OF P(4)] by blast
  have "unat (gnr (mem S1) t) + 4 * n < 2 ^ 64" "unat (gnr (mem S1) j) + 4 * n < 2 ^ 64"
    using r plus [OF P(3)] plus [OF P(4)] P(3,4) by simp_all
  from Suc.IH [OF r(2) P(2) this] r show ?case by (auto simp: play_append)
qed simp

section \<open>How it comes about\<close>

text \<open>
  Threads 0 and 1 have eight guards each of another storage, so their fast slots are taken. Thread 0 stores; thread 1 is in the
  load of a compare-and-swap when thread 0 comes to its node and begins to help; thread 1 exchanges the pointer, comes to the node of
  thread 0, and begins to help that load in turn.
\<close>

definition all_fast :: "usize \<Rightarrow> bool" where
  "all_fast a = True"

definition fill_slot :: "tid \<Rightarrow> nat event list" where
  "fill_slot t = Call t (CLoad 32) # replicate 5 (Tick t)"

definition knot_calls :: "nat event list" where
  "knot_calls =
     [Call 0 (CAlloc 4096 1), Call 0 (CCreate 16 0), Call 0 (CAlloc 16384 2), Call 0 (CCreate 32 0),
      Call 0 (CAlloc 8192 3), Call 0 (CAlloc 12288 4)]"

text \<open>The first \<open>n\<close> fast slots of the thread are taken.\<close>

definition taken :: "tid \<Rightarrow> nat \<Rightarrow> usize \<Rightarrow> 'v world \<Rightarrow> bool" where
  "taken t n q w \<longleftrightarrow> fast (nodes w ! t) = replicate n q @ replicate (DEBT_SLOT_CNT - n) debt_none \<and>
     offset (ln_fast (locals w (Thread t))) = n"

lemma taken_full: "taken t DEBT_SLOT_CNT q w \<Longrightarrow> q \<noteq> debt_none \<Longrightarrow> full w t"
  by (simp add: taken_def full_def)

lemma fill_one:
  assumes i: "cinv S" and t: "t < threads S" and x: "pcs S t = Idle" and st: "storage (mem S) 32 = Some q" and u: "uf 32"
    and n: "taken t n q (mem S)" "n < DEBT_SLOT_CNT"
  shows "\<exists>S'. play uf (fill_slot t) S = Inr S' \<and> cinv S' \<and> pcs S' = pcs S \<and> threads S' = threads S \<and>
    taken t (Suc n) q (mem S') \<and> (\<exists>h. bag S' = bag S @ [h]) \<and> storage (mem S') = storage (mem S) \<and>
    spurious (mem S') = spurious (mem S) \<and>
    (\<forall>m. gnr (mem S') m = gnr (mem S) m) \<and> (\<forall>m k r. m \<noteq> t \<longrightarrow> taken m k r (mem S') = taken m k r (mem S))"
proof -
  have q: "q \<noteq> debt_none" using stored_not_none [OF i st] by simp
  let ?w = "mem S"
  let ?w' = "upd_local (Thread t) (\<lambda>ln. ln\<lparr>ln_fast := \<lparr>offset = Suc n\<rparr>\<rparr>) (write_slot (FastSlot t n) q ?w)"
  let ?h = "Hnd q (Some (FastSlot t n))"
  have fs: "fast (nodes ?w ! t) = replicate n q @ replicate (DEBT_SLOT_CNT - n) debt_none"
    and of: "offset (ln_fast (locals ?w (Thread t))) = n" using n by (simp_all add: taken_def)
  have nth: "(replicate n q @ replicate (DEBT_SLOT_CNT - n) debt_none) ! n = debt_none"
    using n(2) by (simp add: nth_append)
  have run: "runs 4 uf t (\<lambda>y w'. y = Ret ?h \<and> w' = ?w') (begin_load uf 32 ForUser) ?w"
    using t st u n(2) nth by (simp add: begin_load_def eval_nat_numeral wraps_def fs of nth_update Let_def
        upd_local_def upd_node_def world_order)
  let ?S0 = "S\<lparr>pcs := (pcs S)(t := begin_load uf 32 ForUser)\<rparr>"
  have c0: "happen uf (Call t (CLoad 32)) S = Inr ?S0" using t x st by simp
  have i0: "cinv ?S0" using happen_keeps [OF i, of uf "Call t (CLoad 32)"] c0 by simp
  obtain S1 where p1: "play uf (replicate 4 (Tick t)) ?S0 = Inr S1" and i1: "cinv S1"
    and q1: "pcs S1 t = Ret ?h" "mem S1 = ?w'" "bag S1 = bag S" "\<forall>m. m \<noteq> t \<longrightarrow> pcs S1 m = pcs S m" "threads S1 = threads S"
    using runs_play [OF i0, of t 4 uf] run t by auto
  let ?S2 = "S1\<lparr>pcs := (pcs S1)(t := Idle), bag := bag S @ [?h]\<rparr>"
  have c2: "happen uf (Tick t) S1 = Inr ?S2"
    using q1 t by (simp add: run_thread_def stopped_def ret_def)
  have i2: "cinv ?S2" using happen_keeps [OF i1, of uf "Tick t"] c2 by simp
  have "(pcs S1)(t := Idle) = pcs S" using q1 x by (auto simp: fun_eq_iff)
  moreover have "(replicate n q @ replicate (DEBT_SLOT_CNT - n) debt_none)[n := q]
      = replicate (Suc n) q @ replicate (DEBT_SLOT_CNT - Suc n) debt_none"
    by (rule nth_equalityI) (use n(2) in \<open>auto simp: nth_append nth_list_update nth_Cons'\<close>)
  then have "taken t (Suc n) q ?w'" using t by (simp add: taken_def fs nth_update)
  moreover have "fill_slot t = Call t (CLoad 32) # replicate 4 (Tick t) @ [Tick t]"
    by (simp add: fill_slot_def eval_nat_numeral)
  ultimately show ?thesis
    using c0 p1 c2 i2 q1 by (intro exI [of _ ?S2]) (simp add: play_append taken_def nth_update)
qed

lemma fill_all:
  assumes "cinv S" and "t < threads S" and "pcs S t = Idle" and "storage (mem S) 32 = Some q" and "uf 32"
    and "taken t 0 q (mem S)" and "n \<le> DEBT_SLOT_CNT"
  shows "\<exists>S'. play uf (concat (replicate n (fill_slot t))) S = Inr S' \<and> cinv S' \<and> pcs S' = pcs S \<and> threads S' = threads S \<and>
    taken t n q (mem S') \<and> (\<exists>hs. bag S' = bag S @ hs) \<and> storage (mem S') = storage (mem S) \<and>
    spurious (mem S') = spurious (mem S) \<and>
    (\<forall>m. gnr (mem S') m = gnr (mem S) m) \<and> (\<forall>m k r. m \<noteq> t \<longrightarrow> taken m k r (mem S') = taken m k r (mem S))"
  using assms(7)
proof (induction n)
  case 0
  then show ?case using assms by (intro exI [of _ S]) simp
next
  case (Suc n)
  then obtain S1 where r: "play uf (concat (replicate n (fill_slot t))) S = Inr S1" "cinv S1" "pcs S1 = pcs S"
      "threads S1 = threads S" "taken t n q (mem S1)" "\<exists>hs. bag S1 = bag S @ hs" "storage (mem S1) = storage (mem S)"
      "spurious (mem S1) = spurious (mem S)" "\<forall>m. gnr (mem S1) m = gnr (mem S) m"
      "\<forall>m k r. m \<noteq> t \<longrightarrow> taken m k r (mem S1) = taken m k r (mem S)" by auto
  obtain S2 where p: "play uf (fill_slot t) S1 = Inr S2" "cinv S2" "pcs S2 = pcs S1"
      "threads S2 = threads S1" "taken t (Suc n) q (mem S2)" "\<exists>h. bag S2 = bag S1 @ [h]" "storage (mem S2) = storage (mem S1)"
      "spurious (mem S2) = spurious (mem S1)" "\<forall>m. gnr (mem S2) m = gnr (mem S1) m"
      "\<forall>m k r. m \<noteq> t \<longrightarrow> taken m k r (mem S2) = taken m k r (mem S1)"
    using fill_one [OF r(2), of t q uf n] r assms(2-5) Suc.prems by auto
  have "concat (replicate (Suc n) (fill_slot t)) = concat (replicate n (fill_slot t)) @ fill_slot t"
    by (simp flip: replicate_append_same)
  then show ?case using r p by (intro exI [of _ S2]) (auto simp: play_append simp del: replicate_Suc)
qed

text \<open>A writer that sees a transaction of the node \<open>j\<close> on its storage begins to help.\<close>

lemma meets:
  assumes "t < length (nodes w)" and "j \<noteq> t" and "ctl w t = IDLE" and "ctl w j AND TAG_MASK = GEN_TAG" and "adr w j = w_addr z"
  shows "runs 3 uf t (\<lambda>y w'. y = begin_load uf (w_addr z) (ForHelp z j (ctl w j)) \<and> apart t w w' \<and> gnr w' t = gnr w t)
    (Write (W_Reserve j) z) w"
  using assms
  by (simp add: eval_nat_numeral wraps_def reserve_writer_def nth_update apart_def examine_def tag_defs)

text \<open>It passes a node without debts on its pointer.\<close>

lemma passes:
  assumes "\<And>i. i \<le> DEBT_SLOT_CNT \<Longrightarrow> read_slot (slot_at j i) w \<noteq> w_old z" and "n \<le> Suc DEBT_SLOT_CNT"
  shows "runs (Suc n) uf t (\<lambda>y w'. y = Write (W_Release j) z \<and> w' = w) (Write (W_Pay j (Suc DEBT_SLOT_CNT - n)) z) w"
  using assms(2)
proof (induction n)
  case 0
  then show ?case by (simp add: wraps_def)
next
  case (Suc n)
  then have n: "Suc (DEBT_SLOT_CNT - n) = Suc DEBT_SLOT_CNT - n" "\<not> DEBT_SLOT_CNT < DEBT_SLOT_CNT - n" by simp_all
  have "runs (Suc n) uf t (\<lambda>y w'. y = Write (W_Release j) z \<and> w' = w) (Write (W_Pay j (Suc (DEBT_SLOT_CNT - n))) z) w"
    using Suc n by (simp del: runs.simps)
  then show ?case
    by (subst runs.simps(2)) (use assms(1) n in \<open>simp add: wraps_def del: runs.simps\<close>)
qed

lemma passes_node:
  assumes "t < length (nodes w)" and "ctl w t = IDLE" and "\<And>i. i \<le> DEBT_SLOT_CNT \<Longrightarrow> read_slot (slot_at t i) w \<noteq> w_old z"
  shows "runs 13 uf t (\<lambda>y w'. y = Write (next_stop t) z \<and> apart t w w' \<and> gnr w' t = gnr w t \<and> ctl w' t = IDLE)
    (Write (W_Reserve t) z) w"
proof -
  let ?Q = "\<lambda>y w'. y = Write (next_stop t) z \<and> apart t w w' \<and> gnr w' t = gnr w t \<and> ctl w' t = IDLE"
  let ?w = "upd_node t (\<lambda>nd. nd\<lparr>active_writers := active_writers nd + 1\<rparr>) w"
  have rd: "read_slot (slot_at t i) ?w = read_slot (slot_at t i) w" for i
    using assms(1) by (simp add: slot_at_def nth_update)
  have rel: "runs 1 uf t ?Q (Write (W_Release t) z) ?w"
    using assms by (simp add: wraps_def release_writer_def apart_def nth_update)
  have "runs (Suc (Suc DEBT_SLOT_CNT)) uf t (runs 1 uf t ?Q) (Write (W_Pay t 0) z) ?w"
  proof (rule runs_mono)
    show "runs (Suc (Suc DEBT_SLOT_CNT)) uf t (\<lambda>y w'. y = Write (W_Release t) z \<and> w' = ?w) (Write (W_Pay t 0) z) ?w"
      using passes [of t ?w z "Suc DEBT_SLOT_CNT" uf t] assms(3) rd by (simp del: runs.simps)
  qed (use rel in blast)
  then have "runs (Suc (Suc DEBT_SLOT_CNT) + 1) uf t ?Q (Write (W_Pay t 0) z) ?w" by (rule runs_add)
  then have "runs 11 uf t ?Q (Write (W_Pay t 0) z) ?w" by (simp add: DEBT_SLOT_CNT_def)
  moreover have "ctl ?w t = IDLE" using assms by (simp add: nth_update)
  ultimately have "runs (Suc (Suc 11)) uf t ?Q (Write (W_Reserve t) z) w"
    unfolding runs.simps(2) by (simp add: wraps_def reserve_writer_def examine_def)
  then show ?thesis by simp
qed

text \<open>A compare-and-swap that loaded in its helping slot, unnoticed, and exchanges the pointer.\<close>

lemma exchanges:
  assumes "t < length (nodes w)" and "ctl w t = gnr w t OR GEN_TAG" and "storage w a = Some p" and "spurious w = []"
  shows "runs 6 uf t (\<lambda>y w'. y = Write W_Inc (WCtx a p (Comparing (Hnd p None))) \<and>
      apart t (w\<lparr>storage := (storage w)(a := Some q)\<rparr>) w' \<and> gnr w' t = gnr w t \<and> ctl w' t = IDLE \<and>
      slot (helping (nodes w' ! t)) = debt_none) (Read (F_Load a) (ForCas a p q)) w"
  using assms
  by (simp add: eval_nat_numeral wraps_def upd_helping_def nth_update apart_def ptr_cas_weak_def ptr_cas_def)

text \<open>It sees the transaction and comes to its own load on behalf of it.\<close>

lemma meets_load:
  assumes t: "t < length (nodes w)" and j: "j \<noteq> t" and ct: "ctl w t = IDLE" and cj: "ctl w j AND TAG_MASK = GEN_TAG" "adr w j = w_addr z"
    and f: "full w t" and st: "storage w (w_addr z) = Some p" and u: "uf (w_addr z)" and g: "gnr w t + 4 \<noteq> 0"
  shows "runs 15 uf t (\<lambda>y w'. y = Read (F_Load (w_addr z)) (ForHelp z j (ctl w j)) \<and> apart t w w' \<and>
      gnr w' t = gnr w t + 4 \<and> ctl w' t = gnr w' t OR GEN_TAG \<and> adr w' t = w_addr z) (Write (W_Reserve j) z) w"
proof -
  let ?Q = "\<lambda>y w'. y = Read (F_Load (w_addr z)) (ForHelp z j (ctl w j)) \<and> apart t w w' \<and>
      gnr w' t = gnr w t + 4 \<and> ctl w' t = gnr w' t OR GEN_TAG \<and> adr w' t = w_addr z"
  have "runs (3 + 12) uf t ?Q (Write (W_Reserve j) z) w"
  proof (rule runs_add, rule runs_mono [OF meets [OF t j ct cj]])
    fix y v assume q: "y = begin_load uf (w_addr z) (ForHelp z j (ctl w j)) \<and> apart t w v \<and> gnr v t = gnr w t"
    then have a: "apart t w v" by blast
    have "runs 12 uf t ?Q (begin_load uf (w_addr z) (ForHelp z j (ctl w j))) v"
    proof (rule runs_mono [OF slow_load])
      show "t < length (nodes v)" "full v t" "storage v (w_addr z) = Some p" "uf (w_addr z)" "gnr v t + 4 \<noteq> 0"
        using q t f st u g apart_full [OF a] by (simp_all add: apart_def)
    qed (use q apart_trans [OF a] in auto)
    then show "runs 12 uf t ?Q y v" using q by simp
  qed
  then show ?thesis by simp
qed

lemma begins_walk:
  "runs 1 uf t (\<lambda>y w'. y = Write (next_stop (length (nodes w))) z \<and> apart t w w' \<and> gnr w' t = gnr w t \<and>
     helping (nodes w' ! t) = helping (nodes w ! t)) (Write W_Inc z) w"
  by (simp add: wraps_def apart_def)

text \<open>The four parts of the crossing, by the accesses of the threads in turn.\<close>

definition knot_crossing :: "nat event list" where
  "knot_crossing = [Call 0 (CStore 16 0), Tick 0, Call 1 (CCas 16 8192 0)] @ replicate 12 (Tick 1) @ replicate 16 (Tick 0) @
     replicate 36 (Tick 1) @ [Tick 0]"

abbreviation storer :: wctx where "storer \<equiv> WCtx 16 4096 Storing"

abbreviation swapper :: wctx where "swapper \<equiv> WCtx 16 8192 (Comparing (Hnd 8192 None))"

abbreviation swapping :: rctx where "swapping \<equiv> ForCas 16 8192 12288"

definition crossing :: "usize \<Rightarrow> 'v cst \<Rightarrow> bool" where
  "crossing p S \<longleftrightarrow> cinv S \<and> threads S = 2 \<and> fast (nodes (mem S) ! 0) = replicate DEBT_SLOT_CNT 16384 \<and>
     fast (nodes (mem S) ! 1) = replicate DEBT_SLOT_CNT 16384 \<and> storage (mem S) 16 = Some p \<and> spurious (mem S) = []"

definition shows_gen :: "tid \<Rightarrow> usize \<Rightarrow> 'v world \<Rightarrow> bool" where
  "shows_gen t g w \<longleftrightarrow> gnr w t = g \<and> ctl w t = g OR GEN_TAG \<and> adr w t = 16"

lemma crossing_full: "crossing p S \<Longrightarrow> t < 2 \<Longrightarrow> full (mem S) t"
  by (auto simp: crossing_def full_def debt_none_def less_2_cases_iff)

lemma crossing_apart:
  "crossing p S \<Longrightarrow> apart t (mem S) (mem S') \<Longrightarrow> cinv S' \<Longrightarrow> crossing p S'"
  by (simp add: crossing_def apart_def)

lemma all_fast [simp]: "all_fast a"
  by (simp add: all_fast_def)

lemma gen_tagged: "(4 OR GEN_TAG) AND TAG_MASK = GEN_TAG"
  by (simp add: tag_defs)

lemma crossing_first:
  fixes S :: "nat cst"
  assumes c: "crossing 4096 S" and x: "pcs S 0 = Idle" "pcs S 1 = Idle" and b: "bag S = Hnd 8192 None # Hnd 12288 None # hs"
    and g: "gnr (mem S) 1 = 0"
  shows "\<exists>S'. play all_fast ([Call 0 (CStore 16 0), Tick 0, Call 1 (CCas 16 8192 0)] @ replicate 12 (Tick 1)) S = Inr S' \<and>
    crossing 8192 S' \<and> pcs S' 0 = Write W_Inc storer \<and> pcs S' 1 = Read (F_Load 16) swapping \<and> shows_gen 1 4 (mem S') \<and>
    gnr (mem S') 0 = gnr (mem S) 0"
proof -
  note C = c [unfolded crossing_def]
  let ?w = "(mem S)\<lparr>storage := (storage (mem S))(16 := Some 8192)\<rparr>"
  let ?S = "S\<lparr>mem := ?w, pcs := (pcs S)(0 := Write W_Inc storer, 1 := begin_load all_fast 16 swapping), bag := hs\<rparr>"
  have h: "play all_fast [Call 0 (CStore 16 0), Tick 0, Call 1 (CCas 16 8192 0)] S = Inr ?S"
    using C x b by (simp add: del_nth_def run_thread_def stopped_def ptr_swap_def ptr_load_def ptr_store_def bnd_def gets_def
        unwrap_def ret_def modify_def)
  have i: "cinv ?S" using play_keeps [of S all_fast "[Call 0 (CStore 16 0), Tick 0, Call 1 (CCas 16 8192 0)]"] h C by auto
  have "full ?w 1" using crossing_full [OF c, of 1] by (simp add: full_def)
  then have "runs 12 all_fast 1 (\<lambda>y w'. y = Read (F_Load 16) swapping \<and> apart 1 ?w w' \<and> shows_gen 1 4 w') (pcs ?S 1) (mem ?S)"
    using runs_mono [OF slow_load [where uf = all_fast and a = 16 and k = swapping and t = 1 and w = ?w and p = 8192]] C g
    by (simp add: shows_gen_def)
  from runs_play [OF i _ this] C obtain S' where p: "play all_fast (replicate 12 (Tick 1)) ?S = Inr S'" "cinv S'"
    "pcs S' 1 = Read (F_Load 16) swapping" "apart 1 ?w (mem S')" "shows_gen 1 4 (mem S')" "pcs S' 0 = Write W_Inc storer"
    by auto
  have "crossing 8192 S'" using p C by (simp add: crossing_def apart_def)
  moreover have "play all_fast ([Call 0 (CStore 16 0), Tick 0, Call 1 (CCas 16 8192 0)] @ replicate 12 (Tick 1)) S = Inr S'"
    unfolding play_append h using p(1) by simp
  ultimately show ?thesis using p by (intro exI [of _ S']) (simp add: apart_def)
qed

lemma crossing_second:
  assumes c: "crossing 8192 S" and x: "pcs S 0 = Write W_Inc storer" and g: "shows_gen 1 4 (mem S)" "gnr (mem S) 0 = 0"
  shows "\<exists>S'. play all_fast (replicate 16 (Tick 0)) S = Inr S' \<and> crossing 8192 S' \<and>
    pcs S' 0 = Read (F_Load 16) (ForHelp storer 1 (4 OR GEN_TAG)) \<and> pcs S' 1 = pcs S 1 \<and>
    shows_gen 0 4 (mem S') \<and> shows_gen 1 4 (mem S')"
proof -
  note C = c [unfolded crossing_def]
  let ?Q = "\<lambda>y w'. y = Read (F_Load 16) (ForHelp storer 1 (4 OR GEN_TAG)) \<and> apart 0 (mem S) w' \<and> shows_gen 0 4 w'"
  have ct: "ctl (mem S) 0 = IDLE" using plain_outside [of S 0] C x by simp
  have "runs (1 + 15) all_fast 0 ?Q (Write W_Inc storer) (mem S)"
  proof (rule runs_add, rule runs_mono [OF begins_walk])
    fix y v
    assume q: "y = Write (next_stop (threads S)) storer \<and> apart 0 (mem S) v \<and> gnr v 0 = gnr (mem S) 0 \<and>
      helping (nodes v ! 0) = helping (nodes (mem S) ! 0)"
    then have a: "apart 0 (mem S) v" by blast
    have "runs 15 all_fast 0 ?Q (Write (W_Reserve 1) storer) v"
    proof (rule runs_mono [OF meets_load])
      show "0 < length (nodes v)" "(1::nat) \<noteq> 0" "ctl v 0 = IDLE" "ctl v 1 AND TAG_MASK = GEN_TAG" "adr v 1 = w_addr storer"
        "full v 0" "storage v (w_addr storer) = Some 8192" "all_fast (w_addr storer)" "gnr v 0 + 4 \<noteq> 0"
        using q a C g ct gen_tagged crossing_full [OF c] apart_full [OF a] by (simp_all add: apart_def shows_gen_def)
    qed (use q g a apart_trans [OF a] in \<open>auto simp: shows_gen_def apart_def\<close>)
    then show "runs 15 all_fast 0 ?Q y v" using q C by (simp add: next_stop_def)
  qed
  then have "runs 16 all_fast 0 ?Q (pcs S 0) (mem S)" using x by simp
  from runs_play [OF _ _ this] C obtain S' where p: "play all_fast (replicate 16 (Tick 0)) S = Inr S'" "cinv S'"
    "?Q (pcs S' 0) (mem S')" "pcs S' 1 = pcs S 1" by auto
  have "crossing 8192 S'" by (rule crossing_apart [OF c]) (use p in auto)
  then show ?thesis using p g by (intro exI [of _ S']) (auto simp: shows_gen_def apart_def)
qed

lemma slot_at_empty:
  assumes "fast (nodes w ! t) = replicate DEBT_SLOT_CNT q" and "slot (helping (nodes w ! t)) = debt_none"
    and "q \<noteq> p" and "debt_none \<noteq> p"
  shows "read_slot (slot_at t i) w \<noteq> p"
  using assms by (simp add: slot_at_def)

lemma crossing_third:
  assumes c: "crossing 8192 S" and x: "pcs S 1 = Read (F_Load 16) swapping" and g: "shows_gen 0 4 (mem S)" "shows_gen 1 4 (mem S)"
  shows "\<exists>S'. play all_fast (replicate 36 (Tick 1)) S = Inr S' \<and> crossing 12288 S' \<and> pcs S' 0 = pcs S 0 \<and>
    pcs S' 1 = Read (F_Slot 16 12288) (ForHelp swapper 0 (4 OR GEN_TAG)) \<and> shows_gen 0 4 (mem S') \<and> shows_gen 1 8 (mem S')"
proof -
  note C = c [unfolded crossing_def]
  let ?w = "(mem S)\<lparr>storage := (storage (mem S))(16 := Some 12288)\<rparr>"
  let ?Q = "\<lambda>y w'. y = Read (F_Slot 16 12288) (ForHelp swapper 0 (4 OR GEN_TAG)) \<and> apart 1 ?w w' \<and> shows_gen 1 8 w'"
  have full: "full v 1" if "apart 1 ?w v" for v using apart_full [OF that, of 1] crossing_full [OF c, of 1] by (simp add: full_def)
  have meet: "runs (15 + 1) all_fast 1 ?Q (Write (W_Reserve 0) swapper) v"
    if a: "apart 1 ?w v" and v: "gnr v 1 = 4" "ctl v 1 = IDLE" for v
  proof (rule runs_add, rule runs_mono [OF meets_load])
    show "1 < length (nodes v)" "(0::nat) \<noteq> 1" "ctl v 1 = IDLE" "ctl v 0 AND TAG_MASK = GEN_TAG" "adr v 0 = w_addr swapper"
      "full v 1" "storage v (w_addr swapper) = Some 12288" "all_fast (w_addr swapper)" "gnr v 1 + 4 \<noteq> 0"
      using a v C g gen_tagged full [OF a] by (simp_all add: apart_def shows_gen_def)
  qed (use a v g C in \<open>auto simp: shows_gen_def apart_def wraps_def\<close>)
  have walk: "runs (13 + (15 + 1)) all_fast 1 ?Q (Write (W_Reserve 1) swapper) v"
    if a: "apart 1 ?w v" and v: "gnr v 1 = 4" "ctl v 1 = IDLE" "slot (helping (nodes v ! 1)) = debt_none" for v
  proof (rule runs_add, rule runs_mono [OF passes_node])
    show "1 < length (nodes v)" "ctl v 1 = IDLE" using a v C by (simp_all add: apart_def)
    show "read_slot (slot_at 1 i) v \<noteq> w_old swapper" for i
      by (rule slot_at_empty [of v 1 16384]) (use a v C in \<open>simp_all add: apart_def debt_none_def\<close>)
    fix y v'
    assume q: "y = Write (next_stop 1) swapper \<and> apart 1 v v' \<and> gnr v' 1 = gnr v 1 \<and> ctl v' 1 = IDLE"
    then have "runs (15 + 1) all_fast 1 ?Q (Write (W_Reserve 0) swapper) v'"
      using v by (intro meet apart_trans [OF a]) simp_all
    then show "runs (15 + 1) all_fast 1 ?Q y v'" using q by (simp add: next_stop_def)
  qed
  have start: "runs (1 + (13 + (15 + 1))) all_fast 1 ?Q (Write W_Inc swapper) v"
    if a: "apart 1 ?w v" and v: "gnr v 1 = 4" "ctl v 1 = IDLE" "slot (helping (nodes v ! 1)) = debt_none" for v
  proof (rule runs_add, rule runs_mono [OF begins_walk])
    fix y v'
    assume q: "y = Write (next_stop (length (nodes v))) swapper \<and> apart 1 v v' \<and> gnr v' 1 = gnr v 1 \<and>
      helping (nodes v' ! 1) = helping (nodes v ! 1)"
    then have "runs (13 + (15 + 1)) all_fast 1 ?Q (Write (W_Reserve 1) swapper) v'"
      using v by (intro walk apart_trans [OF a]) simp_all
    then show "runs (13 + (15 + 1)) all_fast 1 ?Q y v'" using q a C by (simp add: next_stop_def apart_def)
  qed
  have "runs (6 + (1 + (13 + (15 + 1)))) all_fast 1 ?Q (Read (F_Load 16) swapping) (mem S)"
    by (rule runs_add, rule runs_mono [OF exchanges [of 1 "mem S" 16 8192]]) (use C g start in \<open>auto simp: shows_gen_def\<close>)
  then have "runs 36 all_fast 1 ?Q (pcs S 1) (mem S)" using x by simp
  from runs_play [OF _ _ this] C obtain S' where p: "play all_fast (replicate 36 (Tick 1)) S = Inr S'" "cinv S'"
    "?Q (pcs S' 1) (mem S')" "pcs S' 0 = pcs S 0" by auto
  have "crossing 12288 S'" using p C by (simp add: crossing_def apart_def)
  then show ?thesis using p g by (intro exI [of _ S']) (auto simp: shows_gen_def apart_def)
qed

lemma crossing_last:
  assumes c: "crossing 12288 S" and x: "pcs S 0 = Read (F_Load 16) (ForHelp storer 1 (4 OR GEN_TAG))"
      "pcs S 1 = Read (F_Slot 16 12288) (ForHelp swapper 0 (4 OR GEN_TAG))"
    and g: "shows_gen 0 4 (mem S)" "shows_gen 1 8 (mem S)"
  shows "\<exists>S'. play all_fast [Tick 0] S = Inr S' \<and> knot 0 1 storer swapper 12288 S' \<and>
    gnr (mem S') 0 = 4 \<and> gnr (mem S') 1 = 8"
proof -
  note C = c [unfolded crossing_def]
  let ?S = "S\<lparr>pcs := (pcs S)(0 := Read (F_Slot 16 12288) (ForHelp storer 1 (4 OR GEN_TAG)))\<rparr>"
  have h: "happen all_fast (Tick 0) S = Inr ?S"
    using C x by (simp add: run_thread_def stopped_def ptr_load_def bnd_def gets_def unwrap_def ret_def)
  have i: "cinv ?S" using happen_keeps [of S all_fast "Tick 0"] h C by auto
  have ne: "(8 :: usize) OR GEN_TAG \<noteq> 4 OR GEN_TAG" "(4 :: usize) AND TAG_MASK = 0" "(8 :: usize) AND TAG_MASK = 0"
    by (simp_all add: tag_defs)
  have "jammed 0 1 storer 12288 (mem S)" "jammed 1 0 swapper 12288 (mem S)"
    using C g ne crossing_full [OF c] by (simp_all add: jammed_def shows_gen_def)
  then have "knot 0 1 storer swapper 12288 ?S" using i x g ne by (simp add: knot_def shows_gen_def)
  then show ?thesis using h g by (intro exI [of _ ?S]) (simp add: shows_gen_def)
qed

text \<open>The whole way there, from the start.\<close>

definition knot_setup :: "nat event list" where
  "knot_setup = knot_calls @ concat (replicate 8 (fill_slot 0)) @ concat (replicate 8 (fill_slot 1)) @ knot_crossing"

definition knot_begin :: "nat cst" where
  "knot_begin = (case play all_fast knot_calls (cstart 2 ex_envelope []) of Inr S \<Rightarrow> S | Inl f \<Rightarrow> cstart 2 ex_envelope [])"

lemma knot_begin_play: "play all_fast knot_calls (cstart 2 ex_envelope []) = Inr knot_begin" and knot_begin_cinv: "cinv knot_begin"
  using play_keeps [OF start_cinv [OF ex_envelopes, of "[]"], of all_fast knot_calls] by (auto simp: knot_begin_def)

lemma knot_begin_facts:
  "threads knot_begin = 2" "pcs knot_begin 0 = Idle" "pcs knot_begin 1 = Idle" "storage (mem knot_begin) 16 = Some 4096"
  "storage (mem knot_begin) 32 = Some 16384" "bag knot_begin = [Hnd 8192 None, Hnd 12288 None]" "spurious (mem knot_begin) = []"
  "gnr (mem knot_begin) 0 = 0" "gnr (mem knot_begin) 1 = 0"
  "fast (nodes (mem knot_begin) ! 0) = [3, 3, 3, 3, 3, 3, 3, 3]" "fast (nodes (mem knot_begin) ! 1) = [3, 3, 3, 3, 3, 3, 3, 3]"
  "offset (ln_fast (locals (mem knot_begin) (Thread 0))) = 0" "offset (ln_fast (locals (mem knot_begin) (Thread 1))) = 0"
  by code_simp+

lemma knot_comes:
  "\<exists>S. play all_fast knot_setup (cstart 2 ex_envelope []) = Inr S \<and> knot 0 1 storer swapper 12288 S \<and>
     gnr (mem S) 0 = 4 \<and> gnr (mem S) 1 = 8"
proof -
  note B = knot_begin_facts
  have tk: "taken 0 0 16384 (mem knot_begin)" "taken 1 0 16384 (mem knot_begin)"
    using B by (simp_all add: taken_def DEBT_SLOT_CNT_def debt_none_def eval_nat_numeral)
  obtain S1 where s1: "play all_fast (concat (replicate 8 (fill_slot 0))) knot_begin = Inr S1" "cinv S1" "pcs S1 = pcs knot_begin"
      "threads S1 = 2" "taken 0 8 16384 (mem S1)" "\<exists>hs. bag S1 = bag knot_begin @ hs" "storage (mem S1) = storage (mem knot_begin)"
      "spurious (mem S1) = []" "\<forall>m. gnr (mem S1) m = gnr (mem knot_begin) m" "taken 1 0 16384 (mem S1)"
    using fill_all [OF knot_begin_cinv, of 0 16384 all_fast 8] B tk by (auto simp: DEBT_SLOT_CNT_def)
  obtain S2 where s2: "play all_fast (concat (replicate 8 (fill_slot 1))) S1 = Inr S2" "cinv S2" "pcs S2 = pcs S1"
      "threads S2 = 2" "taken 1 8 16384 (mem S2)" "\<exists>hs. bag S2 = bag S1 @ hs" "storage (mem S2) = storage (mem S1)"
      "spurious (mem S2) = []" "\<forall>m. gnr (mem S2) m = gnr (mem S1) m" "taken 0 8 16384 (mem S2)"
    using fill_all [OF s1(2), of 1 16384 all_fast 8] B s1 by (auto simp: DEBT_SLOT_CNT_def)
  have c2: "crossing 4096 S2"
    using s1 s2 B by (simp add: crossing_def taken_def DEBT_SLOT_CNT_def)
  obtain hs where b2: "bag S2 = Hnd 8192 None # Hnd 12288 None # hs" using s1(6) s2(6) B by auto
  obtain S3 where s3: "play all_fast ([Call 0 (CStore 16 0), Tick 0, Call 1 (CCas 16 8192 0)] @ replicate 12 (Tick 1)) S2 = Inr S3"
      "crossing 8192 S3" "pcs S3 0 = Write W_Inc storer" "pcs S3 1 = Read (F_Load 16) swapping" "shows_gen 1 4 (mem S3)"
      "gnr (mem S3) 0 = 0"
    using crossing_first [OF c2 _ _ b2] s1 s2 B by auto
  obtain S4 where s4: "play all_fast (replicate 16 (Tick 0)) S3 = Inr S4" "crossing 8192 S4"
      "pcs S4 0 = Read (F_Load 16) (ForHelp storer 1 (4 OR GEN_TAG))" "pcs S4 1 = Read (F_Load 16) swapping"
      "shows_gen 0 4 (mem S4)" "shows_gen 1 4 (mem S4)"
    using crossing_second [OF s3(2,3,5,6)] s3(4) by auto
  obtain S5 where s5: "play all_fast (replicate 36 (Tick 1)) S4 = Inr S5" "crossing 12288 S5"
      "pcs S5 0 = Read (F_Load 16) (ForHelp storer 1 (4 OR GEN_TAG))"
      "pcs S5 1 = Read (F_Slot 16 12288) (ForHelp swapper 0 (4 OR GEN_TAG))" "shows_gen 0 4 (mem S5)" "shows_gen 1 8 (mem S5)"
    using crossing_third [OF s4(2,4,5,6)] s4(3) by auto
  have "play all_fast knot_setup (cstart 2 ex_envelope []) = play all_fast [Tick 0] S5"
    unfolding knot_setup_def knot_crossing_def append_assoc [symmetric]
    by (simp only: play_append knot_begin_play s1(1) s2(1) sum.case s3(1) [unfolded play_append] s4(1) s5(1))
  then show ?thesis using crossing_last [OF s5(2-6)] by simp
qed

end
