(* ===== verification/Life_Cycle.thy ===== *)
theory Life_Cycle
  imports Node_List
begin

text \<open>
  The life of the debt nodes with interleaving (debt/list.rs): \<open>Node::get\<close>, \<open>Node::start_cooldown\<close> and the walk of a
  writer over the nodes, one access to \<open>LIST_HEAD\<close>, \<open>in_use\<close> or \<open>active_writers\<close> per step. Those who act are the local
  nodes of the threads, the temporary ones included, each of them at its own pace.
\<close>

section \<open>Program counters\<close>

text \<open>
  \<open>A_\<close> is \<open>Node::get\<close> with \<open>check_cooldown\<close>, \<open>D_\<close> is \<open>start_cooldown\<close>, \<open>V_\<close> is the traversal in \<open>Debt::pay_all\<close>. Each names
  what is done next.
\<close>

datatype life_pc =
    Rest
  | A_Traverse
  | A_Check nid
  | A_Writers nid
  | A_Cool nid
  | A_Claim nid
  | A_New
  | A_Head nid
  | A_Push nid "nid option"
  | D_Reserve nid
  | D_Swap nid
  | D_Release nid
  | V_Traverse
  | V_Reserve nid
  | V_Visit nid
  | V_Release nid

text \<open>The head of the loop of \<open>traverse\<close>, for the two closures.\<close>

definition search_from :: "nid option \<Rightarrow> life_pc" where
  "search_from cur = (case cur of None \<Rightarrow> A_New | Some n \<Rightarrow> A_Check n)"

definition visit_from :: "nid option \<Rightarrow> life_pc" where
  "visit_from cur = (case cur of None \<Rightarrow> Rest | Some n \<Rightarrow> V_Reserve n)"

definition set_own :: "lid \<Rightarrow> nid option \<Rightarrow> ('v world, unit) op" where
  "set_own l own = modify (upd_local l (\<lambda>ln. ln\<lparr>ln_node := own\<rparr>))"

text \<open>
  One access of the local node \<open>l\<close>. The pointer to the next node is not atomic, it is read along with the access before.
  What a writer does with the slots of a node is left out here.
\<close>

fun life_step :: "lid \<Rightarrow> life_pc \<Rightarrow> ('v world, life_pc) op" where
  "life_step l Rest = ret Rest"
| "life_step l A_Traverse = bnd (gets list_head) (\<lambda>head. ret (search_from head))"
| "life_step l (A_Check n) =
     bnd (gets (\<lambda>w. in_use (nodes w ! n))) (\<lambda>u.
     ret (if u = NODE_COOLDOWN then A_Writers n else A_Claim n))"
| "life_step l (A_Writers n) =
     bnd (gets (\<lambda>w. active_writers (nodes w ! n))) (\<lambda>a.
     ret (if a = 0 then A_Cool n else A_Claim n))"
| "life_step l (A_Cool n) =
     bnd (modify (upd_node n (\<lambda>nd. if in_use nd = NODE_COOLDOWN
                                     then nd\<lparr>in_use := NODE_UNUSED\<rparr> else nd))) (\<lambda>_.
     ret (A_Claim n))"
| "life_step l (A_Claim n) =
     bnd (gets (\<lambda>w. nodes w ! n)) (\<lambda>nd.
     if in_use nd = NODE_UNUSED then
       bnd (modify (upd_node n (\<lambda>nd. nd\<lparr>in_use := NODE_USED\<rparr>))) (\<lambda>_.
       bnd (set_own l (Some n)) (\<lambda>_. ret Rest))
     else ret (search_from (next_node nd)))"
| "life_step l A_New = bnd alloc_node (\<lambda>n. ret (A_Head n))"
| "life_step l (A_Head n) = bnd (gets list_head) (\<lambda>head. ret (A_Push n head))"
| "life_step l (A_Push n head) =
     bnd (modify (upd_node n (\<lambda>nd. nd\<lparr>next_node := head\<rparr>))) (\<lambda>_.
     bnd fails_spuriously (\<lambda>f.
     bnd (gets list_head) (\<lambda>old.
     if \<not> f \<and> old = head then
       bnd (modify (\<lambda>w. w\<lparr>list_head := Some n\<rparr>)) (\<lambda>_.
       bnd (set_own l (Some n)) (\<lambda>_. ret Rest))
     else ret (A_Push n old))))"
| "life_step l (D_Reserve n) = bnd (reserve_writer n) (\<lambda>_. ret (D_Swap n))"
| "life_step l (D_Swap n) =
     bnd (gets (\<lambda>w. in_use (nodes w ! n))) (\<lambda>prev.
     bnd (modify (upd_node n (\<lambda>nd. nd\<lparr>in_use := NODE_COOLDOWN\<rparr>))) (\<lambda>_.
     bnd (require Assert_Failed (NODE_USED = prev)) (\<lambda>_.
     ret (D_Release n))))"
| "life_step l (D_Release n) =
     bnd (release_writer n) (\<lambda>_. bnd (set_own l None) (\<lambda>_. ret Rest))"
| "life_step l V_Traverse = bnd (gets list_head) (\<lambda>head. ret (visit_from head))"
| "life_step l (V_Reserve n) = bnd (reserve_writer n) (\<lambda>_. ret (V_Visit n))"
| "life_step l (V_Visit n) = ret (V_Release n)"
| "life_step l (V_Release n) =
     bnd (release_writer n) (\<lambda>_.
     bnd (gets (\<lambda>w. next_node (nodes w ! n))) (\<lambda>nxt. ret (visit_from nxt)))"

section \<open>The machine\<close>

record 'v life =
  lmem :: "'v world"
  lpcs :: "lid \<Rightarrow> life_pc"

text \<open>
  A local node without a node gets one, one with a node goes over the list as a writer, or gives its node up (its thread ends, or its
  generations wrapped around). What cannot be done is skipped.
\<close>

datatype life_event = Advance lid | Acquire lid | Retire lid | Survey lid

fun actor :: "life_event \<Rightarrow> lid" where
  "actor (Advance l) = l"
| "actor (Acquire l) = l"
| "actor (Retire l) = l"
| "actor (Survey l) = l"

definition at_pc :: "lid \<Rightarrow> life_pc \<Rightarrow> 'v life \<Rightarrow> 'v life" where
  "at_pc l x S = S\<lparr>lpcs := (lpcs S)(l := x)\<rparr>"

definition advance :: "lid \<Rightarrow> 'v life \<Rightarrow> fault + 'v life" where
  "advance l S = (case life_step l (lpcs S l) (lmem S) of
      Inl e \<Rightarrow> Inl e
    | Inr (x, w) \<Rightarrow> Inr (at_pc l x (S\<lparr>lmem := w\<rparr>)))"

fun life_happen :: "life_event \<Rightarrow> 'v life \<Rightarrow> fault + 'v life" where
  "life_happen (Advance l) S = advance l S"
| "life_happen (Acquire l) S =
     Inr (if lpcs S l = Rest \<and> ln_node (locals (lmem S) l) = None then at_pc l A_Traverse S else S)"
| "life_happen (Retire l) S =
     Inr (case ln_node (locals (lmem S) l) of
            None \<Rightarrow> S
          | Some n \<Rightarrow> if lpcs S l = Rest then at_pc l (D_Reserve n) S else S)"
| "life_happen (Survey l) S =
     Inr (if lpcs S l = Rest \<and> ln_node (locals (lmem S) l) \<noteq> None then at_pc l V_Traverse S else S)"

fun life_play :: "life_event list \<Rightarrow> 'v life \<Rightarrow> fault + 'v life" where
  "life_play [] S = Inr S"
| "life_play (e # es) S = (case life_happen e S of Inl f \<Rightarrow> Inl f | Inr S' \<Rightarrow> life_play es S')"

definition life_start :: "(nid \<Rightarrow> usize) \<Rightarrow> bool list \<Rightarrow> 'v life" where
  "life_start pl sp = \<lparr>lmem = start_world pl sp, lpcs = (\<lambda>_. Rest)\<rparr>"

text \<open>The events go through and lead to a state with the property.\<close>

definition leads_to :: "life_event list \<Rightarrow> 'v life \<Rightarrow> ('v life \<Rightarrow> bool) \<Rightarrow> bool" where
  "leads_to es S P = (case life_play es S of Inl f \<Rightarrow> False | Inr S' \<Rightarrow> P S')"

lemma leads_to_iff: "leads_to es S P \<longleftrightarrow> (\<exists>S'. life_play es S = Inr S' \<and> P S')"
  by (simp add: leads_to_def split: sum.splits)

section \<open>Who has a node\<close>

fun building :: "life_pc \<Rightarrow> nid \<Rightarrow> bool" where
  "building (A_Head m) n = (m = n)"
| "building (A_Push m h) n = (m = n)"
| "building _ n = False"

fun reserving :: "life_pc \<Rightarrow> nid \<Rightarrow> bool" where
  "reserving (D_Swap m) n = (m = n)"
| "reserving (D_Release m) n = (m = n)"
| "reserving (V_Visit m) n = (m = n)"
| "reserving (V_Release m) n = (m = n)"
| "reserving _ n = False"

text \<open>
  A node belongs to the local node that points to it, until it was put into cooldown, and to the one that makes it.
\<close>

definition holds :: "lid \<Rightarrow> nid \<Rightarrow> 'v life \<Rightarrow> bool" where
  "holds l n S \<longleftrightarrow>
     (ln_node (locals (lmem S) l) = Some n \<and> lpcs S l \<noteq> D_Release n) \<or> building (lpcs S l) n"

text \<open>The nodes that can be reached through the list.\<close>

fun chain :: "'v world \<Rightarrow> nid option \<Rightarrow> nid list \<Rightarrow> bool" where
  "chain w h [] = (h = None)"
| "chain w h (n # ns) = (h = Some n \<and> n < length (nodes w) \<and> chain w (next_node (nodes w ! n)) ns)"

definition published :: "nid \<Rightarrow> 'v life \<Rightarrow> bool" where
  "published n S \<longleftrightarrow> n < length (nodes (lmem S)) \<and> (\<forall>l. \<not> building (lpcs S l) n)"

section \<open>The invariant\<close>

fun place_of :: "life_pc \<Rightarrow> nid option" where
  "place_of (A_Check n) = Some n"
| "place_of (A_Writers n) = Some n"
| "place_of (A_Cool n) = Some n"
| "place_of (A_Claim n) = Some n"
| "place_of (V_Reserve n) = Some n"
| "place_of (V_Visit n) = Some n"
| "place_of (V_Release n) = Some n"
| "place_of (D_Release n) = Some n"
| "place_of _ = None"

text \<open>What the own pointer of a local node is: not set in the course of \<open>Node::get\<close>, set in the other two.\<close>

fun own_ok :: "life_pc \<Rightarrow> nid option \<Rightarrow> bool" where
  "own_ok Rest own = True"
| "own_ok (D_Reserve n) own = (own = Some n)"
| "own_ok (D_Swap n) own = (own = Some n)"
| "own_ok (D_Release n) own = (own = Some n)"
| "own_ok V_Traverse own = (own \<noteq> None)"
| "own_ok (V_Reserve n) own = (own \<noteq> None)"
| "own_ok (V_Visit n) own = (own \<noteq> None)"
| "own_ok (V_Release n) own = (own \<noteq> None)"
| "own_ok _ own = (own = None)"

definition reservers :: "'v life \<Rightarrow> nid \<Rightarrow> lid set" where
  "reservers S n = {l. reserving (lpcs S l) n}"

definition linv :: "lid set \<Rightarrow> 'v life \<Rightarrow> bool" where
  "linv A S \<longleftrightarrow>
     (\<forall>l. lpcs S l \<noteq> Rest \<longrightarrow> l \<in> A) \<and>
     (\<forall>l. own_ok (lpcs S l) (ln_node (locals (lmem S) l))) \<and>
     (\<forall>l n. place_of (lpcs S l) = Some n \<longrightarrow> published n S) \<and>
     (\<forall>l n. holds l n S \<longrightarrow> n < length (nodes (lmem S)) \<and> in_use (nodes (lmem S) ! n) = NODE_USED) \<and>
     (\<forall>l l' n. holds l n S \<longrightarrow> holds l' n S \<longrightarrow> l = l') \<and>
     (\<exists>ns. chain (lmem S) (list_head (lmem S)) ns \<and> distinct ns \<and> set ns = {n. published n S}) \<and>
     (\<forall>n<length (nodes (lmem S)). active_writers (nodes (lmem S) ! n) = of_nat (card (reservers S n)))"

lemma linvD:
  assumes "linv A S"
  shows "\<And>l. lpcs S l \<noteq> Rest \<Longrightarrow> l \<in> A"
    and "\<And>l. own_ok (lpcs S l) (ln_node (locals (lmem S) l))"
    and "\<And>l n. place_of (lpcs S l) = Some n \<Longrightarrow> published n S"
    and "\<And>l n. holds l n S \<Longrightarrow> n < length (nodes (lmem S)) \<and> in_use (nodes (lmem S) ! n) = NODE_USED"
    and "\<And>l l' n. holds l n S \<Longrightarrow> holds l' n S \<Longrightarrow> l = l'"
    and "\<exists>ns. chain (lmem S) (list_head (lmem S)) ns \<and> distinct ns \<and> set ns = {n. published n S}"
    and "\<And>n. n < length (nodes (lmem S)) \<Longrightarrow> active_writers (nodes (lmem S) ! n) = of_nat (card (reservers S n))"
  using assms by (auto simp: linv_def)

lemma chain_cong:
  "chain w h ns \<Longrightarrow> (\<And>n. n \<in> set ns \<Longrightarrow> n < length (nodes w') \<and> next_node (nodes w' ! n) = next_node (nodes w ! n)) \<Longrightarrow>
   chain w' h ns"
  by (induction ns arbitrary: h) auto

lemma reserving_place: "reserving x n \<Longrightarrow> place_of x = Some n \<or> x = D_Swap n"
  by (cases x) auto

lemma at_pc_simps [simp]:
  "lmem (at_pc l x S) = lmem S" "lpcs (at_pc l x S) = (lpcs S)(l := x)"
  by (simp_all add: at_pc_def)

lemma reservers_at_pc:
  "reservers (at_pc l y S) n = (if reserving y n then insert l (reservers S n) else reservers S n - {l})"
  by (auto simp: reservers_def)

lemma reservers_lmem [simp]: "reservers (S\<lparr>lmem := w\<rparr>) n = reservers S n"
  by (simp add: reservers_def)

text \<open>The counter of reservations moves by one with the set of those who hold one.\<close>

lemma reservers_count:
  fixes a :: usize
  assumes "finite (reservers S n)" and "a = of_nat (card (reservers S n))"
  shows "a + (if reserving y n then 1 else 0) - (if reserving (lpcs S l) n then 1 else 0)
    = of_nat (card (reservers (at_pc l y S) n))"
proof -
  have r: "l \<in> reservers S n \<longleftrightarrow> reserving (lpcs S l) n" by (simp add: reservers_def)
  have "l \<in> reservers S n \<Longrightarrow> card (reservers S n) = Suc (card (reservers S n - {l}))"
    using assms(1) by (rule card.remove)
  then show ?thesis
    using assms r by (auto simp: reservers_at_pc card_insert_if insert_absorb)
qed

lemma reservers_finite: "linv A S \<Longrightarrow> finite A \<Longrightarrow> finite (reservers S n)"
  by (rule finite_subset [of _ A]) (force simp: reservers_def dest: linvD(1))+

text \<open>
  A step that makes no node and links none: it may mark nodes, reserve or release them, and change the own pointer. A node it takes was
  not in use, a node it takes out of use was its own.
\<close>

lemma linv_move:
  assumes i: "linv A S" and fin: "finite A" and l: "l \<in> A"
    and len: "length (nodes w') = length (nodes (lmem S))" and head: "list_head w' = list_head (lmem S)"
    and nxt: "\<And>n. n < length (nodes w') \<Longrightarrow> \<not> building (lpcs S l) n \<Longrightarrow> next_node (nodes w' ! n) = next_node (nodes (lmem S) ! n)"
    and other: "\<And>l'. l' \<noteq> l \<Longrightarrow> locals w' l' = locals (lmem S) l'"
    and b: "\<And>n. building y n \<longleftrightarrow> building (lpcs S l) n"
    and own: "own_ok y (ln_node (locals w' l))"
    and pl: "\<And>n. place_of y = Some n \<Longrightarrow> published n S"
    and take: "\<And>n. holds l n (at_pc l y (S\<lparr>lmem := w'\<rparr>)) \<Longrightarrow>
        n < length (nodes w') \<and> in_use (nodes w' ! n) = NODE_USED \<and> (holds l n S \<or> in_use (nodes (lmem S) ! n) \<noteq> NODE_USED)"
    and keep: "\<And>n. n < length (nodes w') \<Longrightarrow> in_use (nodes (lmem S) ! n) = NODE_USED \<Longrightarrow> \<not> holds l n S \<Longrightarrow>
        in_use (nodes w' ! n) = NODE_USED"
    and act: "\<And>n. n < length (nodes w') \<Longrightarrow> active_writers (nodes w' ! n) = active_writers (nodes (lmem S) ! n)
        + (if reserving y n then 1 else 0) - (if reserving (lpcs S l) n then 1 else 0)"
  shows "linv A (at_pc l y (S\<lparr>lmem := w'\<rparr>))"
proof -
  let ?S = "at_pc l y (S\<lparr>lmem := w'\<rparr>)"
  have pub: "published n ?S \<longleftrightarrow> published n S" for n
    using b len unfolding published_def by auto
  have hold: "holds l' n ?S \<longleftrightarrow> holds l' n S" if "l' \<noteq> l" for l' n
    using that other by (simp add: holds_def)
  obtain ns where ns: "chain (lmem S) (list_head (lmem S)) ns" "distinct ns" "set ns = {n. published n S}"
    using linvD(6) [OF i] by blast
  have "chain w' (list_head w') ns"
    unfolding head by (rule chain_cong [OF ns(1)]) (use ns(3) len nxt in \<open>auto simp: published_def\<close>)
  then have list: "\<exists>ns. chain (lmem ?S) (list_head (lmem ?S)) ns \<and> distinct ns \<and> set ns = {n. published n ?S}"
    using ns(2,3) pub by auto
  have used: "n < length (nodes w') \<and> in_use (nodes w' ! n) = NODE_USED" if "holds l' n ?S" for l' n
  proof (cases "l' = l")
    case False
    then have h: "holds l' n S" using that hold by simp
    then have "\<not> holds l n S" using linvD(5) [OF i] False by blast
    then show ?thesis using keep [of n] linvD(4) [OF i h] len by simp
  qed (use that take in blast)
  have alone: "l1 = l2" if "holds l1 n ?S" "holds l2 n ?S" for l1 l2 n
  proof -
    have "l' = l" if "holds l n ?S" "holds l' n ?S" for l'
    proof (rule ccontr)
      assume "l' \<noteq> l"
      then have "holds l' n S" using that hold by simp
      moreover from this have "holds l n S" using take [OF that(1)] linvD(4) [OF i] by blast
      ultimately show False using linvD(5) [OF i] \<open>l' \<noteq> l\<close> by blast
    qed
    then show ?thesis using that hold linvD(5) [OF i] by metis
  qed
  have "active_writers (nodes w' ! n) = of_nat (card (reservers ?S n))" if "n < length (nodes w')" for n
    using act [OF that] reservers_count [OF reservers_finite [OF i fin] linvD(7) [OF i], of n y l] that len
    by (simp add: reservers_at_pc)
  then show ?thesis
    unfolding linv_def
    using linvD(1-3) [OF i] l other own pl pub used alone list by auto
qed

text \<open>A step that only looks.\<close>

lemma linv_look:
  assumes i: "linv A S" and fin: "finite A" and l: "l \<in> A"
    and b: "\<And>n. building y n \<longleftrightarrow> building (lpcs S l) n" "\<And>n. reserving y n \<longleftrightarrow> reserving (lpcs S l) n"
    and own: "own_ok y (ln_node (locals (lmem S) l))"
    and pl: "\<And>n. place_of y = Some n \<Longrightarrow> published n S"
    and h: "\<And>n. lpcs S l \<noteq> D_Release n"
  shows "linv A (at_pc l y S)"
proof -
  have hold: "holds l n (at_pc l y S) \<Longrightarrow> holds l n S" for n using b h by (auto simp: holds_def)
  have "linv A (at_pc l y (S\<lparr>lmem := lmem S\<rparr>))"
    by (rule linv_move [OF i fin l]) (use b own pl hold linvD(4) [OF i hold] in auto)
  then show ?thesis by simp
qed

text \<open>A node is made; nobody else knows it yet.\<close>

lemma linv_alloc:
  assumes i: "linv A S" and l: "l \<in> A" and x: "lpcs S l = A_New"
    and w': "nodes w' = nodes (lmem S) @ [nd]" "list_head w' = list_head (lmem S)" "locals w' = locals (lmem S)"
    and nd: "in_use nd = NODE_USED" "active_writers nd = 0"
  shows "linv A (at_pc l (A_Head (length (nodes (lmem S)))) (S\<lparr>lmem := w'\<rparr>))"
proof -
  let ?N = "length (nodes (lmem S))"
  let ?S = "at_pc l (A_Head ?N) (S\<lparr>lmem := w'\<rparr>)"
  have own: "ln_node (locals (lmem S) l) = None" using linvD(2) [OF i, of l] x by simp
  have old: "n < ?N" if "holds l' n S" for l' n using linvD(4) [OF i that] by simp
  have old_b: "\<not> building (lpcs S l') ?N" for l' using old [of l' ?N] by (auto simp: holds_def)
  have hold: "holds l' n ?S \<longleftrightarrow> (if l' = l then n = ?N else holds l' n S)" for l' n
    using own by (auto simp: holds_def w')
  have pub: "published n ?S \<longleftrightarrow> published n S" for n
    using x old_b by (auto simp: published_def w' less_Suc_eq)
  have res: "reservers ?S n = reservers S n" for n
    using x by (auto simp: reservers_def)
  obtain ns where ns: "chain (lmem S) (list_head (lmem S)) ns" "distinct ns" "set ns = {n. published n S}"
    using linvD(6) [OF i] by blast
  have "chain w' (list_head w') ns"
    unfolding w'(2) by (rule chain_cong [OF ns(1)]) (use ns(3) in \<open>auto simp: published_def w' nth_append\<close>)
  then have list: "\<exists>ns. chain (lmem ?S) (list_head (lmem ?S)) ns \<and> distinct ns \<and> set ns = {n. published n ?S}"
    using ns(2,3) pub by auto
  have used: "n < length (nodes w') \<and> in_use (nodes w' ! n) = NODE_USED" if "holds l' n ?S" for l' n
    using that linvD(4) [OF i, of l' n] nd by (auto simp: hold w' nth_append split: if_splits)
  have alone: "l1 = l2" if "holds l1 n ?S" "holds l2 n ?S" for l1 l2 n
    using that linvD(5) [OF i, of l1 n l2] old by (auto simp: hold split: if_splits)
  have empty: "reservers S ?N = {}"
  proof -
    have "\<not> reserving (lpcs S l') ?N" for l'
      using reserving_place [of "lpcs S l'" ?N] linvD(3) [OF i, of l' ?N] linvD(2) [OF i, of l'] old [of l' ?N]
      by (auto simp: published_def holds_def)
    then show ?thesis by (simp add: reservers_def)
  qed
  have "active_writers (nodes w' ! n) = of_nat (card (reservers ?S n))" if "n < length (nodes w')" for n
    using that linvD(7) [OF i, of n] nd empty by (cases "n = ?N") (simp_all add: res w' nth_append)
  then show ?thesis
    unfolding linv_def using linvD(1-3) [OF i] l own pub used alone list by (auto simp: w')
qed

text \<open>A node is linked in front of the list.\<close>

lemma linv_push:
  assumes i: "linv A S" and l: "l \<in> A" and x: "lpcs S l = A_Push n (list_head (lmem S))"
    and w': "nodes w' = (nodes (lmem S))[n := (nodes (lmem S) ! n)\<lparr>next_node := list_head (lmem S)\<rparr>]"
      "list_head w' = Some n" "ln_node (locals w' l) = Some n" "\<And>l'. l' \<noteq> l \<Longrightarrow> locals w' l' = locals (lmem S) l'"
  shows "linv A (at_pc l Rest (S\<lparr>lmem := w'\<rparr>))"
proof -
  let ?S = "at_pc l Rest (S\<lparr>lmem := w'\<rparr>)"
  have own: "ln_node (locals (lmem S) l) = None" using linvD(2) [OF i, of l] x by simp
  have mine: "holds l n S" using x by (simp add: holds_def)
  then have n: "n < length (nodes (lmem S))" using linvD(4) [OF i] by blast
  have hold: "holds l' m ?S \<longleftrightarrow> holds l' m S" for l' m
    using own x w' by (cases "l' = l") (auto simp: holds_def)
  have only: "\<not> building (lpcs S l') n" if "l' \<noteq> l" for l'
    using linvD(5) [OF i mine, of l'] that by (auto simp: holds_def)
  have "building (lpcs S l) m \<longleftrightarrow> m = n" for m using x by auto
  then have pub: "published m ?S \<longleftrightarrow> published m S \<or> m = n" for m
    using only n by (cases "m = n") (auto simp: published_def w', metis)
  have npub: "\<not> published n S"
    unfolding published_def using x by (metis building.simps(2))
  have res: "reservers ?S m = reservers S m" for m
    using x by (auto simp: reservers_def)
  obtain ns where ns: "chain (lmem S) (list_head (lmem S)) ns" "distinct ns" "set ns = {n. published n S}"
    using linvD(6) [OF i] by blast
  have "chain w' (list_head (lmem S)) ns"
    by (rule chain_cong [OF ns(1)]) (use ns(3) npub in \<open>auto simp: published_def w' nth_update\<close>)
  then have "chain (lmem ?S) (list_head (lmem ?S)) (n # ns) \<and> distinct (n # ns) \<and> set (n # ns) = {m. published m ?S}"
    using ns(2,3) npub n by (auto simp: pub w' nth_update)
  then have list: "\<exists>ns. chain (lmem ?S) (list_head (lmem ?S)) ns \<and> distinct ns \<and> set ns = {n. published n ?S}"
    by blast
  have used: "m < length (nodes w') \<and> in_use (nodes w' ! m) = NODE_USED" if "holds l' m ?S" for l' m
    using that linvD(4) [OF i, of l' m] by (auto simp: hold w' nth_update)
  have alone: "l1 = l2" if "holds l1 m ?S" "holds l2 m ?S" for l1 l2 m
    using that linvD(5) [OF i, of l1 m l2] by (simp add: hold)
  have "active_writers (nodes w' ! m) = of_nat (card (reservers ?S m))" if "m < length (nodes w')" for m
    using that linvD(7) [OF i, of m] by (auto simp: res w' nth_update)
  then show ?thesis
    unfolding linv_def using linvD(1-3) [OF i] l pub used alone list w' by auto
qed

text \<open>Every access of a local node goes through and keeps the invariant.\<close>

lemma chain_next:
  "chain w h ns \<Longrightarrow> n \<in> set ns \<Longrightarrow> next_node (nodes w ! n) = Some m \<Longrightarrow> m \<in> set ns"
proof (induction ns arbitrary: h)
  case (Cons a ns)
  then show ?case by (cases ns) auto
qed simp

lemma published_next:
  assumes i: "linv A S" and n: "published n S" and m: "next_node (nodes (lmem S) ! n) = Some m"
  shows "published m S"
  using linvD(6) [OF i] chain_next [OF _ _ m] n by blast

lemma published_head:
  assumes i: "linv A S" and m: "list_head (lmem S) = Some m"
  shows "published m S"
proof -
  obtain ns where ns: "chain (lmem S) (Some m) ns" "set ns = {n. published n S}" using linvD(6) [OF i] m by auto
  then have "m \<in> set ns" by (cases ns) auto
  then show ?thesis using ns by simp
qed

lemma linv_step:
  assumes i: "linv A S" and fin: "finite A" and l: "l \<in> A"
  shows "wp (life_step l (lpcs S l)) (\<lambda>y w'. linv A (at_pc l y (S\<lparr>lmem := w'\<rparr>))) (lmem S)"
proof -
  note D = linvD [OF i]
  note look = linv_look [OF i fin l]
  note mv = linv_move [OF i fin l]
  have h: "ln_node (locals (lmem S) l) = Some n \<Longrightarrow> lpcs S l \<noteq> D_Release n \<Longrightarrow> holds l n S" for n by (simp add: holds_def)
  have use: "ln_node (locals (lmem S) l) = Some n \<Longrightarrow> lpcs S l \<noteq> D_Release n \<Longrightarrow>
      n < length (nodes (lmem S)) \<and> in_use (nodes (lmem S) ! n) = NODE_USED" for n using D(4) [OF h] .
  have pub: "place_of (lpcs S l) = Some n \<Longrightarrow> published n S" for n by (rule D(3))
  have own: "own_ok (lpcs S l) (ln_node (locals (lmem S) l))" by (rule D(2))
  show ?thesis
  proof (cases "lpcs S l")
    case Rest
    have "at_pc l Rest S = S" using Rest by (cases S) (auto simp: at_pc_def)
    then show ?thesis using Rest i by simp
  next
    case A_Traverse
    have "linv A (at_pc l (search_from (list_head (lmem S))) S)"
      by (rule look) (use A_Traverse own published_head [OF i] in \<open>auto simp: search_from_def split: option.splits\<close>)
    then show ?thesis using A_Traverse by simp
  next
    case (A_Check n)
    have "linv A (at_pc l (A_Writers n) S)" "linv A (at_pc l (A_Claim n) S)"
      by (rule look; use A_Check own pub in auto)+
    then show ?thesis using A_Check by simp
  next
    case (A_Writers n)
    have "linv A (at_pc l (A_Cool n) S)" "linv A (at_pc l (A_Claim n) S)"
      by (rule look; use A_Writers own pub in auto)+
    then show ?thesis using A_Writers by simp
  next
    case (A_Cool n)
    have "linv A (at_pc l (A_Claim n) (S\<lparr>lmem := upd_node n (\<lambda>nd. if in_use nd = NODE_COOLDOWN
        then nd\<lparr>in_use := NODE_UNUSED\<rparr> else nd) (lmem S)\<rparr>))"
      by (rule mv) (use A_Cool own pub in \<open>auto simp: upd_node_def nth_update holds_def\<close>)
    then show ?thesis using A_Cool by simp
  next
    case (A_Claim n)
    have n: "published n S" using A_Claim pub by simp
    have "linv A (at_pc l (search_from (next_node (nodes (lmem S) ! n))) S)"
      by (rule look) (use A_Claim own published_next [OF i n] in \<open>auto simp: search_from_def split: option.splits\<close>)
    moreover have "linv A (at_pc l Rest (S\<lparr>lmem := upd_local l (\<lambda>ln. ln\<lparr>ln_node := Some n\<rparr>)
        (upd_node n (\<lambda>nd. nd\<lparr>in_use := NODE_USED\<rparr>) (lmem S))\<rparr>))" if "in_use (nodes (lmem S) ! n) = NODE_UNUSED"
      by (rule mv) (use A_Claim own n that in \<open>auto simp: upd_node_def upd_local_def nth_update holds_def published_def\<close>)
    ultimately show ?thesis using A_Claim by (simp add: set_own_def)
  next
    case A_New
    then show ?thesis using linv_alloc [OF i l A_New] by (simp add: alloc_node_def node_default_def)
  next
    case (A_Head n)
    have "linv A (at_pc l (A_Push n (list_head (lmem S))) S)"
      by (rule look) (use A_Head own in auto)
    then show ?thesis using A_Head by simp
  next
    case (A_Push n head)
    let ?w = "upd_node n (\<lambda>nd. nd\<lparr>next_node := head\<rparr>) (lmem S)"
    have again: "linv A (at_pc l (A_Push n (list_head (lmem S))) (S\<lparr>lmem := ?w\<lparr>spurious := sp\<rparr>\<rparr>))" for sp
      by (rule mv) (use A_Push own D(4) [of l] in \<open>auto simp: upd_node_def nth_update holds_def\<close>)
    have w: "?w = ?w\<lparr>spurious := spurious (lmem S)\<rparr>" by (simp add: upd_node_def)
    have link: "linv A (at_pc l Rest (S\<lparr>lmem := upd_local l (\<lambda>ln. ln\<lparr>ln_node := Some n\<rparr>)
        (?w\<lparr>spurious := sp, list_head := Some n\<rparr>)\<rparr>))" if "list_head (lmem S) = head" for sp
      by (rule linv_push [OF i l]) (use A_Push that in \<open>auto simp: upd_node_def upd_local_def\<close>)
    show ?thesis
      using A_Push again again [of "spurious (lmem S)"] link link [of "spurious (lmem S)"]
      by (auto simp: wp_fails_spuriously set_own_def upd_node_def upd_local_def split: list.splits)
  next
    case (D_Reserve n)
    have "linv A (at_pc l (D_Swap n) (S\<lparr>lmem := upd_node n (\<lambda>nd. nd\<lparr>active_writers := active_writers nd + 1\<rparr>) (lmem S)\<rparr>))"
      by (rule mv) (use D_Reserve own use in \<open>auto simp: upd_node_def nth_update holds_def\<close>)
    then show ?thesis using D_Reserve by (simp add: reserve_writer_def)
  next
    case (D_Swap n)
    have n: "holds l n S" using h D_Swap own by simp
    have "\<not> building (lpcs S l') n" for l'
    proof
      assume b: "building (lpcs S l') n"
      then have "holds l' n S" by (simp add: holds_def)
      from D(5) [OF n this] b D_Swap show False by simp
    qed
    then have "published n S" using D(4) [OF n] by (simp add: published_def)
    then have "linv A (at_pc l (D_Release n) (S\<lparr>lmem := upd_node n (\<lambda>nd. nd\<lparr>in_use := NODE_COOLDOWN\<rparr>) (lmem S)\<rparr>))"
      by (intro mv) (use D_Swap own n in \<open>auto simp: upd_node_def nth_update holds_def\<close>)
    then show ?thesis using D_Swap D(4) [OF n] by simp
  next
    case (D_Release n)
    have "linv A (at_pc l Rest (S\<lparr>lmem := upd_local l (\<lambda>ln. ln\<lparr>ln_node := None\<rparr>)
        (upd_node n (\<lambda>nd. nd\<lparr>active_writers := active_writers nd - 1\<rparr>) (lmem S))\<rparr>))"
      by (rule mv) (use D_Release own pub in \<open>auto simp: upd_node_def upd_local_def nth_update holds_def published_def\<close>)
    then show ?thesis using D_Release by (simp add: release_writer_def set_own_def)
  next
    case V_Traverse
    have "linv A (at_pc l (visit_from (list_head (lmem S))) S)"
      by (rule look) (use V_Traverse own published_head [OF i] in \<open>auto simp: visit_from_def split: option.splits\<close>)
    then show ?thesis using V_Traverse by simp
  next
    case (V_Reserve n)
    have "linv A (at_pc l (V_Visit n) (S\<lparr>lmem := upd_node n (\<lambda>nd. nd\<lparr>active_writers := active_writers nd + 1\<rparr>) (lmem S)\<rparr>))"
      by (rule mv) (use V_Reserve own pub use in \<open>auto simp: upd_node_def nth_update holds_def\<close>)
    then show ?thesis using V_Reserve by (simp add: reserve_writer_def)
  next
    case (V_Visit n)
    have "linv A (at_pc l (V_Release n) S)"
      by (rule look) (use V_Visit own pub in auto)
    then show ?thesis using V_Visit by simp
  next
    case (V_Release n)
    have n: "published n S" using V_Release pub by simp
    have "linv A (at_pc l (visit_from (next_node (nodes (lmem S) ! n)))
        (S\<lparr>lmem := upd_node n (\<lambda>nd. nd\<lparr>active_writers := active_writers nd - 1\<rparr>) (lmem S)\<rparr>))"
      by (rule mv) (use V_Release own n use published_next [OF i n] in
          \<open>auto simp: upd_node_def nth_update holds_def visit_from_def split: option.splits\<close>)
    then show ?thesis using V_Release n by (simp add: release_writer_def upd_node_def nth_update published_def)
  qed
qed

section \<open>All schedules\<close>

lemma linv_happen:
  assumes i: "linv A S" and fin: "finite A" and l: "actor e \<in> A"
  shows "\<exists>S'. life_happen e S = Inr S' \<and> linv A S'"
proof -
  note look = linv_look [OF i fin]
  show ?thesis
  proof (cases e)
    case (Advance l)
    then show ?thesis
      using linv_step [OF i fin, of l] \<open>actor e \<in> A\<close> by (auto simp: wp_result advance_def)
  next
    case (Acquire l)
    then show ?thesis using look [of l A_Traverse] \<open>actor e \<in> A\<close> i by auto
  next
    case (Retire l)
    then show ?thesis using look [of l "D_Reserve n" for n] \<open>actor e \<in> A\<close> i by (auto split: option.splits)
  next
    case (Survey l)
    then show ?thesis using look [of l V_Traverse] \<open>actor e \<in> A\<close> i by auto
  qed
qed

lemma linv_play:
  "linv A S \<Longrightarrow> finite A \<Longrightarrow> actor ` set es \<subseteq> A \<Longrightarrow> \<exists>S'. life_play es S = Inr S' \<and> linv A S'"
proof (induction es arbitrary: S)
  case (Cons e es)
  from linv_happen [OF Cons.prems(1,2), of e] Cons.prems(3)
  obtain S1 where "life_happen e S = Inr S1" "linv A S1" by auto
  then show ?case using Cons by auto
qed simp

lemma linv_start: "linv A (life_start pl sp)"
proof -
  have "\<exists>ns. chain (start_world pl sp) None ns \<and> distinct ns \<and> set ns = {}" by (rule exI [of _ "[]"]) simp
  then show ?thesis by (simp add: linv_def life_start_def start_world_def local_default_def holds_def published_def)
qed

lemma linv_reach:
  fixes S :: "'v life"
  assumes "life_play es (life_start pl sp) = Inr S" and "actor ` set es \<subseteq> A" and "finite A"
  shows "linv A S"
proof -
  obtain S' where "life_play es (life_start pl sp :: 'v life) = Inr S'" "linv A S'"
    using linv_play [OF linv_start assms(3,2)] by blast
  then show ?thesis using assms(1) by simp
qed

lemma life_play_append:
  "life_play (es @ fs) S = (case life_play es S of Inl f \<Rightarrow> Inl f | Inr S' \<Rightarrow> life_play fs S')"
  by (induction es arbitrary: S) (auto split: sum.splits)

lemma own_published:
  assumes i: "linv A S" and n: "ln_node (locals (lmem S) l) = Some n"
  shows "published n S"
proof (cases "lpcs S l = D_Release n")
  case False
  then have h: "holds l n S" using n by (simp add: holds_def)
  have "\<not> building (lpcs S l') n" for l'
  proof
    assume b: "building (lpcs S l') n"
    then have "l = l'" using linvD(5) [OF i h, of l'] by (simp add: holds_def)
    then show False using b n linvD(2) [OF i, of l] by (cases "lpcs S l") auto
  qed
  then show ?thesis using linvD(4) [OF i h] by (simp add: published_def)
qed (use linvD(3) [OF i, of l] in simp)

end
