(* ===== verification/Life_Runs.thy ===== *)
theory Life_Runs
  imports Life_Cycle
begin

text \<open>
  What the life cycle of the nodes is for: a node in cooldown is not handed out under a writer, and a writer that goes over the list
  comes to every node that was in it.
\<close>

section \<open>Cooldown\<close>

text \<open>
  A node in cooldown with a writer on it stays there until the writer leaves, provided that nobody has already seen it
  without a writer and is about to free it.
\<close>

definition cooling :: "nid \<Rightarrow> 'v life \<Rightarrow> bool" where
  "cooling n S \<longleftrightarrow> n < length (nodes (lmem S)) \<and> in_use (nodes (lmem S) ! n) = NODE_COOLDOWN \<and> (\<forall>l. lpcs S l \<noteq> A_Cool n)"

lemma swap_used: "linv A S \<Longrightarrow> lpcs S l = D_Swap m \<Longrightarrow> in_use (nodes (lmem S) ! m) = NODE_USED"
  using linvD(2) [of A S l] linvD(4) [of A S l m] by (simp add: holds_def)

lemma reserved_nonzero:
  assumes i: "linv A S" and A: "finite A" "card A < 2 ^ 64"
    and v: "reserving (lpcs S v) n" and n: "n < length (nodes (lmem S))"
  shows "active_writers (nodes (lmem S) ! n) \<noteq> 0"
proof -
  have sub: "reservers S n \<subseteq> A" using linvD(1) [OF i] by (force simp: reservers_def)
  have "v \<in> reservers S n" using v by (simp add: reservers_def)
  then have "0 < card (reservers S n)" using reservers_finite [OF i A(1)] by (auto simp: card_gt_0_iff)
  moreover have "card (reservers S n) < 2 ^ 64" using card_mono [OF A(1) sub] A(2) by linarith
  ultimately show ?thesis
    using linvD(7) [OF i n] by (simp add: word_of_nat_eq_0_iff nat_dvd_not_less)
qed

lemma cooling_step:
  assumes i: "linv A S" and A: "finite A" "card A < 2 ^ 64"
    and v: "reserving (lpcs S v) n" and c: "cooling n S"
  shows "wp (life_step l (lpcs S l)) (\<lambda>y w'. cooling n (at_pc l y (S\<lparr>lmem := w'\<rparr>))) (lmem S)"
proof -
  have u: "n < length (nodes (lmem S))" "in_use (nodes (lmem S) ! n) = NODE_COOLDOWN" "\<And>l. lpcs S l \<noteq> A_Cool n"
    using c by (auto simp: cooling_def)
  have a: "active_writers (nodes (lmem S) ! n) \<noteq> 0" using reserved_nonzero [OF i A v u(1)] .
  show ?thesis
  proof (cases "lpcs S l")
    case (D_Swap m)
    then show ?thesis using swap_used [OF i D_Swap] u by (cases "m = n") (auto simp: cooling_def upd_node_def nth_update)
  qed (use u a in \<open>auto simp: cooling_def upd_node_def upd_local_def nth_update search_from_def visit_from_def alloc_node_def
      nth_append set_own_def wp_fails_spuriously reserve_writer_def release_writer_def split: option.splits list.splits\<close>)
qed

lemma cooling_happen:
  assumes i: "linv A S" and A: "finite A" "card A < 2 ^ 64"
    and v: "reserving (lpcs S v) n" and c: "cooling n S" and e: "life_happen e S = Inr S'"
  shows "cooling n S'"
proof (cases e)
  case (Advance l)
  then show ?thesis using cooling_step [OF i A v c, of l] e by (auto simp: wp_result advance_def)
qed (use c e in \<open>auto simp: cooling_def split: if_splits option.splits\<close>)

lemma bystander_stays:
  "life_happen e S = Inr S' \<Longrightarrow> actor e \<noteq> v \<Longrightarrow> lpcs S' v = lpcs S v"
  by (cases e) (auto simp: advance_def split: sum.splits if_splits option.splits)

lemma cooling_play:
  assumes A: "finite A" "card A < 2 ^ 64"
  shows "linv A S \<Longrightarrow> reserving (lpcs S v) n \<Longrightarrow> cooling n S \<Longrightarrow> actor ` set es \<subseteq> A - {v} \<Longrightarrow> life_play es S = Inr S' \<Longrightarrow>
    cooling n S'"
proof (induction es arbitrary: S)
  case (Cons e es)
  obtain S1 where S1: "life_happen e S = Inr S1" "linv A S1"
    using linv_happen [OF Cons.prems(1) A(1), of e] Cons.prems(4) by auto
  have "cooling n S1" by (rule cooling_happen [OF Cons.prems(1) A Cons.prems(2,3) S1(1)])
  moreover have "reserving (lpcs S1 v) n"
    using bystander_stays [OF S1(1), of v] Cons.prems(2,4) by auto
  ultimately show ?case using Cons.IH [OF S1(2)] Cons.prems(4,5) S1(1) by auto
qed simp

text \<open>
  Without the proviso it is not so: thread 2 sees the node 1 in cooldown and without a writer; the node is used again by
  thread 0, thread 1 comes as a writer, thread 0 gives the node up. Thread 2 frees the node and takes it, with the writer on it.
\<close>

definition aba_before :: "life_event list" where
  "aba_before =
     Acquire (Thread 1) # replicate 4 (Advance (Thread 1)) @
     Acquire (Thread 0) # replicate 6 (Advance (Thread 0)) @
     Retire (Thread 0) # replicate 3 (Advance (Thread 0)) @
     Acquire (Thread 2) # replicate 3 (Advance (Thread 2)) @
     Acquire (Thread 0) # replicate 5 (Advance (Thread 0)) @
     Survey (Thread 1) # replicate 2 (Advance (Thread 1)) @
     Retire (Thread 0) # replicate 3 (Advance (Thread 0))"

definition aba_after :: "life_event list" where
  "aba_after = replicate 2 (Advance (Thread 2))"

lemma aba_played:
  "leads_to aba_before (life_start (\<lambda>_. 8) [] :: unit life) (\<lambda>S.
     reserving (lpcs S (Thread 1)) 1 \<and> in_use (nodes (lmem S) ! 1) = NODE_COOLDOWN \<and> lpcs S (Thread 2) = A_Cool 1 \<and>
     leads_to aba_after S (\<lambda>S'. reserving (lpcs S' (Thread 1)) 1 \<and> holds (Thread 2) 1 S'))"
  by code_simp

section \<open>Walks\<close>

text \<open>The nodes a writer comes to while the events happen.\<close>

fun here :: "life_pc \<Rightarrow> nid list" where
  "here (V_Visit n) = [n]"
| "here _ = []"

fun visited :: "lid \<Rightarrow> life_event list \<Rightarrow> 'v life \<Rightarrow> nid list" where
  "visited l [] S = []"
| "visited l (e # es) S = (case life_happen e S of Inl f \<Rightarrow> [] | Inr S' \<Rightarrow> here (lpcs S' l) @ visited l es S')"

text \<open>Nothing is taken out of the list, and what comes after a node stays.\<close>

lemma published_step:
  assumes i: "linv A S" and n: "published n S"
  shows "wp (life_step l (lpcs S l)) (\<lambda>y w'. published n (at_pc l y (S\<lparr>lmem := w'\<rparr>)) \<and>
    next_node (nodes w' ! n) = next_node (nodes (lmem S) ! n)) (lmem S)"
proof -
  have u: "n < length (nodes (lmem S))" "\<And>l. \<not> building (lpcs S l) n" using n by (auto simp: published_def)
  show ?thesis
    using u u(2) [of l] swap_used [OF i, of l]
    by (cases "lpcs S l") (auto simp: published_def upd_node_def upd_local_def nth_update search_from_def visit_from_def alloc_node_def
      nth_append set_own_def wp_fails_spuriously reserve_writer_def release_writer_def split: option.splits list.splits)
qed

lemma published_happen:
  assumes i: "linv A S" and n: "published n S" and e: "life_happen e S = Inr S'"
  shows "published n S' \<and> next_node (nodes (lmem S') ! n) = next_node (nodes (lmem S) ! n)"
proof (cases e)
  case (Advance l)
  then show ?thesis using published_step [OF i n, of l] e by (auto simp: wp_result advance_def)
qed (use n e in \<open>auto simp: published_def split: if_splits option.splits\<close>)

lemma chain_bound: "chain w h ns \<Longrightarrow> n \<in> set ns \<Longrightarrow> n < length (nodes w)"
  by (induction ns arbitrary: h) auto

lemma chain_Some: "chain w (Some m) ns \<longleftrightarrow> (\<exists>ms. ns = m # ms \<and> m < length (nodes w) \<and> chain w (next_node (nodes w ! m)) ms)"
  by (cases ns) auto

lemma chain_None: "chain w None ns \<longleftrightarrow> ns = []"
  by (cases ns) auto

lemma chain_published: "linv A S \<Longrightarrow> chain (lmem S) h ns \<Longrightarrow> (\<And>n. h = Some n \<Longrightarrow> published n S) \<Longrightarrow> n \<in> set ns \<Longrightarrow> published n S"
proof (induction ns arbitrary: h)
  case (Cons a ns)
  then have "published a S" by simp
  then have "published m S" if "next_node (nodes (lmem S) ! a) = Some m" for m
    using published_next [OF Cons.prems(1)] that by blast
  then show ?case using Cons \<open>published a S\<close> by auto
qed simp

text \<open>The nodes \<open>K\<close> are still in front of the writer.\<close>

fun ahead :: "life_pc \<Rightarrow> nid set \<Rightarrow> 'v life \<Rightarrow> bool" where
  "ahead V_Traverse K S = (\<forall>n\<in>K. published n S)"
| "ahead (V_Reserve m) K S = (\<exists>ns. chain (lmem S) (Some m) ns \<and> K \<subseteq> set ns)"
| "ahead (V_Visit m) K S = (\<exists>ns. chain (lmem S) (next_node (nodes (lmem S) ! m)) ns \<and> K \<subseteq> set ns)"
| "ahead (V_Release m) K S = (\<exists>ns. chain (lmem S) (next_node (nodes (lmem S) ! m)) ns \<and> K \<subseteq> set ns)"
| "ahead _ K S = (K = {})"

lemma ahead_kept:
  assumes i: "linv A S" and e: "life_happen e S = Inr S'" and x: "\<And>m. place_of x = Some m \<Longrightarrow> published m S"
    and a: "ahead x K S"
  shows "ahead x K S'"
proof -
  have kept: "chain (lmem S') h ns" if c: "chain (lmem S) h ns" and h: "\<And>n. h = Some n \<Longrightarrow> published n S" for h ns
  proof (rule chain_cong [OF c])
    fix n assume "n \<in> set ns"
    with chain_published [OF i c h] have "published n S" by blast
    then show "n < length (nodes (lmem S')) \<and> next_node (nodes (lmem S') ! n) = next_node (nodes (lmem S) ! n)"
      using published_happen [OF i _ e] by (simp add: published_def)
  qed
  have next_same: "next_node (nodes (lmem S') ! m) = next_node (nodes (lmem S) ! m)" if "place_of x = Some m" for m
    using published_happen [OF i x [OF that] e] by blast
  have nxt: "chain (lmem S') (next_node (nodes (lmem S') ! m)) ns"
    if "place_of x = Some m" "chain (lmem S) (next_node (nodes (lmem S) ! m)) ns" for m ns
    unfolding next_same [OF that(1)] using kept [OF that(2)] published_next [OF i x [OF that(1)]] by blast
  have all: "published n S'" if "published n S" for n using published_happen [OF i that e] by blast
  show ?thesis
  proof (cases x)
    case V_Traverse
    then show ?thesis using a all by simp
  next
    case (V_Reserve m)
    then obtain ns where ns: "chain (lmem S) (Some m) ns" "K \<subseteq> set ns" using a by auto
    have "chain (lmem S') (Some m) ns" by (rule kept [OF ns(1)]) (use x V_Reserve in simp)
    then show ?thesis using ns(2) V_Reserve by auto
  next
    case (V_Visit m)
    then show ?thesis using a nxt by auto
  next
    case (V_Release m)
    then show ?thesis using a nxt by auto
  qed (use a in auto)
qed

text \<open>An access of the writer itself takes it on; the node it comes to is behind it then.\<close>

lemma ahead_step:
  assumes i: "linv A S" and a: "ahead (lpcs S l) K S"
  shows "wp (life_step l (lpcs S l)) (\<lambda>y w'. ahead y (K - set (here y)) (at_pc l y (S\<lparr>lmem := w'\<rparr>))) (lmem S)"
proof -
  have same: "chain w' h ns" if "chain (lmem S) h ns" "length (nodes w') = length (nodes (lmem S))"
    "\<And>n. n < length (nodes (lmem S)) \<Longrightarrow> next_node (nodes w' ! n) = next_node (nodes (lmem S) ! n)" for w' h ns
    by (rule chain_cong [OF that(1)]) (use that chain_bound [OF that(1)] in auto)
  show ?thesis
  proof (cases "lpcs S l")
    case V_Traverse
    obtain ns where "chain (lmem S) (list_head (lmem S)) ns" "set ns = {n. published n S}" using linvD(6) [OF i] by blast
    then show ?thesis using a V_Traverse by (auto simp: visit_from_def chain_None split: option.splits)
  next
    case (V_Reserve n)
    then obtain ns where ns: "chain (lmem S) (next_node (nodes (lmem S) ! n)) ns" "n < length (nodes (lmem S))" "K \<subseteq> insert n (set ns)"
      using a by (auto simp: chain_Some)
    let ?w = "upd_node n (\<lambda>nd. nd\<lparr>active_writers := active_writers nd + 1\<rparr>) (lmem S)"
    have "chain ?w (next_node (nodes ?w ! n)) ns"
      using same [OF ns(1), of ?w] ns(2) by (simp add: upd_node_def nth_update)
    then show ?thesis using V_Reserve ns(3) by (auto simp: reserve_writer_def)
  next
    case (V_Visit n)
    then show ?thesis using a by auto
  next
    case (V_Release n)
    then obtain ns where ns: "chain (lmem S) (next_node (nodes (lmem S) ! n)) ns" "K \<subseteq> set ns" using a by auto
    let ?w = "upd_node n (\<lambda>nd. nd\<lparr>active_writers := active_writers nd - 1\<rparr>) (lmem S)"
    have "n < length (nodes (lmem S))" using linvD(3) [OF i, of l n] V_Release by (simp add: published_def)
    then have "next_node (nodes ?w ! n) = next_node (nodes (lmem S) ! n)" by (simp add: upd_node_def nth_update)
    moreover have "chain ?w (next_node (nodes (lmem S) ! n)) ns"
      using same [OF ns(1), of ?w] by (simp add: upd_node_def nth_update)
    ultimately show ?thesis using V_Release ns(2)
      by (auto simp: release_writer_def visit_from_def chain_None simp del: nodes_upd_node split: option.splits)
  qed (use a swap_used [OF i, of l] in \<open>auto simp: search_from_def set_own_def alloc_node_def wp_fails_spuriously reserve_writer_def
      release_writer_def split: option.splits list.splits\<close>)
qed

lemma ahead_mono: "ahead x K S \<Longrightarrow> K' \<subseteq> K \<Longrightarrow> ahead x K' S"
  by (cases x; fastforce)

lemma ahead_happen:
  assumes i: "linv A S" and e: "life_happen e S = Inr S'" and a: "ahead (lpcs S l) K S"
  shows "ahead (lpcs S' l) (K - set (here (lpcs S' l))) S'"
proof (cases "actor e = l")
  case False
  have "ahead (lpcs S l) K S'" by (rule ahead_kept [OF i e linvD(3) [OF i] a])
  then show ?thesis using bystander_stays [OF e False] ahead_mono by fastforce
next
  case True
  show ?thesis
  proof (cases e)
    case (Advance m)
    then show ?thesis using ahead_step [OF i a] e True by (auto simp: wp_result advance_def)
  qed (use e a True ahead_mono [OF a Diff_subset] in \<open>auto split: if_splits option.splits\<close>)
qed

lemma ahead_play:
  assumes A: "finite A"
  shows "linv A S \<Longrightarrow> ahead (lpcs S l) K S \<Longrightarrow> actor ` set es \<subseteq> A \<Longrightarrow> life_play es S = Inr S' \<Longrightarrow>
    ahead (lpcs S' l) (K - set (visited l es S)) S'"
proof (induction es arbitrary: S K)
  case (Cons e es)
  obtain S1 where S1: "life_happen e S = Inr S1" "linv A S1"
    using linv_happen [OF Cons.prems(1) A, of e] Cons.prems(3) by auto
  have "ahead (lpcs S' l) (K - set (here (lpcs S1 l)) - set (visited l es S1)) S'"
    by (rule Cons.IH [OF S1(2) ahead_happen [OF Cons.prems(1) S1(1) Cons.prems(2)]]) (use Cons.prems S1 in auto)
  moreover have "K - set (visited l (e # es) S) = K - set (here (lpcs S1 l)) - set (visited l es S1)"
    using S1(1) by auto
  ultimately show ?case by simp
qed simp

section \<open>Examples\<close>

text \<open>
  A writer that goes over two nodes while a third one is added and the second one is given up; a node that is given up with a writer on
  it, and a local node that looks for one.
\<close>

definition walk_before :: "life_event list" where
  "walk_before =
     Acquire (Thread 0) # replicate 4 (Advance (Thread 0)) @
     Acquire (Thread 1) # replicate 6 (Advance (Thread 1)) @ [Survey (Thread 0)]"

definition walk_during :: "life_event list" where
  "walk_during =
     [Advance (Thread 0), Advance (Thread 0), Acquire (Thread 2)] @ replicate 9 (Advance (Thread 2)) @
     Retire (Thread 1) # replicate 3 (Advance (Thread 1)) @ replicate 5 (Advance (Thread 0))"

lemma walk_played:
  "leads_to walk_before (life_start (\<lambda>_. 8) [] :: unit life) (\<lambda>S.
     lpcs S (Thread 0) = V_Traverse \<and> ln_node (locals (lmem S) (Thread 1)) = Some 1 \<and>
     leads_to walk_during S (\<lambda>S'. lpcs S' (Thread 0) = Rest))"
  by code_simp

definition guard_before :: "life_event list" where
  "guard_before =
     Acquire (Thread 1) # replicate 4 (Advance (Thread 1)) @
     Acquire (Thread 0) # replicate 6 (Advance (Thread 0)) @
     Survey (Thread 1) # replicate 2 (Advance (Thread 1)) @
     Retire (Thread 0) # replicate 3 (Advance (Thread 0))"

definition guard_during :: "life_event list" where
  "guard_during = Acquire (Thread 2) # replicate 9 (Advance (Thread 2))"

lemma guard_played:
  "leads_to guard_before (life_start (\<lambda>_. 8) [] :: unit life) (\<lambda>S.
     reserving (lpcs S (Thread 1)) 1 \<and> in_use (nodes (lmem S) ! 1) = NODE_COOLDOWN \<and> 1 < length (nodes (lmem S)) \<and>
     lpcs S (Thread 0) = Rest \<and> lpcs S (Thread 1) = V_Visit 1)"
  by code_simp

end
