(* ===== verification/Execute.thy ===== *)
theory Execute
  imports Example
begin

text \<open>
  Symbolic execution of operations by the simplifier: equations that run an operation on a concrete world. A continuation is
  looked at when it is its turn, not before (\<open>bnd_freeze\<close>).
\<close>

named_theorems run_simps \<open>equations to run operations on concrete worlds\<close>

lemma bnd_freeze: "bnd m f w = bnd m f w"
  by (rule refl)

lemma bnd_run [run_simps]: "bnd m f w = (case m w of Inl e \<Rightarrow> Inl e | Inr p \<Rightarrow> (case p of (a, u) \<Rightarrow> f a u))"
  by (simp add: bnd_def split: sum.splits prod.splits)

lemma basic_run [run_simps]:
  "ret a w = Inr (a, w)" "raise e w = Inl e" "gets g w = Inr (g w, w)" "modify h w = Inr ((), h w)"
  "require e b w = (if b then Inr ((), w) else Inl e)"
  "unwrap e x w = (case x of None \<Rightarrow> Inl e | Some a \<Rightarrow> Inr (a, w))"
  by (simp_all add: ret_def raise_def gets_def modify_def require_def unwrap_def split: option.splits)

text \<open>Updates of the heap are kept in the order of the addresses.\<close>

lemma upd_order [run_simps]: "(p :: usize) < q \<Longrightarrow> h(q := y, p := x) = h(p := x, q := y)"
  by (auto simp: fun_upd_def)

lemma const_upd [run_simps]: "(\<lambda>_. c)(x := c) = (\<lambda>_. c)"
  by auto

lemma const_upd_back [run_simps]: "y \<noteq> x \<Longrightarrow> (\<lambda>_. c)(x := a, y := c) = (\<lambda>_. c)(x := a)"
  by (auto simp: fun_upd_def)

lemma slot_indices [run_simps]: "[0..<8] = [0, 1, 2, 3, 4, 5, 6, 7 :: nat]"
  by (simp add: upt_rec)

lemma help_rounds_two [run_simps]: "help_rounds = Suc (Suc 0)"
  by (simp add: help_rounds_def)

lemmas data_run [run_simps] =
  start_world_def local_default_def node_default_def fast_slots_default_list helping_slots_default_def ex_place_def debt_none_def
  in_use_defs tag_defs upd_node_def upd_helping_def upd_local_def Let_def settle_def rc_count_def

lemmas count_run [run_simps] =
  heap_op_def t_inc_def t_dec_def t_clone_def t_drop_def rc_inc_def rc_dec_def strong_inc_def strong_dec_def weak_inc_def weak_dec_def
  arc_new_def arc_downgrade_def arc_deref_def strong_count_def weak_count_def

lemmas cell_run [run_simps] =
  ptr_load_def ptr_store_def ptr_swap_def ptr_cas_def ptr_cas_weak_def fails_spuriously_def free_storage_def

lemmas debt_run [run_simps] =
  fast_get_debt_def helping_get_debt_def helping_init_def helping_confirm_def helping_help_def
  traverse_def reserve_writer_def release_writer_def start_cooldown_def check_cooldown_def try_claim_def alloc_node_def node_get_def
  all_slots_def local_drop_def thread_exit_def ensure_node_def local_with_def own_node_def new_fast_def new_helping_def
  confirm_helping_def local_help_def debt_pay_def visit_node_def pay_all_def

lemmas strategy_run [run_simps] =
  protection_new_def from_inner_def protection_as_ptr_def protection_drop_def protection_into_inner_def attempt_def fallback_def
  hybrid_load_def hybrid_replacement_def wait_for_readers_def hybrid_compare_and_swap_def
  lock_read_def unlock_read_def lock_write_def unlock_write_def rw_load_def rw_wait_for_readers_def rw_compare_and_swap_def ptr_eq_def

lemmas storage_run [run_simps] =
  guard_into_inner_def guard_from_inner_def guard_deref_def guard_from_def guard_default_def guard_debug_fmt_def guard_display_fmt_def
  with_strategy_def arc_swap_from_def arc_swap_new_def arc_swap_default_def from_pointee_def from_pointee_option_def arc_swap_empty_def
  const_empty_def arc_swap_load_def load_full_def arc_swap_swap_def arc_swap_store_def compare_and_swap_def rcu_def
  arc_swap_into_inner_def arc_swap_drop_def debug_fmt_def display_fmt_def

lemmas client_run [run_simps] =
  cache_new_def cache_from_def load_no_revalidate_def revalidate_def cache_load_def cache_clone_def cache_drop_def
  cache_access_load_def cache_map_def map_cache_load_def arc_swap_access_def direct_deref_def direct_access_def map_guard_deref_def
  map_new_def arc_swap_map_def constant_access_def dyn_load_def dyn_access_def access_convert_def peek_def

section \<open>Tests\<close>

text \<open>
  A test passes if it runs through, with all its assertions, and leaves nothing behind: no storage and nothing on the heap.
\<close>

definition passes :: "('v world, unit) op \<Rightarrow> bool" where
  "passes m = (case m (start_world ex_place []) of
      Inl e \<Rightarrow> False
    | Inr (_, w) \<Rightarrow> heap w = Map.empty \<and> storage w = Map.empty)"

definition expect :: "bool \<Rightarrow> ('v world, unit) op" where
  "expect b = require Assert_Failed b"

text \<open>\<open>Arc::new\<close> with an allocator that gives out the first address that is free.\<close>

definition arc_make :: "'v \<Rightarrow> ('v world, smart) op" where
  "arc_make v =
     bnd (gets (\<lambda>w. find (\<lambda>p. heap w p = None) [4096, 8192, 12288, 16384, 20480])) (\<lambda>p.
     bnd (unwrap (Bad_Pointer 0) p) (\<lambda>p. arc_new p v))"

definition arc_clone :: "smart \<Rightarrow> ('v world, smart) op" where
  "arc_clone v = bnd (t_clone v) (\<lambda>_. ret v)"

text \<open>\<open>upgrade\<close> of a weak pointer.\<close>

definition weak_upgrade :: "smart \<Rightarrow> ('v world, smart) op" where
  "weak_upgrade v =
     bnd (gets (\<lambda>w. as_ptr v \<noteq> 0 \<and> strong_count w v \<noteq> 0)) (\<lambda>alive.
     if alive then bnd (t_clone (ArcP (as_ptr v))) (\<lambda>_. ret (SomeP (ArcP (as_ptr v)))) else ret NoneP)"

text \<open>\<open>strong_count\<close> and \<open>weak_count\<close> in an assertion.\<close>

definition expect_strong :: "nat \<Rightarrow> smart \<Rightarrow> ('v world, unit) op" where
  "expect_strong n v = bnd (gets (\<lambda>w. strong_count w v)) (\<lambda>c. expect (n = c))"

definition expect_weak :: "nat \<Rightarrow> smart \<Rightarrow> ('v world, unit) op" where
  "expect_weak n v = bnd (gets (\<lambda>w. weak_count w v)) (\<lambda>c. expect (n = c))"

text \<open>An assertion on what a smart pointer points to.\<close>

definition expect_value :: "'v \<Rightarrow> smart \<Rightarrow> ('v world, unit) op" where
  "expect_value x v = bnd (arc_deref v) (\<lambda>y. expect (x = y))"

text \<open>A guard that lives for one assertion.\<close>

definition with_guard ::
  "strategy \<Rightarrow> kind \<Rightarrow> tid \<Rightarrow> usize \<Rightarrow> (smart \<Rightarrow> ('v world, unit) op) \<Rightarrow> ('v world, unit) op" where
  "with_guard s k t a f =
     bnd (arc_swap_load s k t a) (\<lambda>g. bnd (f (guard_deref g)) (\<lambda>_. protected_drop g))"

fun for_each :: "'i list \<Rightarrow> ('i \<Rightarrow> ('w, unit) op) \<Rightarrow> ('w, unit) op" where
  "for_each [] body = ret ()"
| "for_each (i # is) body = bnd (body i) (\<lambda>_. for_each is body)"

fun collect_guards :: "nat \<Rightarrow> ('w, 'g) op \<Rightarrow> ('w, 'g list) op" where
  "collect_guards 0 m = ret []"
| "collect_guards (Suc n) m = bnd m (\<lambda>g. bnd (collect_guards n m) (\<lambda>gs. ret (g # gs)))"

lemmas test_run [run_simps] =
  passes_def expect_def arc_make_def arc_clone_def weak_upgrade_def expect_strong_def expect_weak_def expect_value_def with_guard_def

text \<open>The strategies the tests are run with.\<close>

lemma strategy_cases [case_names default full lock]:
  "(s = DefaultStrategy \<Longrightarrow> P) \<Longrightarrow> (s = FillFastSlots \<Longrightarrow> P) \<Longrightarrow> (s = RwLockStrategy \<Longrightarrow> P) \<Longrightarrow> P"
  by (cases s) (metis (full_types))+

end
