(* ===== verification/Unit_Tests.thy ===== *)
theory Unit_Tests
  imports Execute
begin

text \<open>
  The unit tests of lib.rs that do not depend on how threads happen to run, as operations of the model: every call, every
  assertion and every value that goes out of scope. Thread 0 is the main one; the storage of a test is the cell 16. The number of rounds
  of a loop is a parameter where the code has a constant.
\<close>

section \<open>Storages (lib.rs, for every strategy)\<close>

definition swap_load_round :: "strategy \<Rightarrow> (nat world, unit) op" where
  "swap_load_round s =
     bnd (arc_make 42) (\<lambda>arc.
     bnd (arc_clone arc) (\<lambda>copy.
     bnd (arc_swap_from 16 copy) (\<lambda>_.
     bnd (with_guard s KArc 0 16 (expect_value 42)) (\<lambda>_.
     bnd (with_guard s KArc 0 16 (expect_value 42)) (\<lambda>_.
     bnd (arc_make 0) (\<lambda>new_arc.
     bnd (arc_clone new_arc) (\<lambda>copy.
     bnd (arc_swap_swap s KArc 0 16 copy) (\<lambda>old.
     bnd (expect_value 42 old) (\<lambda>_.
     bnd (t_drop old) (\<lambda>_.
     bnd (with_guard s KArc 0 16 (expect_value 0)) (\<lambda>_.
     bnd (load_full s KArc 0 16) (\<lambda>loaded.
     bnd (expect_strong 3 loaded) (\<lambda>_.
     bnd (expect_weak 0 loaded) (\<lambda>_.
     bnd (expect_strong 1 arc) (\<lambda>_.
     bnd (expect_weak 0 arc) (\<lambda>_.
     bnd (t_drop loaded) (\<lambda>_.
     bnd (t_drop new_arc) (\<lambda>_.
     bnd (arc_swap_drop s KArc 0 16) (\<lambda>_.
     t_drop arc)))))))))))))))))))"

definition test_swap_load :: "nat \<Rightarrow> strategy \<Rightarrow> (nat world, unit) op" where
  "test_swap_load rounds s = for_each [0..<rounds] (\<lambda>_. swap_load_round s)"

definition test_load_null :: "strategy \<Rightarrow> (nat world, unit) op" where
  "test_load_null s =
     bnd (arc_swap_default 16 (ret NoneP)) (\<lambda>_.
     bnd (arc_swap_load s (KOption KArc) 0 16) (\<lambda>guard.
     bnd (expect (guard_deref guard = NoneP)) (\<lambda>_.
     bnd (arc_make 42) (\<lambda>arc.
     bnd (arc_swap_store s (KOption KArc) 0 16 (SomeP arc)) (\<lambda>_.
     bnd (with_guard s (KOption KArc) 0 16 (expect_value 42)) (\<lambda>_.
     bnd (protected_drop guard) (\<lambda>_.
     arc_swap_drop s (KOption KArc) 0 16)))))))"

definition test_from_into :: "strategy \<Rightarrow> (nat world, unit) op" where
  "test_from_into s =
     bnd (arc_make 42) (\<lambda>a.
     bnd (arc_swap_new 16 a) (\<lambda>_.
     bnd (arc_swap_load s KArc 0 16) (\<lambda>guard.
     bnd (arc_swap_into_inner s KArc 0 16) (\<lambda>a.
     bnd (expect_value 42 a) (\<lambda>_.
     bnd (expect_strong 2 a) (\<lambda>_.
     bnd (protected_drop guard) (\<lambda>_.
     bnd (expect_strong 1 a) (\<lambda>_.
     t_drop a))))))))"

text \<open>\<open>ReportDrop\<close> counts the values that were destroyed: here there is one to look at.\<close>

definition expect_dropped :: "nat \<Rightarrow> usize \<Rightarrow> ('v world, unit) op" where
  "expect_dropped n p = bnd (gets (\<lambda>w. if heap w p = None then 1 else 0)) (\<lambda>cnt. expect (cnt = n))"

text \<open>The threads 1 and 2 wait for each other at a barrier whenever it is the turn of the other one, and end with the scope.\<close>

definition drop_in_thread_round :: "strategy \<Rightarrow> (nat world, unit) op" where
  "drop_in_thread_round s =
     bnd (arc_make 0) (\<lambda>arc.
     bnd (arc_swap_from 16 arc) (\<lambda>_.
     bnd (expect_dropped 0 (as_ptr arc)) (\<lambda>_.
     bnd (arc_swap_load s KArc 1 16) (\<lambda>guard.
     bnd (arc_make 0) (\<lambda>default.
     bnd (arc_swap_store s KArc 2 16 default) (\<lambda>_.
     bnd (expect_dropped 0 (as_ptr arc)) (\<lambda>_.
     bnd (protected_drop guard) (\<lambda>_.
     bnd (expect_dropped 1 (as_ptr arc)) (\<lambda>_.
     bnd (expect_dropped 1 (as_ptr arc)) (\<lambda>_.
     bnd (thread_exit 1) (\<lambda>_.
     bnd (thread_exit 2) (\<lambda>_.
     arc_swap_drop s KArc 0 16))))))))))))"

definition test_guard_drop_in_thread :: "nat \<Rightarrow> strategy \<Rightarrow> (nat world, unit) op" where
  "test_guard_drop_in_thread rounds s = for_each [0..<rounds] (\<lambda>_. drop_in_thread_round s)"

definition drop_elsewhere_round :: "strategy \<Rightarrow> (nat world, unit) op" where
  "drop_elsewhere_round s =
     bnd (arc_make 0) (\<lambda>arc.
     bnd (arc_swap_from 16 arc) (\<lambda>_.
     bnd (expect_dropped 0 (as_ptr arc)) (\<lambda>_.
     bnd (arc_swap_load s KArc 0 16) (\<lambda>guard.
     bnd (arc_swap_drop s KArc 0 16) (\<lambda>_.
     bnd (expect_dropped 0 (as_ptr arc)) (\<lambda>_.
     bnd (protected_drop guard) (\<lambda>_.
     bnd (thread_exit 1) (\<lambda>_.
     expect_dropped 1 (as_ptr arc)))))))))"

definition test_guard_drop_in_another_thread :: "nat \<Rightarrow> strategy \<Rightarrow> (nat world, unit) op" where
  "test_guard_drop_in_another_thread rounds s = for_each [0..<rounds] (\<lambda>_. drop_elsewhere_round s)"

definition test_load_option :: "strategy \<Rightarrow> (nat world, unit) op" where
  "test_load_option s =
     bnd (arc_make 42) (\<lambda>arc.
     bnd (arc_swap_new 16 (SomeP arc)) (\<lambda>_.
     bnd (arc_swap_load s (KOption KArc) 0 16) (\<lambda>g.
     bnd (guard_into_inner (KOption KArc) g) (\<lambda>opt.
     bnd (expect_value 42 opt) (\<lambda>_.
     bnd (t_drop opt) (\<lambda>_.
     bnd (arc_swap_store s (KOption KArc) 0 16 NoneP) (\<lambda>_.
     bnd (with_guard s (KOption KArc) 0 16 (\<lambda>v. expect (v = NoneP))) (\<lambda>_.
     arc_swap_drop s (KOption KArc) 0 16))))))))"

text \<open>\<open>show\<close> is how the pointed-to type is formatted.\<close>

definition show_with :: "('v \<Rightarrow> string) \<Rightarrow> smart \<Rightarrow> ('v world, string) op" where
  "show_with show v = bnd (arc_deref v) (\<lambda>x. ret (show x))"

definition test_debug_impl :: "(nat \<Rightarrow> string) \<Rightarrow> strategy \<Rightarrow> (nat world, unit) op" where
  "test_debug_impl show s =
     bnd (arc_make 42) (\<lambda>arc.
     bnd (arc_swap_from 16 arc) (\<lambda>_.
     bnd (debug_fmt s KArc 0 16 (show_with show)) (\<lambda>out.
     bnd (expect (out = ''ArcSwapAny('' @ show 42 @ '')'')) (\<lambda>_.
     bnd (arc_swap_load s KArc 0 16) (\<lambda>g.
     bnd (guard_debug_fmt (show_with show) g) (\<lambda>out.
     bnd (expect (out = show 42)) (\<lambda>_.
     bnd (protected_drop g) (\<lambda>_.
     arc_swap_drop s KArc 0 16))))))))"

definition test_display_impl :: "(nat \<Rightarrow> string) \<Rightarrow> strategy \<Rightarrow> (nat world, unit) op" where
  "test_display_impl show s =
     bnd (arc_make 42) (\<lambda>arc.
     bnd (arc_swap_from 16 arc) (\<lambda>_.
     bnd (display_fmt s KArc 0 16 (show_with show)) (\<lambda>out.
     bnd (expect (out = show 42)) (\<lambda>_.
     bnd (arc_swap_load s KArc 0 16) (\<lambda>g.
     bnd (guard_display_fmt (show_with show) g) (\<lambda>out.
     bnd (expect (out = show 42)) (\<lambda>_.
     bnd (protected_drop g) (\<lambda>_.
     arc_swap_drop s KArc 0 16))))))))"

section \<open>Storages (lib.rs, with the default strategy)\<close>

text \<open>A closure of \<open>rcu\<close> that returns a value; it is put into a new \<open>Arc\<close>.\<close>

definition pure_closure :: "('v \<Rightarrow> 'v) \<Rightarrow> smart \<Rightarrow> ('v world, fault + smart) op" where
  "pure_closure f v = bnd (arc_deref v) (\<lambda>x. bnd (arc_make (f x)) (\<lambda>new. ret (Inr new)))"

text \<open>The result of \<open>rcu\<close> is dropped; a panic goes on.\<close>

definition rcu_drop :: "nat \<Rightarrow> (smart \<Rightarrow> ('v world, fault + smart) op) \<Rightarrow> ('v world, unit) op" where
  "rcu_drop rounds f =
     bnd (rcu rounds DefaultStrategy KArc 0 16 f) (\<lambda>r. case r of Inl e \<Rightarrow> raise e | Inr old \<Rightarrow> t_drop old)"

text \<open>
  The outer closure looks at the value it was given, runs the inner \<open>rcu\<close> while it is below ten, and returns the old value: the exchange fails until
  the value is ten, in the eleventh round. The inner exchange succeeds at once.
\<close>

definition recursive_closure :: "smart \<Rightarrow> (nat world, fault + smart) op" where
  "recursive_closure v =
     bnd (arc_deref v) (\<lambda>i.
     bnd (if i < 10 then rcu_drop 1 (pure_closure (\<lambda>i. i + 1)) else ret ()) (\<lambda>_.
     bnd (arc_make i) (\<lambda>new. ret (Inr new))))"

definition test_recursive :: "(nat world, unit) op" where
  "test_recursive =
     bnd (arc_make 0) (\<lambda>arc.
     bnd (arc_swap_from 16 arc) (\<lambda>_.
     bnd (rcu_drop 11 recursive_closure) (\<lambda>_.
     bnd (with_guard DefaultStrategy KArc 0 16 (expect_value 10)) (\<lambda>_.
     bnd (load_full DefaultStrategy KArc 0 16) (\<lambda>full.
     bnd (expect_strong 2 full) (\<lambda>_.
     bnd (t_drop full) (\<lambda>_.
     arc_swap_drop DefaultStrategy KArc 0 16)))))))"

definition test_rcu_panic :: "(nat world, unit) op" where
  "test_rcu_panic =
     bnd (arc_make 0) (\<lambda>arc.
     bnd (arc_swap_from 16 arc) (\<lambda>_.
     bnd (rcu 1 DefaultStrategy KArc 0 16 (\<lambda>_. ret (Inl User_Panic))) (\<lambda>caught.
     bnd (expect (caught = Inl User_Panic)) (\<lambda>_.
     bnd (arc_make 42) (\<lambda>new.
     bnd (arc_swap_swap DefaultStrategy KArc 0 16 new) (\<lambda>old.
     bnd (expect_strong 1 old) (\<lambda>_.
     bnd (t_drop old) (\<lambda>_.
     arc_swap_drop DefaultStrategy KArc 0 16))))))))"

definition test_nulls :: "(nat world, unit) op" where
  "test_nulls =
     (let k = KOption KArc; s = DefaultStrategy in
     bnd (arc_make 0) (\<lambda>arc.
     bnd (arc_swap_from 16 (SomeP arc)) (\<lambda>_.
     bnd (arc_swap_swap s k 0 16 NoneP) (\<lambda>orig.
     bnd (expect_strong 1 orig) (\<lambda>_.
     bnd (t_drop orig) (\<lambda>_.
     bnd (arc_swap_load s k 0 16) (\<lambda>null.
     bnd (expect (guard_deref null = NoneP)) (\<lambda>_.
     bnd (arc_make 42) (\<lambda>a.
     bnd (arc_clone a) (\<lambda>copy.
     bnd (compare_and_swap s k 0 16 (PtrArg 0) (SomeP copy)) (\<lambda>orig.
     bnd (expect (guard_deref orig = NoneP)) (\<lambda>_.
     bnd (expect_strong 2 a) (\<lambda>_.
     bnd (compare_and_swap s k 0 16 (RefArg NoneP) NoneP) (\<lambda>prev.
     bnd (guard_into_inner k prev) (\<lambda>orig2.
     bnd (expect_strong 3 a) (\<lambda>_.
     bnd (expect (ptr_eq (RefArg a) (RefArg orig2))) (\<lambda>_.
     bnd (t_drop orig2) (\<lambda>_.
     bnd (protected_drop orig) (\<lambda>_.
     bnd (t_drop a) (\<lambda>_.
     bnd (protected_drop null) (\<lambda>_.
     arc_swap_drop s k 0 16)))))))))))))))))))))"

text \<open>\<open>fillup\<close> holds guards in every other round.\<close>

definition cas_ref_cnt_round :: "nat \<Rightarrow> nat \<Rightarrow> (nat world, unit) op" where
  "cas_ref_cnt_round iterations i =
     (let k = KArc; s = DefaultStrategy;
          fillup = collect_guards (if even i then iterations else 0) (arc_swap_load s k 0 16) in
       bnd (load_full s k 0 16) (\<lambda>orig.
       bnd (expect_value i orig) (\<lambda>_.
       bnd (if odd i then expect_strong 2 orig else ret ()) (\<lambda>_.
       bnd (arc_make (i + 1)) (\<lambda>n1.
       bnd (fillup) (\<lambda>guards.
       bnd (arc_clone n1) (\<lambda>copy.
       bnd (compare_and_swap s k 0 16 (RefArg orig) copy) (\<lambda>prev.
       bnd (expect (ptr_eq (RefArg orig) (GuardRefArg prev))) (\<lambda>_.
       bnd (for_each guards protected_drop) (\<lambda>_.
       bnd (expect_strong 2 orig) (\<lambda>_.
       bnd (expect_strong 2 n1) (\<lambda>_.
       bnd (with_guard s k 0 16 (expect_value (i + 1))) (\<lambda>_.
       bnd (arc_make i) (\<lambda>n2.
       bnd (protected_drop prev) (\<lambda>_.
       bnd (fillup) (\<lambda>guards.
       bnd (arc_clone n2) (\<lambda>copy.
       bnd (compare_and_swap s k 0 16 (RefArg orig) copy) (\<lambda>prev.
       bnd (guard_into_inner k prev) (\<lambda>prev.
       bnd (for_each guards protected_drop) (\<lambda>_.
       bnd (expect (ptr_eq (RefArg n1) (RefArg prev))) (\<lambda>_.
       bnd (expect_strong 1 orig) (\<lambda>_.
       bnd (expect_strong 3 n1) (\<lambda>_.
       bnd (expect_strong 1 n2) (\<lambda>_.
       bnd (with_guard s k 0 16 (expect_value (i + 1))) (\<lambda>_.
       bnd (t_drop prev) (\<lambda>_.
       bnd (t_drop n2) (\<lambda>_.
       bnd (t_drop n1) (\<lambda>_.
       t_drop orig))))))))))))))))))))))))))))"

definition test_cas_ref_cnt :: "nat \<Rightarrow> (nat world, unit) op" where
  "test_cas_ref_cnt iterations =
     (let k = KArc; s = DefaultStrategy in
     bnd (arc_make 0) (\<lambda>arc.
     bnd (arc_swap_from 16 arc) (\<lambda>_.
     bnd (for_each [0..<iterations] (cas_ref_cnt_round iterations)) (\<lambda>_.
     bnd (load_full s k 0 16) (\<lambda>a.
     bnd (expect_strong 2 a) (\<lambda>_.
     bnd (arc_swap_drop s k 0 16) (\<lambda>_.
     bnd (expect_strong 1 a) (\<lambda>_.
     t_drop a))))))))"

definition test_load_cnt :: "(nat world, unit) op" where
  "test_load_cnt =
     (let k = KArc; s = DefaultStrategy in
     bnd (arc_make 0) (\<lambda>a.
     bnd (arc_clone a) (\<lambda>copy.
     bnd (arc_swap_from 16 copy) (\<lambda>_.
     bnd (expect_strong 2 a) (\<lambda>_.
     bnd (arc_swap_load s k 0 16) (\<lambda>guard.
     bnd (expect_value 0 (guard_deref guard)) (\<lambda>_.
     bnd (expect_strong 2 a) (\<lambda>_.
     bnd (arc_swap_load s k 0 16) (\<lambda>guard_2.
     bnd (arc_make 1) (\<lambda>new.
     bnd (arc_swap_store s k 0 16 new) (\<lambda>_.
     bnd (expect_strong 3 a) (\<lambda>_.
     bnd (protected_drop guard_2) (\<lambda>_.
     bnd (expect_strong 2 a) (\<lambda>_.
     bnd (arc_clone (guard_deref guard)) (\<lambda>b.
     bnd (expect_strong 3 a) (\<lambda>_.
     bnd (protected_drop guard) (\<lambda>_.
     bnd (expect_strong 2 a) (\<lambda>_.
     bnd (arc_swap_load s k 0 16) (\<lambda>guard.
     bnd (expect_value 1 (guard_deref guard)) (\<lambda>_.
     bnd (arc_swap_drop s k 0 16) (\<lambda>_.
     bnd (expect_value 1 (guard_deref guard)) (\<lambda>_.
     bnd (arc_clone (guard_deref guard)) (\<lambda>ptr.
     bnd (expect_strong 2 ptr) (\<lambda>_.
     bnd (protected_drop guard) (\<lambda>_.
     bnd (expect_strong 1 ptr) (\<lambda>_.
     bnd (t_drop ptr) (\<lambda>_.
     bnd (t_drop b) (\<lambda>_.
     t_drop a))))))))))))))))))))))))))))"

text \<open>\<open>Vec::swap_remove(0)\<close> puts the last element in the place of the first one.\<close>

definition swap_remove_first :: "'a list \<Rightarrow> 'a list" where
  "swap_remove_first xs = (case xs of [] \<Rightarrow> [] | [x] \<Rightarrow> [] | x # y # ys \<Rightarrow> last (y # ys) # butlast (y # ys))"

text \<open>From the first assertion on the guards to the end of the scope of the last guard.\<close>

definition lease_overflow_checks :: "smart \<Rightarrow> protected list \<Rightarrow> (nat world, unit) op" where
  "lease_overflow_checks a leases =
     (let k = KArc; s = DefaultStrategy in
     bnd (gets (\<lambda>w. strong_count w a)) (\<lambda>count.
     bnd (expect (2 < count)) (\<lambda>_.
     bnd (arc_swap_load s k 0 16) (\<lambda>guard.
     bnd (expect_strong (count + 1) a) (\<lambda>_.
     bnd (protected_drop guard) (\<lambda>_.
     bnd (expect_strong count a) (\<lambda>_.
     bnd (protected_drop (hd leases)) (\<lambda>_.
     bnd (expect_strong count a) (\<lambda>_.
     bnd (arc_swap_load s k 0 16) (\<lambda>guard.
     bnd (expect_strong count a) (\<lambda>_.
     protected_drop guard)))))))))))"

definition test_lease_overflow :: "nat \<Rightarrow> (nat world, unit) op" where
  "test_lease_overflow guard_count =
     bnd (arc_make 0) (\<lambda>a.
     bnd (arc_clone a) (\<lambda>copy.
     bnd (arc_swap_from 16 copy) (\<lambda>_.
     bnd (expect_strong 2 a) (\<lambda>_.
     bnd (collect_guards guard_count (arc_swap_load DefaultStrategy KArc 0 16)) (\<lambda>guards.
     bnd (lease_overflow_checks a guards) (\<lambda>_.
     bnd (for_each (swap_remove_first guards) protected_drop) (\<lambda>_.
     bnd (arc_swap_drop DefaultStrategy KArc 0 16) (\<lambda>_.
     t_drop a))))))))"

text \<open>Loops with a numeral as their bound.\<close>

lemma numeral_run [run_simps]:
  "rcu_loop (numeral n) s k t a f cur =
     bnd (f (guard_deref cur)) (\<lambda>r.
     case r of
       Inl e \<Rightarrow> bnd (protected_drop cur) (\<lambda>_. ret (Inl e))
     | Inr new \<Rightarrow>
         bnd (compare_and_swap s k t a (RefArg (guard_deref cur)) new) (\<lambda>prev.
         if ptr_eq (RefArg (guard_deref cur)) (RefArg (guard_deref prev)) then
           bnd (guard_into_inner k prev) (\<lambda>v. bnd (protected_drop cur) (\<lambda>_. ret (Inr v)))
         else
           bnd (protected_drop cur) (\<lambda>_. rcu_loop (pred_numeral n) s k t a f prev)))"
  "collect_guards (numeral n) m = bnd m (\<lambda>g. bnd (collect_guards (pred_numeral n) m) (\<lambda>gs. ret (g # gs)))"
  by (simp_all add: numeral_eq_Suc)

lemma range_run [run_simps]: "[i..<j] = (if i < j then i # [Suc i..<j] else [])"
  by (rule upt_rec)

lemmas test_defs =
  swap_load_round_def drop_in_thread_round_def drop_elsewhere_round_def cas_ref_cnt_round_def
  test_swap_load_def test_load_null_def test_from_into_def expect_dropped_def test_guard_drop_in_thread_def
  test_guard_drop_in_another_thread_def test_load_option_def show_with_def test_debug_impl_def test_display_impl_def
  pure_closure_def rcu_drop_def recursive_closure_def test_recursive_def test_rcu_panic_def test_nulls_def test_cas_ref_cnt_def
  test_load_cnt_def swap_remove_first_def test_lease_overflow_def

end
