(* ===== verification/Unit_Runs.thy ===== *)
theory Unit_Runs
  imports Unit_Tests
begin

text \<open>
  The unit tests are run. Those without a loop are executed; of a loop one round is executed, on the world the rounds before it leave.
\<close>

section \<open>Rounds\<close>

lemma for_each_from:
  "m \<le> n \<Longrightarrow> (\<And>i. m \<le> i \<Longrightarrow> i < n \<Longrightarrow> body i (W i) = Inr ((), W (Suc i))) \<Longrightarrow>
   for_each [m..<n] body (W m) = Inr ((), W n)"
proof (induction rule: inc_induct)
  case base
  then show ?case by (simp add: ret_def)
next
  case (step k)
  then show ?case by (simp add: upt_conv_Cons bnd_def)
qed

lemma for_each_run:
  "(\<And>i. i < n \<Longrightarrow> body i (W i) = Inr ((), W (Suc i))) \<Longrightarrow> for_each [0..<n] body (W 0) = Inr ((), W n)"
  using for_each_from [of 0 n body W] by simp

text \<open>Generations are multiples of four and do not wrap around here.\<close>

lemma gen_and_2: "(of_nat (4 * j) :: usize) AND 2 = 0"
proof -
  have "(of_nat (4 * j) :: usize) = push_bit 2 (of_nat j)" by (simp add: push_bit_eq_mult)
  moreover have "push_bit 2 (of_nat j :: usize) AND 2 = 0"
    by (rule bit_word_eqI) (auto simp: bit_simps)
  ultimately show ?thesis by simp
qed

lemma gen_nonzero: "0 < j \<Longrightarrow> j < 2 ^ 62 \<Longrightarrow> (of_nat (4 * j) :: usize) \<noteq> 0"
proof -
  assume "0 < j" "j < 2 ^ 62"
  then have "\<not> 2 ^ 64 dvd 4 * j" by (intro nat_dvd_not_less) simp_all
  then show ?thesis unfolding word_of_nat_eq_0_iff by simp
qed

section \<open>Between the rounds\<close>

text \<open>Thread 0 has the only node and nothing else is left.\<close>

definition alone_world :: "usize \<Rightarrow> nat \<Rightarrow> usize \<Rightarrow> 'v world" where
  "alone_world addr off g = (start_world ex_place [])\<lparr>
     nodes := [\<lparr>fast = [3, 3, 3, 3, 3, 3, 3, 3], helping = \<lparr>control = 0, slot = 3, active_addr = addr, space_offer = 64\<rparr>,
       in_use = 1, next_node = None, active_writers = 0\<rparr>],
     list_head := Some 0, handover := (\<lambda>_. 0)(64 := 0),
     locals := (\<lambda>_. local_default)(Thread 0 := \<lparr>ln_node = Some 0, ln_fast = \<lparr>offset = off\<rparr>, ln_helping = \<lparr>generation = g\<rparr>\<rparr>)\<rparr>"

lemmas round_run = test_defs run_simps alone_world_def add.assoc

lemma swap_load_fast:
  "swap_load_round DefaultStrategy (start_world ex_place []) = Inr ((), alone_world 0 4 0)"
  "swap_load_round DefaultStrategy (alone_world 0 4 0) = Inr ((), alone_world 0 8 0)"
  "swap_load_round DefaultStrategy (alone_world 0 8 0) = Inr ((), alone_world 0 4 0)"
  by (simp_all add: round_run cong: bnd_freeze)

lemma swap_load_slow:
  assumes "i < 2 ^ 58"
  shows "swap_load_round FillFastSlots (alone_world 16 0 (of_nat (16 * i))) = Inr ((), alone_world 16 0 (of_nat (16 * Suc i)))"
proof -
  let ?g = "of_nat (16 * i) :: usize"
  have g: "?g + 4 = of_nat (4 * (4 * i + 1))" "?g + 8 = of_nat (4 * (4 * i + 2))" "?g + 12 = of_nat (4 * (4 * i + 3))"
    "?g + 16 = of_nat (4 * (4 * i + 4))" by simp_all
  have "(?g + 4) AND 2 = 0" "(?g + 8) AND 2 = 0" "(?g + 12) AND 2 = 0" "(?g + 16) AND 2 = 0"
    unfolding g by (rule gen_and_2)+
  moreover have "?g + 4 \<noteq> 0" "?g + 8 \<noteq> 0" "?g + 12 \<noteq> 0" "?g + 16 \<noteq> 0"
    unfolding g by (rule gen_nonzero; use assms in simp)+
  moreover have "of_nat (16 * Suc i) = ?g + 16" by simp
  ultimately show ?thesis
    by (simp only:) (simp add: round_run del: of_nat_mult cong: bnd_freeze)
qed

lemma swap_load_slow_first: "swap_load_round FillFastSlots (start_world ex_place []) = Inr ((), alone_world 16 0 (of_nat (16 * 1)))"
  by (simp add: round_run cong: bnd_freeze)

lemma swap_load_locked: "swap_load_round RwLockStrategy (start_world ex_place []) = Inr ((), start_world ex_place [])"
  by (simp add: round_run cong: bnd_freeze)

section \<open>Threads that come and go\<close>

text \<open>The nodes of two threads that are gone, in cooldown, and the one of thread 0; the third one is made in the second round.\<close>

definition resting_node :: "usize \<Rightarrow> usize \<Rightarrow> nid option \<Rightarrow> usize \<Rightarrow> node" where
  "resting_node use addr nxt space = \<lparr>fast = [3, 3, 3, 3, 3, 3, 3, 3],
     helping = \<lparr>control = 0, slot = 3, active_addr = addr, space_offer = space\<rparr>, in_use = use, next_node = nxt, active_writers = 0\<rparr>"

definition crew_world :: "usize \<Rightarrow> usize option \<Rightarrow> 'v world" where
  "crew_world a0 a2 = (start_world ex_place [])\<lparr>
     nodes := [resting_node 2 a0 None 64, resting_node 1 0 (Some 0) 128] @
       (case a2 of None \<Rightarrow> [] | Some a \<Rightarrow> [resting_node 2 a (Some 1) 192]),
     list_head := Some (if a2 = None then 1 else 2),
     locals := (\<lambda>_. local_default)(Thread 0 := local_default\<lparr>ln_node := Some 1\<rparr>)\<rparr>"

lemmas crew_run = test_defs run_simps crew_world_def resting_node_def

lemma drop_in_thread_fast:
  "drop_in_thread_round DefaultStrategy (start_world ex_place []) = Inr ((), crew_world 0 None)"
  "drop_in_thread_round DefaultStrategy (crew_world 0 None) = Inr ((), crew_world 0 (Some 0))"
  "drop_in_thread_round DefaultStrategy (crew_world 0 (Some 0)) = Inr ((), crew_world 0 (Some 0))"
  by (simp_all add: crew_run cong: bnd_freeze)

lemma drop_in_thread_slow:
  "drop_in_thread_round FillFastSlots (start_world ex_place []) = Inr ((), crew_world 16 None)"
  "drop_in_thread_round FillFastSlots (crew_world 16 None) = Inr ((), crew_world 16 (Some 0))"
  "drop_in_thread_round FillFastSlots (crew_world 16 (Some 0)) = Inr ((), crew_world 16 (Some 16))"
  "drop_in_thread_round FillFastSlots (crew_world 16 (Some 16)) = Inr ((), crew_world 16 (Some 16))"
  by (simp_all add: crew_run cong: bnd_freeze)

lemma drop_in_thread_locked: "drop_in_thread_round RwLockStrategy (start_world ex_place []) = Inr ((), start_world ex_place [])"
  by (simp add: crew_run cong: bnd_freeze)

section \<open>Compare and swap\<close>

definition cas_world :: "nat \<Rightarrow> nat \<Rightarrow> usize \<Rightarrow> nat world" where
  "cas_world i off g = (alone_world 16 off g)\<lparr>
     heap := [if even i then 4096 else 8192 \<mapsto> \<lparr>strong = 1, weak = 0, pointee = i\<rparr>],
     storage := [16 \<mapsto> if even i then 4096 else 8192]\<rparr>"

lemma cas_first: "cas_ref_cnt_round 10 0 ((start_world ex_place [])\<lparr>heap := [4096 \<mapsto> \<lparr>strong = 1, weak = 0, pointee = 0\<rparr>], storage := [16 \<mapsto> 4096]\<rparr>)
    = Inr ((), cas_world 1 3 24)"
  by (simp add: round_run cas_world_def cong: bnd_freeze) (simp add: numeral_3_eq_3)

lemma cas_odd: "odd i \<Longrightarrow> cas_ref_cnt_round 10 i (cas_world i 3 g) = Inr ((), cas_world (i + 1) 8 g)"
  by (simp add: round_run cas_world_def cong: bnd_freeze)

lemma cas_even:
  assumes "even i" and "j < 2 ^ 58"
  shows "cas_ref_cnt_round 10 i (cas_world i 8 (of_nat (24 * j))) = Inr ((), cas_world (i + 1) 3 (of_nat (24 * j) + 24))"
proof -
  let ?g = "of_nat (24 * j) :: usize"
  have g: "?g + 4 = of_nat (4 * (6 * j + 1))" "?g + 8 = of_nat (4 * (6 * j + 2))" "?g + 12 = of_nat (4 * (6 * j + 3))"
    "?g + 16 = of_nat (4 * (6 * j + 4))" "?g + 20 = of_nat (4 * (6 * j + 5))" "?g + 24 = of_nat (4 * (6 * j + 6))" by simp_all
  have "(?g + 4) AND 2 = 0" "(?g + 8) AND 2 = 0" "(?g + 12) AND 2 = 0" "(?g + 16) AND 2 = 0" "(?g + 20) AND 2 = 0" "(?g + 24) AND 2 = 0"
    unfolding g by (rule gen_and_2)+
  moreover have "?g + 4 \<noteq> 0" "?g + 8 \<noteq> 0" "?g + 12 \<noteq> 0" "?g + 16 \<noteq> 0" "?g + 20 \<noteq> 0" "?g + 24 \<noteq> 0"
    unfolding g by (rule gen_nonzero; use assms in simp)+
  ultimately show ?thesis
    using assms(1) by (simp add: round_run cas_world_def del: of_nat_mult cong: bnd_freeze) (simp add: numeral_3_eq_3)
qed

section \<open>More guards than slots\<close>

lemma collect_guards_run:
  "(\<And>i. i < n \<Longrightarrow> m (W i) = Inr (g, W (Suc i))) \<Longrightarrow> collect_guards n m (W 0) = Inr (replicate n g, W n)"
proof (induction n arbitrary: W)
  case 0
  then show ?case by (simp add: ret_def)
next
  case (Suc n)
  have "m (W 0) = Inr (g, W (Suc 0))" and "collect_guards n m (W (Suc 0)) = Inr (replicate n g, W (Suc n))"
    using Suc.prems [of 0] Suc.IH [of "\<lambda>i. W (Suc i)"] Suc.prems by simp_all
  then show ?case by (simp add: bnd_def ret_def)
qed

lemma collect_guards_add:
  "collect_guards m op w = Inr (gs, u) \<Longrightarrow> collect_guards n op u = Inr (hs, v) \<Longrightarrow> collect_guards (m + n) op w = Inr (gs @ hs, v)"
  by (induction m arbitrary: w gs) (auto simp: bnd_def ret_def split: sum.splits prod.splits)

lemma for_each_append: "for_each (xs @ ys) body = bnd (for_each xs body) (\<lambda>_. for_each ys body)"
  by (induction xs) (auto simp: bnd_def ret_def fun_eq_iff split: sum.splits prod.splits)

lemma for_each_replicate:
  "(\<And>i. i < n \<Longrightarrow> body x (W (Suc i)) = Inr ((), W i)) \<Longrightarrow> for_each (replicate n x) body (W n) = Inr ((), W 0)"
proof (induction n)
  case 0
  then show ?case by (simp add: ret_def)
next
  case (Suc n)
  then show ?case by (simp add: bnd_def)
qed

text \<open>The guards are in \<open>slots\<close>, \<open>extra\<close> guards have a count of their own, and \<open>gens\<close> loads went through the helping slot.\<close>

definition lease_world :: "nat \<Rightarrow> usize list \<Rightarrow> nat \<Rightarrow> nat \<Rightarrow> nat world" where
  "lease_world off slots gens extra = (alone_world 16 off (of_nat (4 * gens)))\<lparr>
     nodes := [\<lparr>fast = slots, helping = \<lparr>control = 0, slot = 3, active_addr = 16, space_offer = 64\<rparr>,
       in_use = 1, next_node = None, active_writers = 0\<rparr>],
     heap := [4096 \<mapsto> \<lparr>strong = extra + 2, weak = 0, pointee = 0\<rparr>], storage := [16 \<mapsto> 4096]\<rparr>"

definition full_guard :: protected where
  "full_guard = Lease \<lparr>debt = None, prot_ptr = ArcP 4096\<rparr>"

definition slot_guards :: "nat list \<Rightarrow> protected list" where
  "slot_guards = map (\<lambda>i. Lease \<lparr>debt = Some (FastSlot 0 i), prot_ptr = ArcP 4096\<rparr>)"

abbreviation all_leased :: "usize list" where
  "all_leased \<equiv> [4096, 4096, 4096, 4096, 4096, 4096, 4096, 4096]"

lemmas lease_run = round_run lease_world_def full_guard_def slot_guards_def

lemma lease_first:
  "collect_guards 9 (arc_swap_load DefaultStrategy KArc 0 16)
     ((start_world ex_place [])\<lparr>heap := [4096 \<mapsto> \<lparr>strong = 2, weak = 0, pointee = 0\<rparr>], storage := [16 \<mapsto> 4096]\<rparr>) =
   Inr (slot_guards [0..<8] @ [full_guard], lease_world 8 all_leased 1 1)"
  by (simp add: lease_run cong: bnd_freeze) (simp add: eval_nat_numeral)

lemma lease_next:
  assumes "i < 2 ^ 60"
  shows "arc_swap_load DefaultStrategy KArc 0 16 (lease_world 8 all_leased i e) = Inr (full_guard, lease_world 8 all_leased (Suc i) (Suc e))"
proof -
  let ?g = "of_nat (4 * i) :: usize"
  have g: "?g + 4 = of_nat (4 * (i + 1))" by simp
  have "(?g + 4) AND 2 = 0" unfolding g by (rule gen_and_2)
  moreover have "?g + 4 \<noteq> 0" unfolding g by (rule gen_nonzero; use assms in simp)
  moreover have "of_nat (4 * Suc i) = ?g + 4" by simp
  ultimately show ?thesis
    by (simp only: lease_world_def) (simp add: lease_run del: of_nat_mult cong: bnd_freeze)
qed

lemma lease_collect:
  assumes "n < 2 ^ 60"
  shows "collect_guards (9 + n) (arc_swap_load DefaultStrategy KArc 0 16)
     ((start_world ex_place [])\<lparr>heap := [4096 \<mapsto> \<lparr>strong = 2, weak = 0, pointee = 0\<rparr>], storage := [16 \<mapsto> 4096]\<rparr>) =
   Inr (slot_guards [0..<8] @ replicate (Suc n) full_guard, lease_world 8 all_leased (Suc n) (Suc n))"
proof -
  have "collect_guards n (arc_swap_load DefaultStrategy KArc 0 16) (lease_world 8 all_leased (Suc 0) (Suc 0)) =
      Inr (replicate n full_guard, lease_world 8 all_leased (Suc n) (Suc n))"
    by (rule collect_guards_run [where W = "\<lambda>i. lease_world 8 all_leased (Suc i) (Suc i)"]) (use assms in \<open>simp add: lease_next\<close>)
  from collect_guards_add [OF lease_first this [folded One_nat_def]] show ?thesis by simp
qed

lemma swap_remove_leases:
  "swap_remove_first (slot_guards [0..<8] @ replicate (Suc n) full_guard) = full_guard # slot_guards [1..<8] @ replicate n full_guard"
proof -
  have "butlast (replicate (Suc n) full_guard) = replicate n full_guard"
    by (simp flip: replicate_append_same)
  then show ?thesis
    by (simp add: swap_remove_first_def slot_guards_def slot_indices range_run butlast_append del: replicate_Suc)
qed

lemma lease_checks:
  assumes "n < 2 ^ 58"
  shows "lease_overflow_checks (ArcP 4096) (slot_guards [0..<8] @ replicate (Suc n) full_guard) (lease_world 8 all_leased (Suc n) (Suc n)) =
    Inr ((), lease_world 1 (3 # replicate 7 4096) (n + 2) (Suc n))"
proof -
  define g :: usize where "g = of_nat (4 * Suc n)"
  have g: "g + 4 = of_nat (4 * (n + 2))" by (simp add: g_def)
  have "(g + 4) AND 2 = 0" unfolding g by (rule gen_and_2)
  moreover have "g + 4 \<noteq> 0" unfolding g by (rule gen_nonzero; use assms in simp)
  ultimately show ?thesis
    unfolding lease_world_def g [symmetric] g_def [symmetric]
    by (simp add: lease_overflow_checks_def lease_run cong: bnd_freeze) (simp add: eval_nat_numeral)
qed

lemma lease_drops:
  "for_each (full_guard # slot_guards [1..<8] @ replicate n full_guard) protected_drop (lease_world 1 (3 # replicate 7 4096) g (Suc n)) =
   Inr ((), lease_world 1 (replicate 8 3) g 0)"
proof -
  have "for_each (full_guard # slot_guards [1..<8]) protected_drop (lease_world 1 (3 # replicate 7 4096) g (Suc n)) =
      Inr ((), lease_world 1 (replicate 8 3) g n)"
    by (simp add: lease_run cong: bnd_freeze) (simp add: eval_nat_numeral)
  moreover have "for_each (replicate n full_guard) protected_drop (lease_world 1 (replicate 8 3) g n) = Inr ((), lease_world 1 (replicate 8 3) g 0)"
    by (rule for_each_replicate) (simp add: lease_run cong: bnd_freeze)
  ultimately show ?thesis
    unfolding append_Cons [symmetric] for_each_append by (simp add: bnd_def)
qed

lemma lease_start:
  "bnd (arc_make 0) (\<lambda>a. bnd (arc_clone a) (\<lambda>copy. bnd (arc_swap_from 16 copy) (\<lambda>_. bnd (expect_strong 2 a) (\<lambda>_. rest a)))) (start_world ex_place [])
   = rest (ArcP 4096) ((start_world ex_place [])\<lparr>heap := [4096 \<mapsto> \<lparr>strong = 2, weak = 0, pointee = 0\<rparr>], storage := [16 \<mapsto> 4096]\<rparr> :: nat world)"
  by (simp add: run_simps cong: bnd_freeze) (simp add: numeral_2_eq_2)

lemma lease_overflow_passes:
  assumes "n < 2 ^ 58"
  shows "passes (test_lease_overflow (9 + n))"
proof -
  let ?w = "(start_world ex_place [])\<lparr>heap := [4096 \<mapsto> \<lparr>strong = 2, weak = 0, pointee = 0\<rparr>], storage := [16 \<mapsto> 4096]\<rparr> :: nat world"
  let ?last = "lease_world 1 (replicate 8 3) (n + 2) 0"
  have "test_lease_overflow (9 + n) (start_world ex_place []) =
      bnd (collect_guards (9 + n) (arc_swap_load DefaultStrategy KArc 0 16)) (\<lambda>gs.
      bnd (lease_overflow_checks (ArcP 4096) gs) (\<lambda>_.
      bnd (for_each (swap_remove_first gs) protected_drop) (\<lambda>_.
      bnd (arc_swap_drop DefaultStrategy KArc 0 16) (\<lambda>_. t_drop (ArcP 4096))))) ?w"
    unfolding test_lease_overflow_def by (rule lease_start)
  also have "\<dots> = bnd (arc_swap_drop DefaultStrategy KArc 0 16) (\<lambda>_. t_drop (ArcP 4096)) ?last"
    using assms by (simp add: bnd_def lease_collect lease_checks swap_remove_leases lease_drops del: replicate_Suc for_each.simps One_nat_def add_2_eq_Suc')
  also have "\<dots> = Inr ((), ?last\<lparr>heap := Map.empty, storage := Map.empty\<rparr>)"
    by (simp add: lease_run cong: bnd_freeze)
  finally show ?thesis by (simp add: passes_def)
qed

section \<open>They pass\<close>

lemma passes_if: "m (start_world ex_place []) = Inr ((), w) \<Longrightarrow> heap w = Map.empty \<Longrightarrow> storage w = Map.empty \<Longrightarrow> passes m"
  by (simp add: passes_def)

lemma rounds_pass:
  assumes "\<And>i. i < n \<Longrightarrow> body i (W i) = Inr ((), W (Suc i))" and "W 0 = start_world ex_place []"
    and "heap (W n) = Map.empty" and "storage (W n) = Map.empty"
  shows "passes (for_each [0..<n] body)"
  using for_each_run [of n body W] assms by (simp add: passes_if)

lemma left_empty [simp]:
  "heap (start_world pl sp) = Map.empty" "storage (start_world pl sp) = Map.empty"
  "heap (alone_world a off g) = Map.empty" "storage (alone_world a off g) = Map.empty"
  "heap (crew_world a0 a2) = Map.empty" "storage (crew_world a0 a2) = Map.empty"
  by (simp_all add: start_world_def alone_world_def crew_world_def)

lemma swap_load_passes:
  assumes "n < 2 ^ 58"
  shows "passes (test_swap_load n s)"
proof (cases s rule: strategy_cases)
  case default
  show ?thesis
    unfolding default test_swap_load_def
    by (rule rounds_pass [where W = "\<lambda>i. if i = 0 then start_world ex_place [] else alone_world 0 (if odd i then 4 else 8) 0"])
      (auto simp: swap_load_fast)
next
  case full
  show ?thesis
    unfolding full test_swap_load_def
    by (rule rounds_pass [where W = "\<lambda>i. if i = 0 then start_world ex_place [] else alone_world 16 0 (of_nat (16 * i))"])
      (use assms swap_load_slow swap_load_slow_first in \<open>auto simp del: of_nat_mult\<close>)
next
  case lock
  show ?thesis
    unfolding lock test_swap_load_def
    by (rule rounds_pass [where W = "\<lambda>_. start_world ex_place []"]) (simp_all add: swap_load_locked)
qed

lemma guard_drop_in_thread_passes: "passes (test_guard_drop_in_thread n s)"
proof (cases s rule: strategy_cases)
  case default
  show ?thesis
    unfolding default test_guard_drop_in_thread_def
    by (rule rounds_pass [where W = "\<lambda>i. case i of 0 \<Rightarrow> start_world ex_place [] | Suc 0 \<Rightarrow> crew_world 0 None | _ \<Rightarrow> crew_world 0 (Some 0)"])
      (auto simp: drop_in_thread_fast split: nat.splits)
next
  case full
  show ?thesis
    unfolding full test_guard_drop_in_thread_def
    by (rule rounds_pass [where W = "\<lambda>i. case i of 0 \<Rightarrow> start_world ex_place [] | Suc 0 \<Rightarrow> crew_world 16 None
          | Suc (Suc 0) \<Rightarrow> crew_world 16 (Some 0) | _ \<Rightarrow> crew_world 16 (Some 16)"])
      (auto simp: drop_in_thread_slow split: nat.splits)
next
  case lock
  show ?thesis
    unfolding lock test_guard_drop_in_thread_def
    by (rule rounds_pass [where W = "\<lambda>_. start_world ex_place []"]) (simp_all add: drop_in_thread_locked)
qed

lemma cas_start:
  "bnd (arc_make 0) (\<lambda>arc. bnd (arc_swap_from 16 arc) (\<lambda>_. rest)) (start_world ex_place []) =
   rest ((start_world ex_place [])\<lparr>heap := [4096 \<mapsto> \<lparr>strong = 1, weak = 0, pointee = 0\<rparr>], storage := [16 \<mapsto> 4096]\<rparr> :: nat world)"
  by (simp add: run_simps cong: bnd_freeze)

lemma cas_rounds:
  "for_each [0..<10] (cas_ref_cnt_round 10)
     ((start_world ex_place [])\<lparr>heap := [4096 \<mapsto> \<lparr>strong = 1, weak = 0, pointee = 0\<rparr>], storage := [16 \<mapsto> 4096]\<rparr>) =
   Inr ((), cas_world 10 8 (of_nat (24 * 5)))"
proof -
  let ?W = "\<lambda>i. if i = 0 then (start_world ex_place [])\<lparr>heap := [4096 \<mapsto> \<lparr>strong = 1, weak = 0, pointee = 0\<rparr>], storage := [16 \<mapsto> 4096]\<rparr>
     else cas_world i (if odd i then 3 else 8) (of_nat (24 * ((i + 1) div 2)))"
  have "cas_ref_cnt_round 10 i (?W i) = Inr ((), ?W (Suc i))" if "i < 10" for i
  proof (cases "i = 0 \<or> odd i")
    case True
    then show ?thesis using cas_first cas_odd by auto
  next
    case False
    then have "even i" and "i div 2 < 2 ^ 58" using that by simp_all
    from cas_even [OF this] show ?thesis using False by (simp add: algebra_simps)
  qed
  from for_each_run [of 10 "cas_ref_cnt_round 10" ?W, OF this] show ?thesis by simp
qed

lemma cas_ref_cnt_passes: "passes (test_cas_ref_cnt 10)"
proof -
  have "test_cas_ref_cnt 10 (start_world ex_place []) =
      bnd (load_full DefaultStrategy KArc 0 16) (\<lambda>a.
      bnd (expect_strong 2 a) (\<lambda>_.
      bnd (arc_swap_drop DefaultStrategy KArc 0 16) (\<lambda>_.
      bnd (expect_strong 1 a) (\<lambda>_. t_drop a)))) (cas_world 10 8 120)"
    unfolding test_cas_ref_cnt_def Let_def cas_start using cas_rounds by (simp add: bnd_def)
  then show ?thesis
    by (simp add: passes_def) (simp add: cas_world_def alone_world_def run_simps cong: bnd_freeze)
qed

text \<open>Tests without a loop, or with a short one, are run from the beginning to the end.\<close>

lemma guard_drop_in_another_thread_passes: "passes (test_guard_drop_in_another_thread 10 s)"
  by (cases s rule: strategy_cases; simp add: test_defs run_simps cong: bnd_freeze)

lemma load_null_passes: "passes (test_load_null s)"
  by (cases s rule: strategy_cases; simp add: test_defs run_simps cong: bnd_freeze)

lemma from_into_passes: "passes (test_from_into s)"
  by (cases s rule: strategy_cases; simp add: test_defs run_simps cong: bnd_freeze)

lemma load_option_passes: "passes (test_load_option s)"
  by (cases s rule: strategy_cases; simp add: test_defs run_simps cong: bnd_freeze)

lemma debug_impl_passes: "passes (test_debug_impl show s)"
  by (cases s rule: strategy_cases; simp add: test_defs run_simps cong: bnd_freeze)

lemma display_impl_passes: "passes (test_display_impl show s)"
  by (cases s rule: strategy_cases; simp add: test_defs run_simps cong: bnd_freeze)

lemma recursive_passes: "passes test_recursive"
  by (simp add: test_defs run_simps cong: bnd_freeze)

lemma rcu_panic_passes: "passes test_rcu_panic"
  by (simp add: test_defs run_simps cong: bnd_freeze)

lemma nulls_passes: "passes test_nulls"
  by (simp add: test_defs run_simps cong: bnd_freeze)

lemma load_cnt_passes: "passes test_load_cnt"
  by (simp add: test_defs run_simps cong: bnd_freeze)

lemmas storage_tests =
  swap_load_passes load_null_passes from_into_passes guard_drop_in_thread_passes guard_drop_in_another_thread_passes load_option_passes
  debug_impl_passes display_impl_passes recursive_passes rcu_panic_passes nulls_passes cas_ref_cnt_passes load_cnt_passes lease_overflow_passes

end
