(* ===== verification/Client_Tests.thy ===== *)
theory Client_Tests
  imports Execute
begin

text \<open>
  The unit tests of the modules around the storage (access.rs, cache.rs, weak.rs, ref_cnt.rs) as operations of the model. What goes out of
  scope is dropped, the last declaration first.
\<close>

section \<open>Access\<close>

text \<open>A load through an access in an assertion: the guard is a temporary.\<close>

definition check_load :: "('v world, 'g, 't) access \<Rightarrow> ('t \<Rightarrow> ('v world, unit) op) \<Rightarrow> ('v world, unit) op" where
  "check_load acc check =
     bnd (acc_load acc) (\<lambda>g.
     bnd (acc_deref acc g) (\<lambda>v.
     bnd (check v) (\<lambda>_. acc_drop acc g)))"

definition check_static_dispatch_direct :: "(nat world, 'g, nat) access \<Rightarrow> (nat world, unit) op" where
  "check_static_dispatch_direct acc = check_load acc (\<lambda>v. expect (42 = v))"

definition check_static_dispatch :: "(nat world, 'g, smart) access \<Rightarrow> (nat world, unit) op" where
  "check_static_dispatch acc = check_load acc (expect_value 42)"

text \<open>What a \<open>dyn DynAccess\<close> offers: its loading method only.\<close>

definition as_dyn :: "('w, 'g, 't) access \<Rightarrow> ('w, ('w, 't) dyn_guard, 't) access" where
  "as_dyn acc = dyn_access (dyn_load acc)"

definition check_dyn_dispatch_direct :: "(nat world, 'g, nat) access \<Rightarrow> (nat world, unit) op" where
  "check_dyn_dispatch_direct acc = check_load (as_dyn acc) (\<lambda>v. expect (42 = v))"

definition check_dyn_dispatch :: "(nat world, 'g, smart) access \<Rightarrow> (nat world, unit) op" where
  "check_dyn_dispatch acc = check_load (as_dyn acc) (expect_value 42)"

definition check_transition :: "(nat world, 'g, nat) access \<Rightarrow> (nat world, unit) op" where
  "check_transition acc = check_dyn_dispatch_direct acc"

text \<open>The storage with 42, looked at through the smart pointer and directly; it is dropped at the end.\<close>

definition arc_42 :: "(nat world, protected, smart) access" where
  "arc_42 = arc_swap_access DefaultStrategy KArc 0 16"

definition direct_42 :: "(nat world, protected, nat) access" where
  "direct_42 = direct_access DefaultStrategy KArc 0 16"

definition with_storage :: "'v \<Rightarrow> ('v world, unit) op \<Rightarrow> ('v world, unit) op" where
  "with_storage v m =
     bnd (arc_make v) (\<lambda>arc.
     bnd (arc_swap_from 16 arc) (\<lambda>_.
     bnd m (\<lambda>_. arc_swap_drop DefaultStrategy KArc 0 16)))"

definition test_static_dispatch :: "(nat world, unit) op" where
  "test_static_dispatch = with_storage 42 (
     bnd (check_static_dispatch_direct direct_42) (\<lambda>_.
     bnd (check_static_dispatch arc_42) (\<lambda>_.
     check_static_dispatch arc_42)))"

definition test_dyn_dispatch :: "(nat world, unit) op" where
  "test_dyn_dispatch = with_storage 42 (
     bnd (check_dyn_dispatch_direct direct_42) (\<lambda>_.
     check_dyn_dispatch arc_42))"

definition test_transition :: "(nat world, unit) op" where
  "test_transition = with_storage 42 (
     bnd (check_transition direct_42) (\<lambda>_.
     check_transition direct_42))"

text \<open>A storage in an \<open>Arc\<close> is reached through it.\<close>

definition test_indirect :: "(nat world, unit) op" where
  "test_indirect = with_storage 42 (
     bnd (check_static_dispatch arc_42) (\<lambda>_.
     check_dyn_dispatch arc_42))"

record cfg =
  cfg_value :: nat

definition cfg_map :: "(cfg world, (protected, cfg, nat) map_guard, nat) access" where
  "cfg_map = map_new (direct_access DefaultStrategy KArc 0 16) cfg_value"

definition test_map :: "(cfg world, unit) op" where
  "test_map = with_storage \<lparr>cfg_value = 42\<rparr> (
     bnd (check_load cfg_map (\<lambda>v. expect (42 = v))) (\<lambda>_.
     check_load (as_dyn cfg_map) (\<lambda>v. expect (42 = v))))"

definition test_constant :: "(nat world, unit) op" where
  "test_constant =
     (let c = constant_access 42 in
     bnd (check_static_dispatch_direct c) (\<lambda>_.
     bnd (check_dyn_dispatch_direct c) (\<lambda>_.
     check_static_dispatch_direct c)))"

definition test_map_reload :: "(cfg world, unit) op" where
  "test_map_reload = with_storage \<lparr>cfg_value = 0\<rparr> (
     bnd (check_load cfg_map (\<lambda>v. expect (0 = v))) (\<lambda>_.
     bnd (arc_make \<lparr>cfg_value = 42\<rparr>) (\<lambda>new.
     bnd (arc_swap_store DefaultStrategy KArc 0 16 new) (\<lambda>_.
     check_load cfg_map (\<lambda>v. expect (42 = v))))))"

record inner =
  inner_val :: nat

record middle =
  middle_inner :: inner

record outer =
  outer_middle :: middle

definition test_double_dyn_access_complex :: "(outer world, unit) op" where
  "test_double_dyn_access_complex =
     with_storage \<lparr>outer_middle = \<lparr>middle_inner = \<lparr>inner_val = 42\<rparr>\<rparr>\<rparr> (
     let middle = as_dyn (map_new (direct_access DefaultStrategy KArc 0 16) outer_middle);
         inner = as_dyn (map_new middle middle_inner) in
     bnd (acc_load inner) (\<lambda>guard.
     bnd (acc_deref inner guard) (\<lambda>v.
     bnd (expect (42 = inner_val v)) (\<lambda>_.
     acc_drop inner guard))))"

section \<open>Caches\<close>

definition expect_cached :: "'v \<Rightarrow> cache \<Rightarrow> ('v world, cache) op" where
  "expect_cached x c =
     bnd (cache_load DefaultStrategy KArc 0 c) (\<lambda>(v, c').
     bnd (expect_value x v) (\<lambda>_. ret c'))"

definition test_cached_value :: "(nat world, unit) op" where
  "test_cached_value = with_storage 42 (
     bnd (cache_new DefaultStrategy KArc 0 16) (\<lambda>c1.
     bnd (cache_new DefaultStrategy KArc 0 16) (\<lambda>c2.
     bnd (expect_cached 42 c1) (\<lambda>c1.
     bnd (expect_cached 42 c2) (\<lambda>c2.
     bnd (arc_make 43) (\<lambda>new.
     bnd (arc_swap_store DefaultStrategy KArc 0 16 new) (\<lambda>_.
     bnd (expect_value 42 (load_no_revalidate c1)) (\<lambda>_.
     bnd (expect_cached 43 c1) (\<lambda>c1.
     bnd (cache_drop c2) (\<lambda>_.
     cache_drop c1))))))))))"

text \<open>The cache has the last handle of the storage: it goes with it, before the cached pointer.\<close>

definition test_cached_through_arc :: "(nat world, unit) op" where
  "test_cached_through_arc =
     bnd (arc_make 42) (\<lambda>arc.
     bnd (arc_swap_from 16 arc) (\<lambda>_.
     bnd (cache_new DefaultStrategy KArc 0 16) (\<lambda>c.
     bnd (expect_cached 42 c) (\<lambda>c.
     bnd (arc_make 0) (\<lambda>new.
     bnd (arc_swap_store DefaultStrategy KArc 0 16 new) (\<lambda>_.
     bnd (arc_swap_drop DefaultStrategy KArc 0 16) (\<lambda>_.
     cache_drop c)))))))"

definition test_cache_option :: "(nat world, unit) op" where
  "test_cache_option =
     (let k = KOption KArc; s = DefaultStrategy in
     bnd (arc_make 42) (\<lambda>arc.
     bnd (arc_swap_from 16 (SomeP arc)) (\<lambda>_.
     bnd (cache_new s k 0 16) (\<lambda>c.
     bnd (cache_load s k 0 c) (\<lambda>(v, c).
     bnd (expect_value 42 v) (\<lambda>_.
     bnd (arc_swap_store s k 0 16 NoneP) (\<lambda>_.
     bnd (cache_load s k 0 c) (\<lambda>(v, c).
     bnd (expect (v = NoneP)) (\<lambda>_.
     bnd (cache_drop c) (\<lambda>_.
     arc_swap_drop s k 0 16))))))))))"

record inner_answer =
  answer_of :: nat

record outer_answer =
  inner_of :: inner_answer

text \<open>A projection of the cached smart pointer looks through it.\<close>

definition project :: "('v \<Rightarrow> 'u) \<Rightarrow> smart \<Rightarrow> ('v world, 'u) op" where
  "project f v = bnd (arc_deref v) (\<lambda>x. ret (f x))"

definition expect_mapped :: "'u \<Rightarrow> ('v world, 'u) map_cache \<Rightarrow> ('v world, ('v world, 'u) map_cache) op" where
  "expect_mapped x m =
     bnd (map_cache_load DefaultStrategy KArc 0 m) (\<lambda>(u, m').
     bnd (expect (x = u)) (\<lambda>_. ret m'))"

definition test_map_cache :: "(outer_answer world, unit) op" where
  "test_map_cache = with_storage \<lparr>inner_of = \<lparr>answer_of = 42\<rparr>\<rparr> (
     bnd (cache_new DefaultStrategy KArc 0 16) (\<lambda>c.
     bnd (cache_clone c) (\<lambda>copy.
     let inner_cache = cache_map copy (project inner_of) in
     bnd (cache_clone c) (\<lambda>copy.
     let answer_cache = cache_map copy (project (\<lambda>x. answer_of (inner_of x))) in
     bnd (expect_cached \<lparr>inner_of = \<lparr>answer_of = 42\<rparr>\<rparr> c) (\<lambda>c.
     bnd (expect_mapped \<lparr>answer_of = 42\<rparr> inner_cache) (\<lambda>inner_cache.
     bnd (expect_mapped 42 answer_cache) (\<lambda>answer_cache.
     bnd (arc_make \<lparr>inner_of = \<lparr>answer_of = 24\<rparr>\<rparr>) (\<lambda>new.
     bnd (arc_swap_store DefaultStrategy KArc 0 16 new) (\<lambda>_.
     bnd (expect_cached \<lparr>inner_of = \<lparr>answer_of = 24\<rparr>\<rparr> c) (\<lambda>c.
     bnd (expect_mapped \<lparr>answer_of = 24\<rparr> inner_cache) (\<lambda>inner_cache.
     bnd (expect_mapped 24 answer_cache) (\<lambda>answer_cache.
     bnd (cache_drop (mc_inner answer_cache)) (\<lambda>_.
     bnd (cache_drop (mc_inner inner_cache)) (\<lambda>_.
     cache_drop c))))))))))))))"

section \<open>Weak pointers\<close>

text \<open>An \<open>Arc\<close> out of \<open>upgrade\<close> in an assertion is dropped after it.\<close>

definition expect_upgrade :: "smart \<Rightarrow> (smart \<Rightarrow> ('v world, unit) op) \<Rightarrow> ('v world, unit) op" where
  "expect_upgrade v check =
     bnd (weak_upgrade v) (\<lambda>u.
     bnd (expect (u \<noteq> NoneP)) (\<lambda>_.
     bnd (check u) (\<lambda>_. t_drop u)))"

definition test_there_and_back :: "strategy \<Rightarrow> (string world, unit) op" where
  "test_there_and_back s =
     bnd (arc_make ''Hello'') (\<lambda>data.
     bnd (arc_downgrade data) (\<lambda>down.
     bnd (arc_swap_new 16 down) (\<lambda>_.
     bnd (expect_strong 1 data) (\<lambda>_.
     bnd (expect_weak 1 data) (\<lambda>_.
     bnd (arc_swap_load s KWeak 0 16) (\<lambda>weak.
     bnd (expect_upgrade (guard_deref weak) (expect_value ''Hello'')) (\<lambda>_.
     bnd (expect_upgrade (guard_deref weak) (\<lambda>u. expect (as_ptr data = as_ptr u))) (\<lambda>_.
     bnd (protected_drop weak) (\<lambda>_.
     bnd (arc_swap_drop s KWeak 0 16) (\<lambda>_.
     t_drop data))))))))))"

definition test_reset :: "strategy \<Rightarrow> (string world, unit) op" where
  "test_reset s =
     bnd (arc_make ''Hello'') (\<lambda>data.
     bnd (arc_downgrade data) (\<lambda>down.
     bnd (arc_swap_new 16 down) (\<lambda>_.
     bnd (expect_strong 1 data) (\<lambda>_.
     bnd (expect_weak 1 data) (\<lambda>_.
     bnd (arc_swap_store s KWeak 0 16 (WeakP None)) (\<lambda>_.
     bnd (expect_strong 1 data) (\<lambda>_.
     bnd (expect_weak 0 data) (\<lambda>_.
     bnd (arc_swap_load s KWeak 0 16) (\<lambda>weak.
     bnd (weak_upgrade (guard_deref weak)) (\<lambda>u.
     bnd (expect (u = NoneP)) (\<lambda>_.
     bnd (protected_drop weak) (\<lambda>_.
     bnd (arc_swap_drop s KWeak 0 16) (\<lambda>_.
     t_drop data)))))))))))))"

definition test_destroy :: "strategy \<Rightarrow> (string world, unit) op" where
  "test_destroy s =
     bnd (arc_make ''Hello'') (\<lambda>data.
     bnd (arc_downgrade data) (\<lambda>down.
     bnd (arc_swap_new 16 down) (\<lambda>_.
     bnd (t_drop data) (\<lambda>_.
     bnd (arc_swap_load s KWeak 0 16) (\<lambda>weak.
     bnd (weak_upgrade (guard_deref weak)) (\<lambda>u.
     bnd (expect (u = NoneP)) (\<lambda>_.
     bnd (protected_drop weak) (\<lambda>_.
     arc_swap_drop s KWeak 0 16))))))))"

section \<open>Raw pointers\<close>

text \<open>The three tests differ in the type of the pointer: \<open>wrap\<close> makes one of an allocation.\<close>

definition test_ref_cnt :: "kind \<Rightarrow> (usize \<Rightarrow> smart) \<Rightarrow> (nat world, unit) op" where
  "test_ref_cnt k wrap =
     bnd (arc_make 114514) (\<lambda>new.
     let arc = wrap (as_ptr new); ptr = as_ptr arc in
     bnd (expect (ptr = into_ptr arc)) (\<lambda>_.
     let arc = from_ptr k ptr in
     bnd (expect_value 114514 arc) (\<lambda>_.
     bnd (expect (ptr = as_ptr arc)) (\<lambda>_.
     bnd (expect (ptr = into_ptr arc)) (\<lambda>_.
     t_drop (from_ptr k ptr))))))"

definition test_ref_cnt_arc :: "(nat world, unit) op" where
  "test_ref_cnt_arc = test_ref_cnt KArc ArcP"

definition test_ref_cnt_pin_arc :: "(nat world, unit) op" where
  "test_ref_cnt_pin_arc = test_ref_cnt KPinArc PinArcP"

definition test_ref_cnt_pin_rc :: "(nat world, unit) op" where
  "test_ref_cnt_pin_rc = test_ref_cnt KPinRc PinRcP"

lemmas access_test_defs =
  check_load_def check_static_dispatch_direct_def check_static_dispatch_def as_dyn_def check_dyn_dispatch_direct_def check_dyn_dispatch_def
  check_transition_def arc_42_def direct_42_def with_storage_def test_static_dispatch_def test_dyn_dispatch_def test_transition_def
  test_indirect_def cfg_map_def test_map_def test_constant_def test_map_reload_def test_double_dyn_access_complex_def

lemmas cache_test_defs =
  with_storage_def expect_cached_def test_cached_value_def test_cached_through_arc_def test_cache_option_def project_def expect_mapped_def
  test_map_cache_def

lemmas weak_test_defs = expect_upgrade_def test_there_and_back_def test_reset_def test_destroy_def

lemmas ref_cnt_test_defs = test_ref_cnt_def test_ref_cnt_arc_def test_ref_cnt_pin_arc_def test_ref_cnt_pin_rc_def

section \<open>They pass\<close>

lemma access_tests:
  "passes test_static_dispatch" "passes test_dyn_dispatch" "passes test_transition" "passes test_indirect" "passes test_map"
  "passes test_constant" "passes test_map_reload" "passes test_double_dyn_access_complex"
  by (simp_all add: access_test_defs run_simps cong: bnd_freeze)

lemma cache_tests:
  "passes test_cached_value" "passes test_cached_through_arc" "passes test_cache_option" "passes test_map_cache"
  by (simp_all add: cache_test_defs run_simps cong: bnd_freeze)

lemma weak_tests:
  "passes (test_there_and_back s)" "passes (test_reset s)" "passes (test_destroy s)"
  by (cases s rule: strategy_cases; simp add: weak_test_defs run_simps cong: bnd_freeze)+

lemma ref_cnt_tests: "passes test_ref_cnt_arc" "passes test_ref_cnt_pin_arc" "passes test_ref_cnt_pin_rc"
  by (simp_all add: ref_cnt_test_defs run_simps cong: bnd_freeze)

end
