(* ===== verification/Spec2Isabelle.thy ===== *)
theory Spec2Isabelle
  imports Example Livelock Life_Runs Unit_Runs Client_Tests
begin

text \<open>
  A verification development of the crate \<open>arc-swap\<close> (the Rust library under src/src): storages that hold
  a reference-counted pointer and can be read and replaced by many threads. The crate keeps a pointer alive for a
  reader without touching its count: the reader records a \<^emph>\<open>debt\<close> in a slot of its own, and a writer that takes the
  pointer out of a storage pays all debts on it before it lets it go.

  \<^bold>\<open>Parts of the program and their theories.\<close>
  \<^item> \<open>Prelude\<close>: machine words, the faults a run can end in, operations (state passing with faults) and
    their total-correctness calculus \<open>wp\<close>, lemmas on counting.
  \<^item> \<open>Ref_Cnt\<close> (ref_cnt.rs, weak.rs): the reference-counted heap of the standard library, the types that implement the
    trait \<open>RefCnt\<close> (\<open>kind\<close>, \<open>smart\<close>) and its methods. The locale \<open>ref_cnt\<close> is the contract of the trait.
  \<^item> \<open>World\<close> (debt/*.rs, the structures): nodes, slots, thread-local data, the cells of the storages, the atomic
    operations on them, and what is owed, mailed and on the ledger.
  \<^item> \<open>Fast\<close> (debt/fast.rs), \<open>Helping\<close> (debt/helping.rs), \<open>Node_List\<close> (debt/list.rs), \<open>Debt\<close> (debt/mod.rs): allocating a
    slot, the handshake between a reader and a writer, the list of nodes with its life cycle, paying debts.
  \<^item> \<open>Hybrid\<close> (strategy/hybrid.rs), \<open>Strategy\<close> (strategy/rw_lock.rs, strategy/mod.rs, strategy/test_strategies.rs, as_raw.rs): the
    strategies a storage is protected with. The locale \<open>inner_strategy\<close> is what a storage relies on; it is
    interpreted on the hybrid and on the lock-based strategy, and on the choice between them.
  \<^item> \<open>Arc_Swap\<close> (lib.rs): guards and storages, proved once for every strategy that keeps the contract.
  \<^item> \<open>System\<close>: programs that call the public interface of lib.rs from any thread, in any order, the invariant that
    accounts for every reference, and the specification \<open>api_spec\<close> without debts, counts, nodes and threads.
  \<^item> \<open>Cache\<close> (cache.rs), \<open>Access\<close> (access.rs), \<open>Serde\<close> (serde.rs and the formatting of lib.rs): clients of a storage. The
    locale \<open>access_contract\<close> is what a user of the trait \<open>Access\<close> relies on.
  \<^item> \<open>Example\<close>: concrete states on which the theorems are tried out.
  \<^item> \<open>Ledger\<close>: what an access to a slot, an envelope or a count changes in the accounts.
  \<^item> \<open>Concurrent\<close>: the hybrid strategy again, as a machine whose steps are the single accesses to shared memory. A program
    counter (\<open>pc\<close>) names the next access of a thread: \<open>read_step\<close> is \<open>attempt\<close>, \<open>fallback\<close> and \<open>into_inner\<close> of
    strategy/hybrid.rs with \<open>get_debt\<close> and \<open>confirm\<close> of debt/helping.rs, \<open>give_step\<close> the drop of a guard, \<open>write_step\<close> is \<open>pay_all\<close> of
    debt/mod.rs with \<open>help\<close>, \<open>pc_step\<close> the operations of lib.rs built from them. A schedule (\<open>play\<close>) is any list of
    accesses and calls of any threads.
  \<^item> \<open>Interleaving\<close> (who owns which reference, slot and envelope in the middle of an operation; the invariant \<open>cinv\<close>), \<open>Interference\<close> (what a
    step guarantees to the other threads, and that what they know survives it), \<open>Atomic_Steps\<close>, \<open>Atomic_Loads\<close>,
    \<open>Atomic_Writes\<close> (every access keeps the invariant and does not fault), \<open>Schedules\<close> (so does every schedule), \<open>Progress\<close>
    (quiescence, loads are wait-free), \<open>Step_Effects\<close> and \<open>Linear\<close> (loads are linearizable), \<open>Runs\<close> (a schedule that is run),
    \<open>Solo\<close> (a thread that runs alone finishes), \<open>Livelock\<close> (two writers that keep each other busy).
  \<^item> \<open>Life_Cycle\<close>: the life of the nodes as a machine of single accesses (\<open>life_step\<close>: \<open>traverse\<close>, \<open>get\<close>, \<open>check_cooldown\<close>,
    \<open>start_cooldown\<close>, \<open>reserve_writer\<close> of debt/list.rs and the traversal of \<open>pay_all\<close>), for local nodes that come and go, with its
    invariant. \<open>Life_Runs\<close>: cooldown and its gap (\<open>cooldown_aba\<close>), walks of writers.

  \<^item> \<open>Execute\<close>: equations with which the simplifier runs an operation on a concrete world, and what a test is (\<open>passes\<close>). \<open>Unit_Tests\<close> (the tests of
    lib.rs), \<open>Unit_Runs\<close> (they pass; of a loop one round is executed on the world the rounds before leave), \<open>Client_Tests\<close> (the tests of access.rs,
    cache.rs, weak.rs, ref_cnt.rs).

  \<^bold>\<open>How the model corresponds to the code.\<close> The state of the process is the record \<open>world\<close>: its fields are the
  heap, the \<open>AtomicPtr\<close> of every storage, the nodes with \<open>LIST_HEAD\<close>, the thread-local data, the locks. A method is an
  operation \<open>world \<Rightarrow> fault + (result \<times> world)\<close> of the same name. Every \<open>expect\<close>, \<open>assert!\<close>, \<open>debug_assert!\<close>,
  \<open>unreachable!\<close> of the code and every use of a count that is gone is a fault; machine words wrap around at 64 bits. What
  the program does not decide, where the allocator puts things and when a weak compare-exchange fails spuriously, is part of
  the state (\<open>place\<close>, \<open>spurious\<close>) and universally quantified in the theorems.

  In the theories up to \<open>Example\<close> an operation runs without being interrupted, in a world in which the other threads may have been stopped
  anywhere in theirs: \<open>wf_world\<close> and \<open>ready\<close> allow nodes of other threads with open transactions, unopened
  envelopes and debts. This covers all of the interface, every kind of pointer and every strategy. The theories from \<open>Concurrent\<close> on
  interleave the single accesses of the hybrid strategy, which is where it is hard, for pointers of the kind \<open>Arc\<close> and threads that
  have their nodes. How threads get nodes and give them up is interleaved in \<open>Life_Cycle\<close>, without what happens in the slots.

  \<^bold>\<open>What the theorems show.\<close> C1 to C8 are about all interleavings: no schedule faults, what a handle or a storage has is
  alive, loads are linearizable and wait-free, an operation that runs alone ends, writers are not lock-free, the accounts are exact
  whenever the threads rest, values do not change under a handle. C9 to C12 are about all interleavings of the life of the nodes: a node has one
  owner, a writer misses no node, what cooldown protects from and where it has a gap. C13 to C19 are about whole programs of uninterrupted calls: no call
  faults, the counts are exact, what is reachable is alive, nothing leaks, values keep their type, every sequence of calls refines the
  specification, the strategies agree. C20 to C27 are the operations of a storage and of a guard, for every strategy. C28 to C33 are the debt
  machinery: the handshake, slots, nodes, thread ends, the wrap-around of the generation counter. C34 to C36 are the smart pointers,
  C37 to C39 the clients. C40 runs unit tests of the crate.

  \<^bold>\<open>Loops.\<close> Loops over lists are structural. The walk over the nodes has as much fuel as there are nodes, \<open>push_node\<close>
  and \<open>cas_loop\<close> as many rounds as spurious failures are still to come and one more, \<open>help_loop\<close> two rounds, \<open>rcu\<close> any positive
  number; the theorems show that this is enough, since they are statements of total correctness: running out of fuel is a
  fault, and none occurs. In the interleaving machine the loops are unrolled by the program counter; a load is done after at most 22 accesses of its
  own (C4), any operation that runs alone after \<open>100 * threads + 60 * failures + 125\<close> accesses, where the failures are the spurious ones
  to come (C5), but two writers can keep each other in \<open>help\<close> without end (C6).

  \<^bold>\<open>Not modelled.\<close> Memory orderings (the model is sequentially consistent); in the interleaving machine of
  the strategy, threads that come and go (the machine of \<open>Life_Cycle\<close> has them) and pointers of other kinds than \<open>Arc\<close>; the marker traits and lifetimes (checked by
  the compiler, with the files of compile_fail_tests.rs), the documentation modules and the benchmarks. Of the unit tests, those
  whose threads run freely (\<open>publish\<close>, \<open>multi_writers\<close>, \<open>rcu\<close>, and the integration tests), those of serde.rs, which need a format, and the two of
  access.rs whose projection looks through an optional \<open>Arc\<close> (a projection of the model is a function of the smart pointer); \<open>cas_ref_cnt\<close> has the
  10 rounds it has under Miri.
\<close>

section \<open>All interleavings\<close>



text \<open>
  C2: In every state the threads can reach, in the middle of whatever operations, the pointer of every handle, guards with
  a debt included, and of every storage has a positive count.
\<close>

theorem interleaved_handles_alive:
  assumes "creachable uf N pl sp S" and "envelopes_ok N pl"
  shows "(\<forall>h\<in>set (bag S). 0 < refs (mem S) (h_ptr h)) \<and>
    (\<forall>a p. storage (mem S) a = Some p \<longrightarrow> 0 < refs (mem S) p)"
proof -
  have i: "cinv S" by (rule creachable_cinv [OF assms])
  show ?thesis using alive_handle [OF i] alive_counted [OF i] stored_not_none [OF i] by blast
qed

theorem interleaved_handles_alive_witness:
  "0 < refs (mem (ex_run (ex_setup @ ex_crossing @ ex_rest))) 8192"
  using interleaved_handles_alive [OF ex_creachable ex_envelopes, of "ex_setup @ ex_crossing @ ex_rest"] ex_run_done(1) by simp

text \<open>
  C3: Loads are linearizable. If a thread begins a load and the other threads do whatever they like until it is done, it
  gets a pointer that was in the storage at some moment in between, also if another thread helped it. This holds for the
  loads of users as well as for the ones inside of a compare-and-swap and of a writer that helps.
\<close>

theorem load_linearizable:
  assumes "creachable uf N pl sp S" and "envelopes_ok N pl" and "t < threads S" and "pcs S t = begin_load uf a k"
    and "play uf es S = Inr S'" and "pcs S' t = loaded_by h k" and "throughout uf t k es S"
  shows "was_stored uf es S a (h_ptr h)"
proof -
  have i: "cinv S" by (rule creachable_cinv [OF assms(1,2)])
  obtain H where H: "sinv S H" using creachable_sees [OF assms(1,2)] by blast
  obtain r where r: "pcs S t = Read r k" "cell_of r = Some a" using assms(4) by (auto simp: begin_load_def)
  have "h_ptr h \<in> {p. storage (mem S) a = Some p} \<or> was_stored uf es S a (h_ptr h)"
    by (rule load_window [OF i begun_sees [OF i H assms(3,4)] assms(3) r(1) _ _ assms(5-7)]) (use r(2) in simp_all)
  then show ?thesis using was_stored_now by blast
qed

theorem load_linearizable_witness:
  "was_stored ex_slow ex_crossing (ex_run ex_setup) 16 8192"
proof -
  have "was_stored ex_slow ex_crossing (ex_run ex_setup) 16 (h_ptr (Hnd 8192 None))"
    by (rule load_linearizable [OF ex_creachable ex_envelopes _ ex_run_begun(1) ex_run_append _ ex_run_crossed(2)])
      (use ex_run_begun ex_run_crossed in simp_all)
  then show ?thesis by simp
qed

text \<open>
  C4: Loads are wait-free. A load that gets to make 22 accesses of its own is done, whatever the other threads do in between, unless
  the generation counter of its thread is about to wrap around.
\<close>

theorem load_wait_free:
  assumes "creachable uf N pl sp S" and "envelopes_ok N pl" and "t < threads S" and "pcs S t = begin_load uf a k"
    and "22 \<le> ticks t es"
  shows "\<exists>es1 es2 S1. es = es1 @ es2 \<and> play uf es1 S = Inr S1 \<and> (stopped t S1 \<or> (\<exists>h. pcs S1 t = loaded_by h k))"
proof -
  obtain r where "pcs S t = Read r k" "read_rank r \<le> 22" using assms(4) by (auto simp: begin_load_def split: if_splits)
  then show ?thesis using load_ends [OF creachable_cinv [OF assms(1,2)] assms(3)] assms(5) le_trans by blast
qed

theorem load_wait_free_witness:
  "\<exists>es1 es2 S1. replicate 30 (Tick 1) = es1 @ es2 \<and> play ex_slow es1 (ex_run ex_setup) = Inr S1 \<and>
     (stopped 1 S1 \<or> (\<exists>h. pcs S1 1 = loaded_by h ForUser))"
  by (rule load_wait_free [OF ex_creachable ex_envelopes _ ex_run_begun(1)]) (simp_all add: ex_run_begun numeral_eq_Suc)



text \<open>
  C6: Writers are not lock-free. Under the default strategy a store and a compare-and-swap can keep each other busy: both threads make as
  many accesses as we like (44 in each round, up to the wrap-around of their generation counters), nobody else makes any, and both
  are still in the middle of their operations, each in a load on behalf of the other one.
\<close>

theorem writers_not_lock_free:
  assumes "n \<le> 2 ^ 60"
  shows "\<exists>S. play all_fast (knot_setup @ concat (replicate n (entangle 0 1))) (cstart 2 ex_envelope []) = Inr S \<and>
    (\<exists>r c. pcs S 0 = Read r (ForHelp (WCtx 16 4096 Storing) 1 c)) \<and>
    (\<exists>r c. pcs S 1 = Read r (ForHelp (WCtx 16 8192 (Comparing (Hnd 8192 None))) 0 c))"
proof -
  obtain S where s: "play all_fast knot_setup (cstart 2 ex_envelope []) = Inr S" "knot 0 1 storer swapper 12288 S"
    "gnr (mem S) 0 = 4" "gnr (mem S) 1 = 8" using knot_comes by blast
  obtain S' where "play all_fast (concat (replicate n (entangle 0 1))) S = Inr S'" "knot 0 1 storer swapper 12288 S'"
    using knot_holds [OF s(2), of all_fast n] s(3,4) assms by auto
  then show ?thesis using s(1) by (intro exI [of _ S']) (auto simp: play_append knot_def)
qed

theorem writers_not_lock_free_witness:
  "\<exists>S. play all_fast (knot_setup @ concat (replicate 1000000 (entangle 0 1))) (cstart 2 ex_envelope []) = Inr S \<and> pcs S 1 \<noteq> Idle"
  using writers_not_lock_free [of 1000000] by auto

text \<open>
  C7: Nothing is lost between the threads. Whenever no thread is in the middle of an operation, the count of a pointer and the debts on
  it are exactly its handles and the storages it is in; without handles there are no debts and the count is the number of storages.
\<close>

theorem interleaved_accounts:
  assumes "creachable uf N pl sp S" and "envelopes_ok N pl" and "quiescent S" and "p \<noteq> debt_none"
  shows "refs (mem S) p + owed (mem S) p = handles_on S p + stored (storage (mem S)) p \<and>
    (bag S = [] \<longrightarrow> owed (mem S) p = 0 \<and> refs (mem S) p = stored (storage (mem S)) p)"
proof -
  have i: "cinv S" by (rule creachable_cinv [OF assms(1,2)])
  have acc: "refs (mem S) p + owed (mem S) p = handles_on S p + stored (storage (mem S)) p"
    by (rule rest_account [OF i assms(3,4)])
  have "owed (mem S) p \<le> on p {#}" if "bag S = []"
    by (rule owed_le_on) (use rest_no_debts [OF i assms(3) that] assms(4) in auto)
  then show ?thesis using acc by (auto simp: handles_on_def)
qed

theorem interleaved_accounts_witness:
  "refs (mem (ex_run (ex_setup @ ex_crossing @ ex_rest))) 4096 + owed (mem (ex_run (ex_setup @ ex_crossing @ ex_rest))) 4096
     = stored (storage (mem (ex_run (ex_setup @ ex_crossing @ ex_rest)))) 4096"
proof -
  have "quiescent (ex_run (ex_setup @ ex_crossing @ ex_rest))"
    using ex_run_done by (simp add: quiescent_def less_2_cases_iff)
  then show ?thesis
    using interleaved_accounts [OF ex_creachable ex_envelopes, of "ex_setup @ ex_crossing @ ex_rest" 4096] ex_run_done(1)
    by (simp add: debt_none_def handles_on_def)
qed

text \<open>
  C8: A handle keeps showing the same value: no access of any thread changes, frees or replaces what a handle points to as long as the
  handle exists.
\<close>

theorem interleaved_values_stable:
  assumes "creachable uf N pl sp S" and "envelopes_ok N pl" and "happen uf e S = Inr S'"
    and "h \<in> set (bag S)" and "h \<in> set (bag S')"
  shows "\<exists>v. value_at S (h_ptr h) = Some v \<and> value_at S' (h_ptr h) = Some v"
proof -
  have i: "cinv S" by (rule creachable_cinv [OF assms(1,2)])
  then have i': "cinv S'" using happen_keeps [OF i, of uf e] assms(3) by auto
  note al = alive_handle [OF i assms(4)] alive_handle [OF i' assms(5)]
  then have "heap (mem S) (h_ptr h) \<noteq> None" by (auto simp: rc_count_def split: option.splits)
  then show ?thesis using happen_values [OF i assms(3) al] by auto
qed

theorem interleaved_values_stable_witness:
  "\<exists>v. value_at (ex_run (ex_setup @ ex_crossing @ ex_rest)) 8192 = Some v"
proof -
  let ?S = "ex_run (ex_setup @ ex_crossing @ ex_rest)"
  let ?S' = "?S\<lparr>pcs := (pcs ?S)(0 := begin_load ex_slow 16 ForUser)\<rparr>"
  have "happen ex_slow (Call 0 (CLoad 16)) ?S = Inr ?S'" using ex_run_done by simp
  from interleaved_values_stable [OF ex_creachable ex_envelopes this, of "Hnd 8192 None"]
  show ?thesis using ex_run_done(1) by auto
qed

section \<open>The life of the nodes\<close>

text \<open>
  C9: The nodes are handed out exclusively. Let any local nodes acquire nodes, give them up and go over the list in any order, one access after the other:
  no assertion fails; a node that somebody has is marked as used and nobody else has it; it is in the list, and the list consists
  of all nodes but those that are being made; the counter of a node is the number of reservations on it.
\<close>

theorem nodes_exclusive:
  "\<exists>S :: 'v life. life_play es (life_start pl sp) = Inr S \<and>
     (\<forall>l n. holds l n S \<longrightarrow> in_use (nodes (lmem S) ! n) = NODE_USED \<and> (\<forall>l'. holds l' n S \<longrightarrow> l' = l)) \<and>
     (\<forall>l n. ln_node (locals (lmem S) l) = Some n \<longrightarrow> published n S) \<and>
     (\<exists>ns. chain (lmem S) (list_head (lmem S)) ns \<and> distinct ns \<and> set ns = {n. published n S}) \<and>
     (\<forall>n<length (nodes (lmem S)). active_writers (nodes (lmem S) ! n) = of_nat (card (reservers S n)))"
proof -
  obtain S :: "'v life" where S: "life_play es (life_start pl sp) = Inr S" "linv (actor ` set es) S"
    using linv_play [OF linv_start, of "actor ` set es" es pl sp] by auto
  note D = linvD(4-7) [OF S(2)]
  show ?thesis
    by (intro exI [of _ S] conjI allI impI S(1) D(3,4) own_published [OF S(2)]) (use D(1,2) in blast)+
qed

theorem nodes_exclusive_witness:
  "\<exists>S. life_play (aba_before @ aba_after) (life_start (\<lambda>_. 8) []) = Inr (S :: unit life) \<and>
     in_use (nodes (lmem S) ! 1) = NODE_USED \<and> \<not> holds (Thread 0) 1 S"
proof -
  obtain S where S: "life_play (aba_before @ aba_after) (life_start (\<lambda>_. 8) []) = Inr (S :: unit life)" "holds (Thread 2) 1 S"
    using aba_played by (auto simp: leads_to_iff life_play_append)
  show ?thesis
    using nodes_exclusive [of "aba_before @ aba_after" "\<lambda>_. 8" "[]"] S by fastforce
qed

text \<open>
  C10: A writer misses nobody. Everything that is in the list when a writer begins its walk, and so the node of every thread
  that has one, is visited with a reservation before the walk is over, whatever the other threads do to the list in between.
\<close>

theorem walk_visits_all:
  assumes "life_play es (life_start pl sp) = Inr S" and "lpcs S l = V_Traverse" and "published n S"
    and "life_play fs S = Inr S'" and "lpcs S' l = Rest"
  shows "n \<in> set (visited l fs S)"
proof -
  let ?A = "actor ` set (es @ fs)"
  have i: "linv ?A S" by (rule linv_reach [OF assms(1)]) auto
  have "ahead (lpcs S l) {n} S" using assms(2,3) by simp
  then have "ahead (lpcs S' l) ({n} - set (visited l fs S)) S'"
    using ahead_play [of ?A S l "{n}" fs S'] i assms(4) by auto
  then show ?thesis using assms(5) by (auto split: if_splits)
qed

theorem walk_visits_all_witness:
  "\<exists>S. life_play walk_before (life_start (\<lambda>_. 8) []) = Inr (S :: unit life) \<and> 1 \<in> set (visited (Thread 0) walk_during S)"
proof -
  obtain S S' where S: "life_play walk_before (life_start (\<lambda>_. 8) []) = Inr (S :: unit life)" "lpcs S (Thread 0) = V_Traverse"
      "ln_node (locals (lmem S) (Thread 1)) = Some 1" "life_play walk_during S = Inr S'" "lpcs S' (Thread 0) = Rest"
    using walk_played by (auto simp: leads_to_iff)
  have "published 1 S" by (rule own_published [OF linv_reach [OF S(1) subset_refl] S(3)]) simp
  then show ?thesis using walk_visits_all [OF S(1,2) _ S(4,5)] S(1) by blast
qed

text \<open>
  C11: What cooldown is for. A node that was given up with a writer on it is not handed out before that writer leaves, provided nobody is
  between having seen it without a writer and marking it as unused (the next theorem shows why that is needed).
\<close>

theorem cooldown_protects:
  assumes "life_play es (life_start pl sp) = Inr S" and "card (actor ` set (es @ fs)) < 2 ^ 64"
    and "reserving (lpcs S v) n" and "cooling n S"
    and "life_play fs S = Inr S'" and "v \<notin> actor ` set fs"
  shows "cooling n S' \<and> (\<forall>l. \<not> holds l n S')"
proof -
  let ?A = "actor ` set (es @ fs)"
  have i: "linv ?A S" by (rule linv_reach [OF assms(1)]) auto
  obtain S'' where "life_play fs S = Inr S''" "linv ?A S''" using linv_play [OF i, of fs] by auto
  then have i': "linv ?A S'" using assms(5) by simp
  have "cooling n S'" by (rule cooling_play [OF _ assms(2) i assms(3,4) _ assms(5)]) (use assms(6) in auto)
  then show ?thesis using linvD(4) [OF i', of _ n] by (auto simp: cooling_def)
qed

theorem cooldown_protects_witness:
  "\<exists>S S'. life_play guard_before (life_start (\<lambda>_. 8) []) = Inr (S :: unit life) \<and> life_play guard_during S = Inr S' \<and>
     cooling 1 S' \<and> \<not> holds (Thread 2) 1 S'"
proof -
  obtain S where S: "life_play guard_before (life_start (\<lambda>_. 8) []) = Inr (S :: unit life)" "reserving (lpcs S (Thread 1)) 1"
      "in_use (nodes (lmem S) ! 1) = NODE_COOLDOWN" "1 < length (nodes (lmem S))" "lpcs S (Thread 0) = Rest" "lpcs S (Thread 1) = V_Visit 1"
    using guard_played by (auto simp: leads_to_iff)
  have i: "linv {Thread 0, Thread 1, Thread 2} S"
    by (rule linv_reach [OF S(1)]) (auto simp: guard_before_def)
  have act: "actor ` set (guard_before @ guard_during) = {Thread 0, Thread 1, Thread 2}"
    by (auto simp: guard_before_def guard_during_def image_Un)
  have "lpcs S (Thread 2) = Rest" using linvD(1) [OF linv_reach [OF S(1) subset_refl], of "Thread 2"] by (auto simp: guard_before_def)
  then have c: "cooling 1 S" using S linvD(1) [OF i] unfolding cooling_def by (metis empty_iff insert_iff life_pc.distinct)
  obtain S' where S': "life_play guard_during S = Inr S'"
    using linv_play [OF i, of guard_during] by (auto simp: guard_during_def)
  have n: "card (actor ` set (guard_before @ guard_during)) < 2 ^ 64" unfolding act by simp
  have "cooling 1 S' \<and> (\<forall>l. \<not> holds l 1 S')"
    by (rule cooldown_protects [OF S(1) n S(2) c S']) (simp add: guard_during_def)
  then show ?thesis using S(1) S' by blast
qed

text \<open>
  C12: The proviso is needed. Thread 2 sees the node 1 in cooldown and without a writer; then the node is used again by thread 0,
  thread 1 comes to it as a writer, thread 0 gives it up. In that state the node is in cooldown with a writer on it; two accesses of
  thread 2 alone free it and take it, with the writer still there.
\<close>

theorem cooldown_aba:
  "\<exists>S S'. life_play aba_before (life_start (\<lambda>_. 8) []) = Inr (S :: unit life) \<and> life_play aba_after S = Inr S' \<and>
     reserving (lpcs S (Thread 1)) 1 \<and> in_use (nodes (lmem S) ! 1) = NODE_COOLDOWN \<and>
     actor ` set aba_after = {Thread 2} \<and> reserving (lpcs S' (Thread 1)) 1 \<and> holds (Thread 2) 1 S'"
  using aba_played unfolding leads_to_iff by (auto simp: aba_after_def)

section \<open>Programs that use the crate\<close>



text \<open>
  C14: The reference counts are exact. In every reachable state the count of an allocation plus the debts on it
  is the number of handles (owned pointers and guards) and storages that have the pointer.
\<close>

theorem counts_exact:
  assumes "reachable k strat pl sp S" and "q \<noteq> debt_none" and "counted k q"
  shows "rc_count k (heap (sw S)) q + owed (sw S) q = held (handles S) q + stored (storage (sw S)) q"
proof -
  have b: "books k strat (sw S) (handles S)" using reachable_inv [OF assms(1)] by (simp add: sys_inv_def)
  have "ledger k (sw S) q = int (held (handles S) q) + int (stored (storage (sw S)) q)"
    using invD(4) [OF b] assms(2,3) by (simp add: accounted_def)
  then show ?thesis using calm_mailed [OF invD(1) [OF b]] by (simp add: ledger_def)
qed

theorem counts_exact_witness:
  "rc_count KArc (heap ex_world) 4096 + owed ex_world 4096
     = held [ex_guard, Owned (ArcP 8192)] 4096 + stored (storage ex_world) 4096"
  using counts_exact [OF ex_reachable, of 4096] by (simp add: ex_sys_def debt_none_def counted_def)

text \<open>
  C15: Nothing that is reachable is ever freed: the pointer of every handle and of every storage is alive, for a
  guard as long as it exists, whether the reference it stands for is counted or only owed.
\<close>

theorem handles_alive:
  assumes "reachable k strat pl sp S"
  shows "(\<forall>h\<in>set (handles S). live k (heap (sw S)) (hptr h)) \<and>
    (\<forall>a p. storage (sw S) a = Some p \<longrightarrow> live k (heap (sw S)) p)"
proof -
  have b: "books k strat (sw S) (handles S)" using reachable_inv [OF assms] by (simp add: sys_inv_def)
  show ?thesis using inv_live_handle [OF b] inv_live_storage [OF b] by blast
qed

theorem handles_alive_witness:
  "live KArc (heap ex_world) (hptr ex_guard) \<and> live KArc (heap ex_world) 4096"
  using handles_alive [OF ex_reachable] ex_storage by (auto simp: ex_sys_def)



text \<open>
  C17: Values keep their type. In a program whose storages hold pointers of a supported kind, every handle is a value of that kind, and the raw
  pointer in every storage is the raw form of one: a pointer that cannot be null never is.
\<close>

theorem values_typed:
  assumes "reachable k strat pl sp S" and "supported k"
  shows "(\<forall>h\<in>set (handles S). has_kind (protected_borrow h) k) \<and>
    (\<forall>a p. storage (sw S) a = Some p \<longrightarrow> has_kind (from_ptr k p) k)"
proof -
  have b: "books k strat (sw S) (handles S)" using reachable_inv [OF assms(1)] by (simp add: sys_inv_def)
  have p: "has_kind (from_ptr k p) k" if "p \<in> hptr ` set (handles S) \<or> (\<exists>a. storage (sw S) a = Some p)" for p
    using reachable_no_null [OF assms(1)] that has_kind_from_ptr [OF assms(2), of p]
    by (fastforce simp: no_null_def view_def)
  moreover have "protected_borrow h = from_ptr k (hptr h)" if "h \<in> set (handles S)" for h
    using invD(3) [OF b that] by (simp add: guards_def)
  ultimately show ?thesis by auto
qed

theorem values_typed_witness:
  "has_kind (protected_borrow ex_guard) KArc \<and> has_kind (from_ptr KArc 4096) KArc"
  using values_typed [OF ex_reachable] ex_storage by (auto simp: ex_sys_def)

text \<open>
  C18: The crate implements its specification. Every admissible sequence of calls, started when the program starts,
  runs to its end, and seen through the pointers of storages and handles it does what a machine without
  debts, nodes, counts, strategies and threads does.
\<close>

theorem program_refines_spec:
  assumes "admissible k strat xs (start_sys pl sp)"
  shows "\<exists>S. program k strat xs (start_sys pl sp) = Inr ((), S) \<and>
    view S = fold api_spec xs (\<lambda>_. None, [])"
  using program_wp [OF start_inv assms]
  by (auto simp: wp_result) (simp add: view_def start_sys_def start_world_def)

theorem program_refines_spec_witness:
  "\<exists>S. program KArc (\<lambda>_. DefaultStrategy) [Alloc 4096 (7::nat), Create 16 0, Load 1 16, Alloc 8192 9]
        (start_sys ex_place []) = Inr ((), S) \<and> view S = ([16 \<mapsto> 4096], [4096, 8192])"
proof -
  have "admissible KArc (\<lambda>_. DefaultStrategy) [Alloc 4096 (7::nat), Create 16 0, Load 1 16, Alloc 8192 9]
      (start_sys ex_place [])"
    using ex_call1 ex_call2 ex_call3 ex_call4 ex_pre by (simp del: api_run.simps api_pre.simps)
  from program_refines_spec [OF this] show ?thesis by (simp add: del_nth_def del: program.simps)
qed



section \<open>The operations of a storage\<close>

text \<open>
  C20: \<open>load\<close> returns a guard on the pointer that is in the storage. The guard is one more reference: either it is
  counted, or it is recorded in a fast slot that was empty, the counts staying as they were.
\<close>

theorem load_correct:
  assumes "strategy_ready s t a (Suc c) w" and "storage w a = Some p" and "live k (heap w) p"
  shows "wp (arc_swap_load s k t a) (\<lambda>g w'. guards k p g w' \<and> leased k t p (protected_debt g) w w' \<and>
    (protected_debt g \<noteq> None \<longrightarrow> strategy_leases s) \<and> strategy_ready s t a c w') w"
  unfolding arc_swap_load_def by (rule any_strategy.load [OF assms])

theorem load_correct_witness:
  "wp (arc_swap_load DefaultStrategy KArc 0 16) (\<lambda>g w'. guards KArc 4096 g w' \<and>
     leased KArc 0 4096 (protected_debt g) ex_world w') ex_world"
  by (rule wp_mono [OF load_correct [OF _ ex_storage ex_live(1), where c = 0]]) (simp_all add: ex_ready del: strategy_ready.simps)

text \<open>
  C21: \<open>wait_for_readers\<close> leaves no debt on the old pointer in any slot of any thread, touches no other slot, counts a
  reference for each debt it paid, takes none away, and terminates whatever the other threads were stopped in.
\<close>

theorem wait_pays_all_debts:
  assumes "ready t (Suc c) w" and "storage w a = Some q" and "live k (heap w) q"
    and "live k (heap w) old" and "old \<noteq> debt_none"
  shows "wp (wait_for_readers uf k t old a) (\<lambda>_ w'. settled k True t old w w' \<and> owed w' old = 0 \<and>
    ready t c w') w"
proof (rule wp_mono [OF wait_for_readers_wp [OF assms]], elim conjE, intro conjI)
  fix w' assume s: "settled k True t old w w'"
  have "\<nexists>s. slot_ok w' s \<and> read_slot s w' = old"
    using s assms(5) by (auto simp: settled_def slot_val_def split: if_splits)
  then show "owed w' old = 0" by (simp add: owed_slots filter_empty_conv slot_list_iff)
qed simp_all

theorem wait_pays_all_debts_witness:
  "owed ex_world 4096 = 1 \<and> wp (wait_for_readers True KArc 0 4096 16) (\<lambda>_ w'. owed w' 4096 = 0) ex_world"
proof
  show "owed ex_world 4096 = 1" by (simp add: owed_def node_owed_def node_slots_def ex_world_def ex_node_def)
  show "wp (wait_for_readers True KArc 0 4096 16) (\<lambda>_ w'. owed w' 4096 = 0) ex_world"
    by (rule wp_mono [OF wait_pays_all_debts [OF _ ex_storage ex_live(1) ex_live(1), where c = 0 and t = 0]])
      (use ex_ready [of "Suc 0" DefaultStrategy 0] in \<open>simp_all add: debt_none_def\<close>)
qed

text \<open>
  C22: \<open>swap\<close> puts the new pointer into the storage and returns the old one as an owned pointer: every debt on it is
  paid, the reference of the storage goes to the caller, and all accounts are as before.
\<close>

theorem swap_correct:
  assumes "strategy_ready s t a (Suc c) w" and "storage w a = Some p" and "live k (heap w) p"
    and "live k (heap w) q" and "p \<noteq> debt_none"
  shows "wp (arc_swap_swap s k t a (from_ptr k q)) (\<lambda>v w'. v = from_ptr k p \<and>
    superseded k (strategy_leases s) t a (Some q) p False w w' \<and> strategy_ready s t a c w') w"
  by (rule any_strategy.swap_wp [OF assms])

theorem swap_correct_witness:
  "wp (arc_swap_swap DefaultStrategy KArc 0 16 (ArcP 8192)) (\<lambda>v w'. v = ArcP 4096 \<and>
     superseded KArc True 0 16 (Some 8192) 4096 False ex_world w') ex_world"
  using swap_correct [OF ex_ready ex_storage ex_live, of 0 DefaultStrategy 0]
  by (auto simp: debt_none_def elim!: wp_mono)

text \<open>
  \<open>store\<close> puts the new pointer into the storage and gives up the old one: exactly one reference to it.
\<close>

theorem store_correct:
  assumes "strategy_ready s t a (Suc c) w" and "storage w a = Some p" and "live k (heap w) p"
    and "live k (heap w) q" and "p \<noteq> debt_none"
  shows "wp (arc_swap_store s k t a (from_ptr k q)) (\<lambda>_ w'.
    superseded k (strategy_leases s) t a (Some q) p True w w' \<and> strategy_ready s t a c w') w"
  by (rule any_strategy.store_wp [OF assms])

theorem store_correct_witness:
  "wp (arc_swap_store DefaultStrategy KArc 0 16 (ArcP 8192)) (\<lambda>_ w'.
     superseded KArc True 0 16 (Some 8192) 4096 True ex_world w') ex_world"
  using store_correct [OF ex_ready ex_storage ex_live, of 0 DefaultStrategy 0]
  by (auto simp: debt_none_def elim!: wp_mono)



text \<open>
  C24: \<open>rcu\<close> with a closure that makes a new pointer \<open>q\<close> from the current one puts \<open>q\<close> into the storage and returns the
  pointer that was there; one round of its loop is enough when nobody else writes.
\<close>

theorem rcu_correct:
  assumes "strategy_ready s t a (length (spurious w) + 3 + c) w" and "storage w a = Some p"
    and "live k (heap w) p" and "p \<noteq> debt_none"
    and "\<And>u d. leased k t p d w u \<Longrightarrow> wp (f (from_ptr k p)) (\<lambda>r u'. r = Inr (from_ptr k q) \<and>
        made k t q u u' \<and> (\<forall>c. strategy_ready s t a c u \<longrightarrow> strategy_ready s t a c u')) u"
  shows "wp (rcu (Suc fuel) s k t a f) (\<lambda>r w'. r = Inr (from_ptr k p) \<and>
    updated k (strategy_leases s) t a p q w w' \<and> strategy_ready s t a c w') w"
  by (rule any_strategy.rcu_wp [where f = f, OF assms(1-4)]) (rule assms(5))

theorem rcu_correct_witness:
  "wp (rcu 1 DefaultStrategy KArc 0 16
        (\<lambda>v. bnd (arc_deref v) (\<lambda>x. bnd (arc_new 12288 (x + 1)) (\<lambda>n. ret (Inr n)))))
      (\<lambda>r w'. r = Inr (ArcP 4096) \<and> storage w' 16 = Some 12288) ex_world"
proof -
  let ?f = "\<lambda>v. bnd (arc_deref v) (\<lambda>x. bnd (arc_new 12288 (x + 1)) (\<lambda>n. ret (Inr n))) :: (nat world, fault + smart) op"
  have f: "wp (?f (from_ptr KArc 4096)) (\<lambda>r u'. r = Inr (from_ptr KArc 12288) \<and> made KArc 0 12288 u u' \<and>
      (\<forall>c. strategy_ready DefaultStrategy 0 16 c u \<longrightarrow> strategy_ready DefaultStrategy 0 16 c u')) u"
    if l: "leased KArc 0 4096 d ex_world u" for u d
  proof -
    have h: "heap u = heap ex_world \<or> heap u = inc_at KArc 4096 (heap ex_world)" using l by (auto simp: leased_def)
    have none: "heap u 12288 = None" using h by (auto simp: ex_world_def inc_at_def)
    have dr: "arc_deref (ArcP 4096) u = Inr (7, u)" using h by (auto simp: ex_world_def inc_at_def arc_deref_def)
    let ?u = "u\<lparr>heap := (heap u)(12288 \<mapsto> \<lparr>strong = 1, weak = 0, pointee = 8\<rparr>)\<rparr>"
    have "no_less KArc u ?u" using none by (simp add: no_less_def rc_count_def)
    moreover have "ledger KArc ?u x = ledger KArc u x + (if x = 12288 then 1 else 0)" for x
      using none by (simp add: ledger_def rc_count_def owed_def mailed_def)
    ultimately have "made KArc 0 12288 u ?u"
      using op_frame_heap [of 0 u] by (simp add: made_def live_def rc_count_def)
    then show ?thesis using none by (simp add: dr wp_Inr arc_new_def debt_none_def)
  qed
  have "wp (rcu (Suc 0) DefaultStrategy KArc 0 16 ?f) (\<lambda>r w'. r = Inr (from_ptr KArc 4096) \<and>
      updated KArc (strategy_leases DefaultStrategy) 0 16 4096 12288 ex_world w' \<and>
      strategy_ready DefaultStrategy 0 16 0 w') ex_world"
  proof (rule rcu_correct [OF _ ex_storage ex_live(1)])
    have "length (spurious ex_world) = 0" by (simp add: ex_world_def start_world_def)
    then show "strategy_ready DefaultStrategy 0 16 (length (spurious ex_world) + 3 + 0) ex_world"
      using ex_ready [of 3 DefaultStrategy 0] by simp
  qed (simp add: debt_none_def, rule f)
  then show ?thesis by (auto simp: updated_def elim!: wp_mono)
qed

text \<open>
  C25: When the closure of \<open>rcu\<close> panics, the panic is passed on, and the storage, the counts and the debts are as they
  were before the call.
\<close>

theorem rcu_panic:
  assumes "strategy_ready s t a (Suc c) w" and "storage w a = Some p" and "live k (heap w) p"
    and "\<And>u. f (from_ptr k p) u = Inr (Inl e, u)"
  shows "wp (rcu (Suc fuel) s k t a f) (\<lambda>r w'. r = Inl e \<and> op_frame t w w' \<and> storage w' = storage w \<and>
    heap w' = heap w \<and> slot_val w' = slot_val w \<and> strategy_ready s t a c w') w"
  by (rule any_strategy.rcu_panic_wp [where f = f, OF assms(1-3)]) (rule assms(4))

theorem rcu_panic_witness:
  "wp (rcu 1 DefaultStrategy KArc 0 16 (\<lambda>_. ret (Inl User_Panic)))
     (\<lambda>r w'. r = Inl User_Panic \<and> heap w' = heap ex_world \<and> slot_val w' = slot_val ex_world) ex_world"
  using rcu_panic [where fuel = 0 and f = "\<lambda>_. ret (Inl User_Panic)" and e = User_Panic,
      OF ex_ready ex_storage ex_live(1), of 0 DefaultStrategy 0]
  by (auto simp: ret_def elim!: wp_mono)

text \<open>
  C26: \<open>into_inner\<close> takes a storage apart and returns its pointer as an owned one, with every debt on it paid.
\<close>

theorem into_inner_correct:
  assumes "strategy_ready s t a (Suc c) w" and "storage w a = Some p" and "live k (heap w) p" and "p \<noteq> debt_none"
  shows "wp (arc_swap_into_inner s k t a) (\<lambda>v w'. v = from_ptr k p \<and>
    superseded k (strategy_leases s) t a None p False w w' \<and> strategy_ready s t a c w') w"
  by (rule any_strategy.into_inner_wp [OF assms])

theorem into_inner_correct_witness:
  "wp (arc_swap_into_inner DefaultStrategy KArc 0 16) (\<lambda>v w'. v = ArcP 4096 \<and> storage w' 16 = None) ex_world"
  using into_inner_correct [OF ex_ready ex_storage ex_live(1), of 0 DefaultStrategy 0]
  by (auto simp: debt_none_def superseded_def elim!: wp_mono)

text \<open>Dropping a storage pays every debt on its pointer and gives up exactly one reference to it.\<close>

theorem drop_correct:
  assumes "strategy_ready s t a (Suc c) w" and "storage w a = Some p" and "live k (heap w) p" and "p \<noteq> debt_none"
  shows "wp (arc_swap_drop s k t a) (\<lambda>_ w'.
    superseded k (strategy_leases s) t a None p True w w' \<and> strategy_ready s t a c w') w"
  by (rule any_strategy.drop_wp [OF assms])

theorem drop_correct_witness:
  "wp (arc_swap_drop DefaultStrategy KArc 1 16) (\<lambda>_ w'. storage w' 16 = None \<and>
     ledger KArc w' 4096 = ledger KArc ex_world 4096 - 1) ex_world"
  using drop_correct [OF ex_ready ex_storage ex_live(1), of 0 DefaultStrategy 1]
  by (auto simp: debt_none_def superseded_def counted_def elim!: wp_mono)

text \<open>
  C27: A guard is dropped or turned into an owned pointer correctly, whether its debt is still there or was paid by a
  writer in the meantime: dropping gives up one reference, turning it keeps the accounts; at most the slot of its own
  debt is emptied.
\<close>

theorem guard_correct:
  assumes "guards k p g w" and "live k (heap w) p"
  shows "wp (protected_drop g) (\<lambda>_ w'. returned k t p (protected_debt g) w w') w \<and>
    wp (guard_into_inner k g) (\<lambda>v w'. v = from_ptr k p \<and> cashed k t p (protected_debt g) w w') w"
  unfolding guard_into_inner_def
  by (intro conjI wp_mono [OF protected_drop_wp [OF assms]] wp_mono [OF protected_into_inner_wp [OF assms]]) blast+

theorem guard_correct_witness:
  "wp (protected_drop ex_guard) (\<lambda>_ w'. returned KArc 1 4096 (Some (FastSlot 0 0)) ex_world w') ex_world"
  using guard_correct [of KArc 4096 ex_guard ex_world 1] ex_live(1)
  by (simp add: guards_def ex_guard_def slot_ok_def ex_world_def ex_node_def)

section \<open>Debts and their nodes\<close>

text \<open>
  C28: A writer that meets a reader in the middle of its transaction on the same storage hands it a reference: the
  reader's confirmation returns the pointer of the storage, with one reference to it counted for the reader; its
  transaction is closed, and no envelope is lost.
\<close>

theorem helping_hands_over:
  assumes "collides (Thread t) n m u" and "\<not> tls_gone u t" and "storage u a = Some p"
    and "room (Thread t) 1 u" and "live k (heap u) p"
    and "active_addr (helping (nodes u ! m)) = a" and "slot (helping (nodes u ! m)) = debt_none"
  shows "wp (bnd (helping_help n m a (hybrid_replacement uf k t a))
        (\<lambda>_. helping_confirm m (control (helping (nodes u ! m))) cand))
     (\<lambda>r w'. r = Inl p \<and> heap w' = inc_at k p (heap u) \<and> control (helping (nodes w' ! m)) = IDLE \<and>
        slot (helping (nodes w' ! m)) = cand \<and> storage w' = storage u \<and> (\<forall>q. mailed w' q = mailed u q)) u"
proof -
  have g: "control (helping (nodes u ! m)) AND TAG_MASK = GEN_TAG" using assms(1) by (simp add: collides_def)
  show ?thesis
    unfolding wp_bnd
    by (rule wp_mono [OF hybrid_source.help_exchange_wp [OF assms(1-6)]])
      (use confirm_exchanged [OF assms(1) _ assms(5,7) g] in blast)
qed

theorem helping_hands_over_witness:
  "wp (bnd (helping_help 0 1 16 (hybrid_replacement True KArc 1 16)) (\<lambda>_. helping_confirm 1 6 8192))
     (\<lambda>r w'. r = Inl 4096 \<and> rc_count KArc (heap w') 4096 = 2) ex_meeting"
  using helping_hands_over [OF ex_collides, of 16 4096 KArc True 8192] ex_live(1)
  by (auto simp: ex_meeting_defs room_def debt_none_def rc_count_def inc_at_def live_def counted_def elim!: wp_mono)

text \<open>
  C29: A fast slot is found exactly when one is free. The slot that is taken was free and is the only one that changes; the
  search of the next one starts behind it.
\<close>

theorem fast_slot_allocation:
  "case fast_get_debt ptr slots l of
     (None, slots', l') \<Rightarrow> slots' = slots \<and> l' = l \<and> debt_none \<notin> set slots
   | (Some j, slots', l') \<Rightarrow> j < length slots \<and> slots ! j = debt_none \<and> slots' = slots[j := ptr] \<and>
       l' = l\<lparr>offset := j + 1\<rparr>"
proof (cases "fast_get_debt ptr slots l")
  case (fields r slots' l')
  show ?thesis
  proof (cases r)
    case None
    with fields have "fast_get_debt ptr slots l = (None, slots', l')" by simp
    from fast_get_debt_unchanged [OF this] fast_get_debt_None [of ptr slots l] show ?thesis
      using fields None by (auto simp: in_set_conv_nth)
  next
    case (Some j)
    with fields have "fast_get_debt ptr slots l = (Some j, slots', l')" by simp
    from fast_get_debt_Some [OF this] show ?thesis using fields Some by simp
  qed
qed

text \<open>
  C30: A thread that asks for a node gets one that belongs to nobody: it is in use, at rest, no other thread has it, and
  the list, the debts, the envelopes under way and the counts are as before.
\<close>

theorem node_get_exclusive:
  assumes "wf_world w" and "can_grow w"
  shows "wp node_get (\<lambda>n w'. wf_world w' \<and> gains w n w' \<and> (\<forall>l. ln_node (locals w' l) \<noteq> Some n)) w"
proof (rule wp_mono [OF node_get_wp [OF assms]], elim conjE, intro conjI allI)
  fix n w' l assume "wf_world w'" and g: "gains w n w'"
  show "ln_node (locals w' l) \<noteq> Some n"
  proof
    assume "ln_node (locals w' l) = Some n"
    then have "n < length (nodes w) \<and> in_use (nodes w ! n) = NODE_USED"
      using g wf_ownD [OF assms(1), of l n] by (simp add: gains_def)
    with g show False by (simp add: gains_def)
  qed
qed

theorem node_get_exclusive_witness:
  "wp node_get (\<lambda>n w'. wf_world w' \<and> (\<forall>l. ln_node (locals w' l) \<noteq> Some n)) ex_meeting"
  using node_get_exclusive [OF ex_meeting_wf]
  by (auto simp: can_grow_def ex_meeting_defs ex_place_ok elim!: wp_mono)

text \<open>
  C31: The list of nodes does not grow while a node is free: a thread then claims one of the free ones (unused, or
  cooled down with no writer on it), and nothing but its mark changes.
\<close>

theorem node_get_reuses_free:
  assumes "wf_world w" and "i < length (nodes w)" and "free_node (nodes w ! i)"
  shows "wp node_get (\<lambda>n w'. n < length (nodes w) \<and> free_node (nodes w ! n) \<and>
    w' = upd_node n (\<lambda>nd. nd\<lparr>in_use := NODE_USED\<rparr>) w) w"
  using node_get_reuses [OF _ assms(2,3)] assms(1) by (simp add: wf_world_def)

theorem node_get_reuses_free_witness:
  "wp (bnd (thread_exit 1) (\<lambda>_. node_get)) (\<lambda>n w'. n = 0 \<and> length (nodes w') = 2) ex_meeting"
proof -
  have rest: "at_rest (Thread 1) ex_meeting" by (simp add: at_rest_def ex_meeting_defs idle_helping_def tag_defs debt_none_def)
  obtain w' where run: "thread_exit 1 ex_meeting = Inr ((), w')" and wf: "wf_world w'"
    using thread_exit_wp [OF ex_meeting_wf rest] by (auto simp: wp_result)
  have nodes: "nodes w' = [ex_node\<lparr>in_use := NODE_COOLDOWN\<rparr>, ex_reader]"
    using run by (auto simp: thread_exit_def local_drop_def start_cooldown_def reserve_writer_def release_writer_def
        op_defs upd_node_def upd_local_def ex_meeting_defs in_use_defs)
  have "wp node_get (\<lambda>n w'. n = 0 \<and> length (nodes w') = 2) w'"
    by (rule wp_mono [OF node_get_reuses_free [OF wf, of 0]])
      (auto simp: nodes free_node_def ex_node_def ex_reader_def in_use_defs less_Suc_eq)
  with run show ?thesis by (simp add: wp_Inr)
qed

text \<open>
  C32: The end of a thread loses no debt: its node goes into cooldown, and every slot, envelope, count and storage is as
  before, so its guards that moved to other threads stay protected.
\<close>

theorem thread_exit_keeps_debts:
  fixes w :: "'v world"
  assumes "wf_world w" and "at_rest (Thread t) w"
  shows "wp (thread_exit t) (\<lambda>_ w'. wf_world w' \<and> heap w' = heap w \<and> storage w' = storage w \<and>
      slot_val w' = slot_val w \<and> handover w' = handover w \<and>
      (\<forall>n. ln_node (locals w (Thread t)) = Some n \<longrightarrow> in_use (nodes w' ! n) = NODE_COOLDOWN)) w"
proof (rule wp_mono [OF thread_exit_wp [OF assms]], elim conjE, intro conjI)
  fix w' :: "'v world" assume "length (nodes w') = length (nodes w)"
    and "\<forall>j<length (nodes w). fast (nodes w' ! j) = fast (nodes w ! j) \<and> helping (nodes w' ! j) = helping (nodes w ! j)"
  then show "slot_val w' = slot_val w" by (intro slot_val_cong) (simp_all add: node_slots_def)
qed simp_all

theorem thread_exit_keeps_debts_witness:
  "wp (thread_exit 1) (\<lambda>_ w'. slot_val w' (FastSlot 0 0) = 4096 \<and> in_use (nodes w' ! 0) = NODE_COOLDOWN) ex_meeting"
proof -
  have "at_rest (Thread 1) ex_meeting" by (simp add: at_rest_def ex_meeting_defs idle_helping_def tag_defs debt_none_def)
  moreover have "slot_val ex_meeting (FastSlot 0 0) = 4096" by (simp add: slot_val_def slot_ok_def ex_meeting_defs)
  moreover have "ln_node (locals ex_meeting (Thread 1)) = Some 0" by (simp add: ex_meeting_defs)
  ultimately show ?thesis using thread_exit_keeps_debts [OF ex_meeting_wf, of 1] by (auto elim!: wp_mono)
qed

text \<open>
  C33: After 2^62 loads through the helping slot the counter of a thread wraps around, and the load panics: the node is given
  back before the transaction is confirmed, and the confirmation expects it to be there.
\<close>

theorem generation_wrap_panics:
  assumes "owns (Thread t) n w" and "\<not> tls_gone w t" and "storage w a = Some p"
    and "generation (ln_helping (locals w (Thread t))) = - 4"
  shows "hybrid_load False k t a w = Inl Expect_Failed"
proof -
  note o = ownsD [OF assms(1)]
  have idle: "control (helping (nodes w ! n)) = IDLE" using o(5) by (simp add: idle_helping_def)
  show ?thesis
    using assms(2-4) o(2,3,4) idle
    by (simp add: hybrid_load_def local_with_def ensure_node_def fallback_def new_helping_def own_node_def
        helping_get_debt_def start_cooldown_def reserve_writer_def release_writer_def confirm_helping_def ptr_load_def
        op_defs upd_helping_def upd_node_def upd_local_def Let_def)
qed

theorem generation_wrap_panics_witness:
  "hybrid_load False KArc 1 16
     (upd_local (Thread 1) (\<lambda>ln. ln\<lparr>ln_helping := \<lparr>generation = - 4\<rparr>\<rparr>) ex_meeting) = Inl Expect_Failed"
proof (rule generation_wrap_panics)
  show "owns (Thread 1) 0 (upd_local (Thread 1) (\<lambda>ln. ln\<lparr>ln_helping := \<lparr>generation = - 4\<rparr>\<rparr>) ex_meeting)"
    by (rule owns_upd_local) (use ex_collides in \<open>simp_all add: collides_def TAG_MASK_def\<close>)
qed (simp_all add: ex_meeting_defs)

section \<open>Smart pointers\<close>

text \<open>
  C34: The supported kinds of smart pointers are exactly those that survive the way through a raw pointer: \<open>from_ptr\<close> undoes
  \<open>into_ptr\<close> on all values of a kind if and only if the kind is not an option around something that has a null value of
  its own (an option, or a weak pointer, whose \<open>Weak::new()\<close> is null).
\<close>

theorem raw_roundtrip_iff_supported:
  "supported k \<longleftrightarrow> (\<forall>v. has_kind v k \<longrightarrow> from_ptr k (into_ptr v) = v)"
proof
  assume "supported k"
  then show "\<forall>v. has_kind v k \<longrightarrow> from_ptr k (into_ptr v) = v" using from_ptr_into_ptr by blast
next
  assume r: "\<forall>v. has_kind v k \<longrightarrow> from_ptr k (into_ptr v) = v"
  show "supported k"
  proof (rule ccontr)
    assume "\<not> supported k"
    then obtain k' where k: "k = KOption k'" "nullable k'" by (cases k) auto
    have "has_kind (SomeP (from_ptr k' 0)) k"
      using k(2) by (cases k') (auto simp: k(1))
    with r have "from_ptr k (into_ptr (SomeP (from_ptr k' 0))) = SomeP (from_ptr k' 0)" by blast
    then show False by (simp add: k(1))
  qed
qed

theorem raw_roundtrip_iff_supported_witness:
  "from_ptr (KOption KArc) (into_ptr (SomeP (ArcP 4096))) = SomeP (ArcP 4096) \<and> has_kind (SomeP (ArcP 4096)) (KOption KArc)"
  using raw_roundtrip_iff_supported [of "KOption KArc"] by simp



text \<open>
  C36: Mixing strong and weak storages of one allocation is unsound: a store into an \<open>ArcSwapWeak\<close> pays a debt a guard of an
  \<open>ArcSwap\<close> has on the same address with a weak count, so dropping the guard takes a strong reference too many, and
  the \<open>Arc\<close> the program still owns dangles.
\<close>

theorem mixed_kinds_use_after_free:
  "mixed_kinds (start_world ex_place []) = Inl (Use_After_Free 4096)"
proof -
  have "(case mixed_kinds (start_world ex_place []) of Inl e \<Rightarrow> Some e | Inr _ \<Rightarrow> None) = Some (Use_After_Free 4096)"
    by code_simp
  then show ?thesis by (simp split: sum.splits)
qed

section \<open>Caches, projections, serialization\<close>

text \<open>
  C37: A load through a cache returns the pointer that is in the storage now. It costs nothing while the storage has not
  changed; otherwise the cache lets go of the old pointer and owns the new one.
\<close>

theorem cache_load_fresh:
  assumes "strategy_ready s t a (Suc c) w" and "storage w a = Some p" and "live k (heap w) p" and "live k (heap w) q"
  shows "wp (cache_load s k t \<lparr>cache_arc_swap = a, cached = from_ptr k q\<rparr>)
    (\<lambda>(v, ch) w'. v = from_ptr k p \<and> ch = \<lparr>cache_arc_swap = a, cached = from_ptr k p\<rparr> \<and>
       refreshed k t q p w w' \<and> strategy_ready s t a c w') w"
  by (rule any_strategy.cache_load_wp [OF assms])

theorem cache_load_fresh_witness:
  "wp (cache_load DefaultStrategy KArc 0 \<lparr>cache_arc_swap = 16, cached = ArcP 8192\<rparr>)
     (\<lambda>(v, ch) w'. v = ArcP 4096 \<and> rc_count KArc (heap w') 8192 = 0) ex_world"
  using cache_load_fresh [OF ex_ready ex_storage ex_live, of 0 DefaultStrategy 0]
  by (auto simp: refreshed_def dec_at_def inc_at_def counted_def ex_world_def settle_def rc_count_def elim!: wp_mono)

text \<open>
  C38: Looking at a part of a stored value through a projection, also as a trait object, shows that part of the current
  value; once the guard is dropped, storage, counts and slots are as before.
\<close>

theorem dyn_map_peek:
  assumes "strategy_ready s t a (Suc 0) w" and "holds_value a w x"
  shows "wp (peek (dyn_access (dyn_load (map_new (direct_access s KArc t a) f)))) (\<lambda>r w'. r = f x \<and> untouched w w') w"
  by (rule access_contract.peek_current [OF access_contract.dyn_contract
        [OF access_contract.map_contract [OF direct_access.access_contract_axioms]]])
    (use assms in auto)

theorem dyn_map_peek_witness:
  "wp (peek (dyn_access (dyn_load (map_new (direct_access DefaultStrategy KArc 0 16) (\<lambda>n. n * 2)))))
     (\<lambda>r w'. r = 14 \<and> untouched ex_world w') ex_world"
  using dyn_map_peek [of DefaultStrategy 0 16 ex_world 7 "\<lambda>n. n * 2"] ex_ready [of "Suc 0" DefaultStrategy 0]
  by (auto simp: holds_value_def ex_storage) (simp add: ex_world_def)

text \<open>
  C39: Serializing a storage and deserializing the output gives a storage with an equal value; the first storage keeps
  its own, and its counts and slots are as before.
\<close>

theorem serde_roundtrip:
  assumes "strategy_ready s t a (Suc 0) w" and "holds_value a w x" and "a \<noteq> b"
    and "reads_value ser (\<lambda>y. Inr (enc y))" and "makes_value de dec p" and "dec (enc x) = Inr x"
    and "heap w p = None" and "p \<noteq> 0" and "p \<noteq> debt_none"
  shows "wp (bnd (serialize s KArc t a ser) (\<lambda>r. case r of Inl e \<Rightarrow> ret (Inl e) | Inr out \<Rightarrow> deserialize b de out))
    (\<lambda>r w'. r = Inr () \<and> holds_value b w' x \<and> holds_value a w' x \<and> storage w' = (storage w)(b := Some p)) w"
proof -
  have ser: "wp (serialize s KArc t a ser) (\<lambda>r u. r = Inr (enc x) \<and> untouched w u) w"
    using print_wp [OF assms(1,2,4)] by (simp add: serialize_def)
  have keep: "holds_value a w' x" if u: "untouched w u" and "storage w' = (storage u)(b := Some p)"
    and "\<forall>q. q \<noteq> p \<longrightarrow> heap w' q = heap u q" for u w'
    using that assms(2,3,7) by (auto simp: holds_value_def untouched_def) (metis option.distinct(1))
  have "wp (deserialize b de (enc x)) (\<lambda>r w'. r = Inr () \<and> holds_value b w' x \<and> holds_value a w' x \<and>
      storage w' = (storage w)(b := Some p)) u" if u: "untouched w u" for u
  proof (rule wp_mono [OF deserialize_run [OF assms(5,6) _ assms(8,9), where b = b]], goal_cases)
    case 1
    then show ?case using u assms(7) by (simp add: untouched_def)
  next
    case (2 r w')
    then show ?case using keep [OF u, of w'] u by (simp add: untouched_def)
  qed
  then show ?thesis unfolding wp_bnd by (intro wp_mono [OF ser]) auto
qed

theorem serde_roundtrip_witness:
  "wp (bnd (serialize DefaultStrategy KArc 0 16 (\<lambda>v. bnd (arc_deref v) (\<lambda>x. ret (Inr x))))
        (\<lambda>r. case r of Inl e \<Rightarrow> ret (Inl (e::nat))
          | Inr out \<Rightarrow> deserialize 32 (\<lambda>i. bnd (arc_new 12288 i) (\<lambda>v. ret (Inr v))) out))
     (\<lambda>r w'. r = Inr () \<and> holds_value 32 w' 7 \<and> holds_value 16 w' 7) ex_world"
proof -
  have "reads_value (\<lambda>v. bnd (arc_deref v) (\<lambda>x. ret (Inr x)) :: (nat world, nat + nat) op) (\<lambda>y. Inr y)"
    by (auto simp: reads_value_def bnd_def arc_deref_def ret_def)
  moreover have "makes_value (\<lambda>i. bnd (arc_new 12288 i) (\<lambda>v. ret (Inr v)) :: (nat world, nat + smart) op) Inr 12288"
    by (simp add: makes_value_def)
  moreover have "holds_value 16 ex_world 7" by (simp add: holds_value_def ex_world_def)
  moreover have "heap ex_world 12288 = None" by (simp add: ex_world_def)
  ultimately show ?thesis
    by (intro wp_mono [OF serde_roundtrip [where x = 7 and enc = "\<lambda>y. y" and dec = Inr and p = 12288]])
      (use ex_ready [of "Suc 0" DefaultStrategy 0] in \<open>simp_all add: debt_none_def\<close>)
qed



end
